theory Spec2Isabelle
  imports Complex_Main "HOL-Library.Multiset"
begin

section \<open>CoIoTeSolver: a shallow embedding of the solver core\<close>

text \<open>
  The development follows the C++ sources of CoIoTeSolver. Dense arrays
  (\<^verbatim>\<open>multi_array<T, N>\<close>) that are only ever indexed inside their bounds are
  modelled as total functions on index tuples; \<^verbatim>\<open>std::vector\<close>s that are walked,
  sorted or indexed by position are lists. The type \<^verbatim>\<open>int\<close> is modelled by the
  mathematical integers (the instance sizes of the problem keep every quantity far
  from the 32-bit limits), and \<^verbatim>\<open>double\<close> values, which in this program are
  integers or quotients of two integers, by exact rationals.
\<close>

subsection \<open>Activity slots (\<^verbatim>\<open>activities_slots.h\<close>)\<close>

text \<open>
  The constructor allocates \<open>max_activities + 1\<close> rows of \<open>n_cust_types + 1\<close>
  booleans, all false, fills row \<open>0\<close> with true and then runs the two nested loops.
  \<open>slots_cell\<close> is the body of the inner loop for row \<open>a\<close> and column \<open>m\<close>;
  \<open>slots_row\<close> is the inner loop; the outer loop is the fold in
  \<open>new_activities_slots\<close>. The parameter \<open>max_activities\<close> is a natural number:
  the solver computes it as a maximum that starts from \<open>0\<close>.
\<close>

record activities_slots =
  data :: "bool list list"
  gen_idx :: nat

definition slots_cell :: "(nat \<Rightarrow> int) \<Rightarrow> nat \<Rightarrow> nat \<Rightarrow> bool list list \<Rightarrow> nat \<Rightarrow> bool list list" where
  "slots_cell act_per_user gen a d m =
     (let idx = int a - act_per_user m in
      if idx \<ge> 0 then
        (let d1 = d[a := (d ! a)[m := d ! nat idx ! gen]]
         in d1[a := (d1 ! a)[gen := (d1 ! a ! gen \<or> d1 ! a ! m)]])
      else d)"

definition slots_row :: "(nat \<Rightarrow> int) \<Rightarrow> nat \<Rightarrow> bool list list \<Rightarrow> nat \<Rightarrow> bool list list" where
  "slots_row act_per_user n_cust_types d a = foldl (slots_cell act_per_user n_cust_types a) d [0..<n_cust_types]"

definition slots_init :: "nat \<Rightarrow> nat \<Rightarrow> bool list list" where
  "slots_init max_activities n_cust_types =
     (replicate (Suc max_activities) (replicate (Suc n_cust_types) False))
       [0 := replicate (Suc n_cust_types) True]"

definition new_activities_slots :: "nat \<Rightarrow> nat \<Rightarrow> (nat \<Rightarrow> int) \<Rightarrow> activities_slots" where
  "new_activities_slots max_activities n_cust_types act_per_user =
     \<lparr> data = foldl (slots_row act_per_user n_cust_types)
                (slots_init max_activities n_cust_types) [0..<Suc max_activities],
       gen_idx = n_cust_types \<rparr>"

definition should_skip :: "activities_slots \<Rightarrow> int \<Rightarrow> bool" where
  "should_skip s demand = (\<not> data s ! nat demand ! gen_idx s)"

definition can_be_selected :: "activities_slots \<Rightarrow> int \<Rightarrow> nat \<Rightarrow> bool" where
  "can_be_selected s demand m = (demand \<ge> 0 \<and> data s ! nat demand ! m)"

definition slots_shape :: "nat \<Rightarrow> nat \<Rightarrow> bool list list \<Rightarrow> bool" where
  "slots_shape rows cols d = (length d = rows \<and> (\<forall>r<rows. length (d ! r) = cols))"

lemma slots_cell_noop: "int a < act_per_user m \<Longrightarrow> slots_cell act_per_user gen a d m = d"
  by (simp add: slots_cell_def Let_def)

lemma slots_cell_shape:
  "slots_shape rows cols d \<Longrightarrow> slots_shape rows cols (slots_cell act_per_user gen a d m)"
  unfolding slots_cell_def Let_def slots_shape_def
  by (cases "a < rows") (auto simp: nth_list_update)

lemma slots_cell_other:
  "r \<noteq> a \<Longrightarrow> slots_cell act_per_user gen a d m ! r = d ! r"
  by (auto simp: slots_cell_def Let_def)

lemma slots_cell_row:
  assumes sh: "slots_shape rows (Suc gen) d" and a: "a < rows" and m: "m < gen"
  shows "slots_cell act_per_user gen a d m ! a ! c =
     (if int a < act_per_user m then d ! a ! c
      else if c = m then d ! nat (int a - act_per_user m) ! gen
      else if c = gen then (d ! a ! gen \<or> d ! nat (int a - act_per_user m) ! gen)
      else d ! a ! c)"
  using assms by (auto simp: slots_cell_def Let_def slots_shape_def nth_list_update)

text \<open>Row \<open>a\<close> after the first \<open>k\<close> columns have been processed.\<close>

lemma slots_row_prefix:
  assumes pos: "\<forall>m<gen. 0 < act_per_user m"
    and sh: "slots_shape rows (Suc gen) d" and a: "a < rows" and a0: "0 < a"
    and blank: "\<forall>c\<le>gen. \<not> d ! a ! c"
    and k: "k \<le> gen"
  shows "let d' = foldl (slots_cell act_per_user gen a) d [0..<k] in
     slots_shape rows (Suc gen) d' \<and> (\<forall>r. r \<noteq> a \<longrightarrow> d' ! r = d ! r) \<and>
     (\<forall>m<k. d' ! a ! m = (act_per_user m \<le> int a \<and> d ! nat (int a - act_per_user m) ! gen)) \<and>
     (\<forall>m. k \<le> m \<and> m < gen \<longrightarrow> \<not> d' ! a ! m) \<and>
     (d' ! a ! gen = (\<exists>m<k. d' ! a ! m))"
  using k
proof (induction k)
  case 0
  then show ?case using sh blank by simp
next
  case (Suc k)
  let ?d = "foldl (slots_cell act_per_user gen a) d [0..<k]"
  from Suc have IH: "slots_shape rows (Suc gen) ?d" "\<forall>r. r \<noteq> a \<longrightarrow> ?d ! r = d ! r"
    "\<forall>m<k. ?d ! a ! m = (act_per_user m \<le> int a \<and> d ! nat (int a - act_per_user m) ! gen)"
    "\<forall>m. k \<le> m \<and> m < gen \<longrightarrow> \<not> ?d ! a ! m"
    "?d ! a ! gen = (\<exists>m<k. ?d ! a ! m)"
    by (simp_all add: Let_def)
  have kg: "k < gen" using Suc.prems by simp
  have posk: "0 < act_per_user k" using pos kg by simp
  let ?e = "slots_cell act_per_user gen a ?d k"
  have step: "foldl (slots_cell act_per_user gen a) d [0..<Suc k] = ?e" by simp
  have row: "\<And>c. ?e ! a ! c =
     (if int a < act_per_user k then ?d ! a ! c
      else if c = k then ?d ! nat (int a - act_per_user k) ! gen
      else if c = gen then (?d ! a ! gen \<or> ?d ! nat (int a - act_per_user k) ! gen)
      else ?d ! a ! c)"
    using slots_cell_row[OF IH(1) a kg] by simp
  have prev: "\<not> int a < act_per_user k \<Longrightarrow> ?d ! nat (int a - act_per_user k) = d ! nat (int a - act_per_user k)"
    using IH(2) posk a0 by (metis diff_less_eq int_nat_eq less_add_same_cancel1 nat_int of_nat_less_iff order_less_irrefl of_nat_0_less_iff zless_nat_conj)
  have c1: "slots_shape rows (Suc gen) ?e" using IH(1) by (rule slots_cell_shape)
  have c2: "\<forall>r. r \<noteq> a \<longrightarrow> ?e ! r = d ! r" using IH(2) by (simp add: slots_cell_other)
  have c3: "\<forall>m<Suc k. ?e ! a ! m = (act_per_user m \<le> int a \<and> d ! nat (int a - act_per_user m) ! gen)"
  proof (intro allI impI)
    fix m assume "m < Suc k"
    then consider "m < k" | "m = k" by linarith
    then show "?e ! a ! m = (act_per_user m \<le> int a \<and> d ! nat (int a - act_per_user m) ! gen)"
    proof cases
      case 1
      then have "m \<noteq> k" "m \<noteq> gen" using kg by auto
      then have "?e ! a ! m = ?d ! a ! m" using row by simp
      then show ?thesis using IH(3) 1 by simp
    next
      case 2
      show ?thesis
      proof (cases "int a < act_per_user k")
        case True
        then have "?e ! a ! k = ?d ! a ! k" using row by simp
        then show ?thesis using IH(4) kg True 2 by simp
      next
        case False
        then show ?thesis using row prev 2 by simp
      qed
    qed
  qed
  have c4: "\<forall>m. Suc k \<le> m \<and> m < gen \<longrightarrow> \<not> ?e ! a ! m"
  proof (intro allI impI)
    fix m assume m: "Suc k \<le> m \<and> m < gen"
    then have "m \<noteq> k" "m \<noteq> gen" by auto
    then have "?e ! a ! m = ?d ! a ! m" using row by simp
    then show "\<not> ?e ! a ! m" using IH(4) m by simp
  qed
  have c5: "?e ! a ! gen = (\<exists>m<Suc k. ?e ! a ! m)"
  proof -
    have old: "\<And>m. m < k \<Longrightarrow> ?e ! a ! m = ?d ! a ! m"
      using row kg by simp
    have "(\<exists>m<Suc k. ?e ! a ! m) = ((\<exists>m<k. ?e ! a ! m) \<or> ?e ! a ! k)"
      by (metis less_Suc_eq)
    also have "\<dots> = ((\<exists>m<k. ?d ! a ! m) \<or> ?e ! a ! k)" using old by auto
    also have "\<dots> = (?d ! a ! gen \<or> ?e ! a ! k)" using IH(5) by simp
    also have "\<dots> = ?e ! a ! gen"
    proof (cases "int a < act_per_user k")
      case True
      then have "?e ! a ! k = ?d ! a ! k" "?e ! a ! gen = ?d ! a ! gen" using row by simp_all
      then show ?thesis using IH(4) kg by auto
    next
      case False
      then show ?thesis using row kg by auto
    qed
    finally show ?thesis by simp
  qed
  show ?case unfolding step Let_def using c1 c2 c3 c4 c5 by blast
qed


lemma slots_row_zero:
  assumes pos: "\<forall>m<gen. 0 < act_per_user m" and k: "k \<le> gen"
  shows "foldl (slots_cell act_per_user gen 0) d [0..<k] = d"
  using k
proof (induction k)
  case 0
  then show ?case by simp
next
  case (Suc k)
  then have "int 0 < act_per_user k" using pos by simp
  then show ?case using Suc by (simp add: slots_cell_noop)
qed

definition slots_inv :: "(nat \<Rightarrow> int) \<Rightarrow> nat \<Rightarrow> nat \<Rightarrow> nat \<Rightarrow> bool list list \<Rightarrow> bool" where
  "slots_inv act_per_user gen rows k d =
     (slots_shape rows (Suc gen) d \<and> (\<forall>c\<le>gen. d ! 0 ! c) \<and>
      (\<forall>r. 0 < r \<and> r < k \<longrightarrow>
         (\<forall>m<gen. d ! r ! m = (act_per_user m \<le> int r \<and> d ! nat (int r - act_per_user m) ! gen)) \<and>
         d ! r ! gen = (\<exists>m<gen. d ! r ! m)) \<and>
      (\<forall>r. k \<le> r \<and> 0 < r \<and> r < rows \<longrightarrow> (\<forall>c\<le>gen. \<not> d ! r ! c)))"

lemma slots_init_nth:
  "r < Suc mx \<Longrightarrow> slots_init mx gen ! r = replicate (Suc gen) (r = 0)"
  unfolding slots_init_def by (simp add: nth_list_update del: replicate_Suc)

lemma slots_init_length: "length (slots_init mx gen) = Suc mx"
  unfolding slots_init_def by simp

lemma slots_inv_init: "slots_inv act_per_user gen (Suc mx) 0 (slots_init mx gen)"
  unfolding slots_inv_def slots_shape_def
  by (simp add: slots_init_nth slots_init_length del: replicate_Suc)

lemma slots_inv_step:
  assumes pos: "\<forall>m<gen. 0 < act_per_user m"
    and inv: "slots_inv act_per_user gen rows k d" and k: "k < rows"
  shows "slots_inv act_per_user gen rows (Suc k) (slots_row act_per_user gen d k)"
proof (cases "k = 0")
  case True
  have "slots_row act_per_user gen d 0 = d"
    unfolding slots_row_def using slots_row_zero[OF pos order_refl] .
  then show ?thesis using inv True by (auto simp: slots_inv_def)
next
  case False
  then have k0: "0 < k" by simp
  let ?d = "slots_row act_per_user gen d k"
  have sh: "slots_shape rows (Suc gen) d" using inv by (simp add: slots_inv_def)
  have blank: "\<forall>c\<le>gen. \<not> d ! k ! c" using inv k k0 by (simp add: slots_inv_def)
  note P = slots_row_prefix[OF pos sh k k0 blank order_refl, unfolded Let_def, folded slots_row_def]
  have p1: "slots_shape rows (Suc gen) ?d" using P by blast
  have p2: "\<And>r. r \<noteq> k \<Longrightarrow> ?d ! r = d ! r" using P by blast
  have p3: "\<And>m. m < gen \<Longrightarrow> ?d ! k ! m = (act_per_user m \<le> int k \<and> d ! nat (int k - act_per_user m) ! gen)"
    using P by blast
  have p5: "?d ! k ! gen = (\<exists>m<gen. ?d ! k ! m)" using P by blast
  have below: "\<And>r m. 0 < r \<Longrightarrow> m < gen \<Longrightarrow> act_per_user m \<le> int r \<Longrightarrow> r \<le> k \<Longrightarrow>
      ?d ! nat (int r - act_per_user m) = d ! nat (int r - act_per_user m)"
  proof -
    fix r m assume a: "0 < r" "m < gen" "act_per_user m \<le> int r" "r \<le> k"
    have "0 < act_per_user m" using pos a(2) by simp
    then have "nat (int r - act_per_user m) < r" using a(1,3) by linarith
    then have "nat (int r - act_per_user m) \<noteq> k" using a(4) by linarith
    then show "?d ! nat (int r - act_per_user m) = d ! nat (int r - act_per_user m)" by (rule p2)
  qed
  have c2: "\<forall>c\<le>gen. ?d ! 0 ! c" using inv p2[of 0] k0 by (simp add: slots_inv_def)
  have c3: "\<forall>r. 0 < r \<and> r < Suc k \<longrightarrow>
         (\<forall>m<gen. ?d ! r ! m = (act_per_user m \<le> int r \<and> ?d ! nat (int r - act_per_user m) ! gen)) \<and>
         ?d ! r ! gen = (\<exists>m<gen. ?d ! r ! m)"
  proof (intro allI impI)
    fix r assume r: "0 < r \<and> r < Suc k"
    show "(\<forall>m<gen. ?d ! r ! m = (act_per_user m \<le> int r \<and> ?d ! nat (int r - act_per_user m) ! gen)) \<and>
         ?d ! r ! gen = (\<exists>m<gen. ?d ! r ! m)"
    proof (cases "r = k")
      case True
      have "\<forall>m<gen. ?d ! k ! m = (act_per_user m \<le> int k \<and> ?d ! nat (int k - act_per_user m) ! gen)"
        using p3 below[of k] k0 by auto
      then show ?thesis using True p5 by simp
    next
      case False
      then have rk: "r < k" using r by simp
      have old: "(\<forall>m<gen. d ! r ! m = (act_per_user m \<le> int r \<and> d ! nat (int r - act_per_user m) ! gen)) \<and>
         d ! r ! gen = (\<exists>m<gen. d ! r ! m)"
        using inv r rk by (simp add: slots_inv_def)
      have "\<forall>m<gen. ?d ! r ! m = (act_per_user m \<le> int r \<and> ?d ! nat (int r - act_per_user m) ! gen)"
        using old p2[OF False] below[of r] r rk by auto
      then show ?thesis using old p2[OF False] by simp
    qed
  qed
  have c4: "\<forall>r. Suc k \<le> r \<and> 0 < r \<and> r < rows \<longrightarrow> (\<forall>c\<le>gen. \<not> ?d ! r ! c)"
  proof (intro allI impI)
    fix r c assume r: "Suc k \<le> r \<and> 0 < r \<and> r < rows" and c: "c \<le> gen"
    then have "r \<noteq> k" by simp
    then have "?d ! r = d ! r" by (rule p2)
    then show "\<not> ?d ! r ! c" using inv r c by (simp add: slots_inv_def)
  qed
  show ?thesis unfolding slots_inv_def using p1 c2 c3 c4 by blast
qed

lemma slots_inv_loop:
  assumes pos: "\<forall>m<gen. 0 < act_per_user m" and k: "k \<le> Suc mx"
  shows "slots_inv act_per_user gen (Suc mx) k
           (foldl (slots_row act_per_user gen) (slots_init mx gen) [0..<k])"
  using k
proof (induction k)
  case 0
  then show ?case by (simp add: slots_inv_init)
next
  case (Suc k)
  then show ?case using slots_inv_step[OF pos, of "Suc mx" k] by simp
qed

lemma slots_table_inv:
  assumes pos: "\<forall>m<n. 0 < act_per_user m"
  shows "slots_inv act_per_user n (Suc mx) (Suc mx) (data (new_activities_slots mx n act_per_user))"
  using slots_inv_loop[OF pos order_refl] by (simp add: new_activities_slots_def)

text \<open>
  Example data: one user type that performs one activity (the type table of the
  single-type scenarios), and two user types performing two and five activities.
\<close>

definition unit_act_per_user :: "nat \<Rightarrow> int" where
  "unit_act_per_user m = 1"

definition two_five_act_per_user :: "nat \<Rightarrow> int" where
  "two_five_act_per_user m = (if m = 0 then 2 else 5)"

lemma unit_slots_table:
  "data (new_activities_slots 0 1 unit_act_per_user) = [[True, True]]"
  by code_simp

lemma two_five_slots_table:
  "data (new_activities_slots 7 2 two_five_act_per_user) =
     [[True, True, True], [False, False, False], [True, False, True],
      [False, False, False], [True, False, True], [False, True, True],
      [True, False, True], [True, True, True]]"
  by code_simp

text \<open>
  Claim C6, as stated, asks for three properties of the table: (a) every entry of row
  \<open>0\<close> is true, (b) \<open>reach[a][m]\<close> implies \<open>a \<ge> act_per_user[m]\<close> for every
  \<open>a\<close> in \<open>[0, max_activities]\<close>, and (c) the sentinel column equals the disjunction
  of the type columns. Part (b) fails on row \<open>0\<close>: the constructor fills that row with
  true, so \<open>reach[0][m]\<close> holds although \<open>0 < act_per_user[m]\<close>. The instance below
  is the table for one user type performing one activity.
\<close>

theorem C6_row_zero_counterexample:
  "\<not> (data (new_activities_slots 0 1 unit_act_per_user) ! 0 ! 0
        \<longrightarrow> unit_act_per_user 0 \<le> int 0)"
  unfolding unit_slots_table unit_act_per_user_def by simp

text \<open>
  Claim C6, amended: for a table built by the constructor from positive
  activities-per-user values and at least one user type, (a) every entry of row \<open>0\<close>
  is true, (b) for every \<open>a\<close> in \<open>[1, max_activities]\<close> and every type \<open>m\<close>,
  \<open>reach[a][m]\<close> implies \<open>a \<ge> act_per_user[m]\<close>, and (c) for every \<open>a\<close> in
  \<open>[0, max_activities]\<close>, \<open>reach[a][sentinel]\<close> equals the disjunction over \<open>m\<close>
  of \<open>reach[a][m]\<close>.
\<close>

theorem C6_slots_table:
  assumes pos: "\<forall>m<n_cust_types. 0 < act_per_user m" and types: "0 < n_cust_types"
  shows "let reach = data (new_activities_slots max_activities n_cust_types act_per_user) in
      (\<forall>c\<le>n_cust_types. reach ! 0 ! c) \<and>
      (\<forall>a m. 0 < a \<and> a \<le> max_activities \<and> m < n_cust_types \<and> reach ! a ! m
          \<longrightarrow> act_per_user m \<le> int a) \<and>
      (\<forall>a\<le>max_activities. reach ! a ! n_cust_types = (\<exists>m<n_cust_types. reach ! a ! m))"
proof -
  let ?reach = "data (new_activities_slots max_activities n_cust_types act_per_user)"
  note inv = slots_table_inv[OF pos, of max_activities, unfolded slots_inv_def]
  have a: "\<forall>c\<le>n_cust_types. ?reach ! 0 ! c" using inv by blast
  have rows: "\<And>r. 0 < r \<Longrightarrow> r \<le> max_activities \<Longrightarrow>
      (\<forall>m<n_cust_types. ?reach ! r ! m =
          (act_per_user m \<le> int r \<and> ?reach ! nat (int r - act_per_user m) ! n_cust_types)) \<and>
      ?reach ! r ! n_cust_types = (\<exists>m<n_cust_types. ?reach ! r ! m)"
    using inv by (simp add: less_Suc_eq_le)
  have b: "\<forall>a m. 0 < a \<and> a \<le> max_activities \<and> m < n_cust_types \<and> ?reach ! a ! m
          \<longrightarrow> act_per_user m \<le> int a"
    using rows by blast
  have c: "\<forall>a\<le>max_activities. ?reach ! a ! n_cust_types = (\<exists>m<n_cust_types. ?reach ! a ! m)"
  proof (intro allI impI)
    fix a assume le: "a \<le> max_activities"
    show "?reach ! a ! n_cust_types = (\<exists>m<n_cust_types. ?reach ! a ! m)"
    proof (cases "a = 0")
      case True
      have "?reach ! 0 ! n_cust_types" using a by simp
      moreover have "?reach ! 0 ! 0" using a by simp
      ultimately show ?thesis using True types by blast
    next
      case False
      then show ?thesis using rows[of a] le by simp
    qed
  qed
  show ?thesis unfolding Let_def using a b c by blast
qed

theorem C6_slots_table_witness:
  "data (new_activities_slots 7 2 two_five_act_per_user) ! 0 ! 2 \<and>
   data (new_activities_slots 7 2 two_five_act_per_user) ! 7 ! 1 \<and>
   two_five_act_per_user 1 \<le> int 7 \<and>
   data (new_activities_slots 7 2 two_five_act_per_user) ! 7 ! 2"
  using C6_slots_table[of 2 two_five_act_per_user 7]
  unfolding two_five_slots_table two_five_act_per_user_def by simp


subsection \<open>Stoppable timer (\<^verbatim>\<open>timer.h\<close>)\<close>

text \<open>
  The timer owns a thread that runs \<^verbatim>\<open>timer_function\<close>: it waits on the condition
  variable until the flag \<^verbatim>\<open>end\<close> is set or the duration has elapsed, then sets
  \<^verbatim>\<open>end\<close> and calls the callback. \<^verbatim>\<open>stop()\<close> sets \<^verbatim>\<open>end\<close> under the mutex,
  notifies the thread and joins it. The two threads and the clock are modelled as an
  interleaving of atomic events on a record of the timer's fields:
  \<^item> \<open>Duration_elapses\<close>: the wall-clock duration of the timer has passed;
  \<^item> \<open>Thread_runs\<close>: the timer thread is scheduled; \<^verbatim>\<open>wait_for\<close> returns when its
    predicate \<^verbatim>\<open>end\<close> holds or on time-out, and the thread then sets \<^verbatim>\<open>end\<close> and
    runs the callback (both under the mutex, hence atomically);
  \<^item> \<open>Stop_invoked\<close>: \<^verbatim>\<open>stop()\<close> is entered; if the timer is not yet stopped it sets
    \<^verbatim>\<open>end\<close> and notifies;
  \<^item> \<open>Join_returns\<close>: the \<^verbatim>\<open>join\<close> inside \<^verbatim>\<open>stop()\<close> returns once the thread has
    finished, and \<^verbatim>\<open>stopped\<close> is set.
  The field \<open>callbacks\<close> counts the executions of the callback.
\<close>

datatype timer_thread = Waiting | Finished

datatype stop_call = Not_called | Joining | Returned

record timer =
  timer_end :: bool
  stopped :: bool
  th_timer :: timer_thread
  stop_pc :: stop_call
  expired :: bool
  callbacks :: nat

definition new_timer :: timer where
  "new_timer = \<lparr> timer_end = False, stopped = False, th_timer = Waiting,
                  stop_pc = Not_called, expired = False, callbacks = 0 \<rparr>"

datatype timer_event = Duration_elapses | Thread_runs | Stop_invoked | Join_returns

definition timer_function :: "timer \<Rightarrow> timer" where
  "timer_function tm =
     (if th_timer tm = Waiting \<and> (timer_end tm \<or> expired tm)
      then tm\<lparr> timer_end := True, callbacks := Suc (callbacks tm), th_timer := Finished \<rparr>
      else tm)"

definition stop_begin :: "timer \<Rightarrow> timer" where
  "stop_begin tm =
     (if \<not> stopped tm \<and> stop_pc tm = Not_called
      then tm\<lparr> timer_end := True, stop_pc := Joining \<rparr>
      else tm)"

definition stop_join :: "timer \<Rightarrow> timer" where
  "stop_join tm =
     (if stop_pc tm = Joining \<and> th_timer tm = Finished
      then tm\<lparr> stopped := True, stop_pc := Returned \<rparr>
      else tm)"

fun timer_step :: "timer \<Rightarrow> timer_event \<Rightarrow> timer" where
  "timer_step tm Duration_elapses = tm\<lparr> expired := True \<rparr>"
| "timer_step tm Thread_runs = timer_function tm"
| "timer_step tm Stop_invoked = stop_begin tm"
| "timer_step tm Join_returns = stop_join tm"

definition timer_run :: "timer_event list \<Rightarrow> timer" where
  "timer_run es = foldl timer_step new_timer es"

definition timer_inv :: "timer \<Rightarrow> bool" where
  "timer_inv tm =
     ((th_timer tm = Waiting \<longrightarrow> callbacks tm = 0) \<and>
      (th_timer tm = Finished \<longrightarrow> callbacks tm = 1 \<and> timer_end tm) \<and>
      (stopped tm \<longrightarrow> th_timer tm = Finished) \<and>
      (stop_pc tm \<noteq> Not_called \<longrightarrow> timer_end tm) \<and>
      (timer_end tm \<longrightarrow> expired tm \<or> stop_pc tm \<noteq> Not_called))"

lemma timer_inv_step: "timer_inv tm \<Longrightarrow> timer_inv (timer_step tm e)"
  by (cases e) (auto simp: timer_inv_def timer_function_def stop_begin_def stop_join_def)

lemma timer_inv_foldl: "timer_inv tm \<Longrightarrow> timer_inv (foldl timer_step tm es)"
  by (induction es arbitrary: tm) (simp_all add: timer_inv_step)

lemma timer_inv_run: "timer_inv (timer_run es)"
  unfolding timer_run_def by (rule timer_inv_foldl) (simp add: timer_inv_def new_timer_def)

text \<open>
  Claim C9, as stated: if \<^verbatim>\<open>stop()\<close> is invoked before the duration elapses, the
  callback is never executed. It fails: \<^verbatim>\<open>timer_function\<close> calls the callback
  whenever its wait ends, also when the wait was ended by \<^verbatim>\<open>stop()\<close>. In the run
  below the duration never elapses, \<^verbatim>\<open>stop()\<close> is invoked and returns, and the
  callback has been executed.
\<close>

theorem C9_stop_runs_callback_counterexample:
  "\<not> (\<not> expired (timer_run [Stop_invoked, Thread_runs, Join_returns])
        \<longrightarrow> callbacks (timer_run [Stop_invoked, Thread_runs, Join_returns]) = 0)"
  by (simp add: timer_run_def new_timer_def timer_function_def stop_begin_def stop_join_def)

text \<open>
  Claim C9, amended: in every run of a timer the callback is executed at most once;
  it is executed only after the duration has elapsed or \<^verbatim>\<open>stop()\<close> has been
  invoked; and whenever \<^verbatim>\<open>stop()\<close> has returned the callback has been executed
  exactly once, also when the duration has not elapsed (cancellation triggers the
  callback instead of suppressing it).
\<close>

theorem C9_timer_callback:
  "callbacks (timer_run es) \<le> 1 \<and>
   (callbacks (timer_run es) = 1 \<longrightarrow> expired (timer_run es) \<or> stop_pc (timer_run es) \<noteq> Not_called) \<and>
   (stopped (timer_run es) \<longrightarrow> callbacks (timer_run es) = 1)"
  using timer_inv_run[of es] unfolding timer_inv_def
  by (cases "th_timer (timer_run es)") auto

theorem C9_timer_callback_witness:
  "callbacks (timer_run [Stop_invoked, Thread_runs, Join_returns]) \<le> 1 \<and>
   stop_pc (timer_run [Stop_invoked, Thread_runs, Join_returns]) \<noteq> Not_called \<and>
   stopped (timer_run [Stop_invoked, Thread_runs, Join_returns]) \<and>
   callbacks (timer_run [Stop_invoked, Thread_runs, Join_returns]) = 1"
  using C9_timer_callback[of "[Stop_invoked, Thread_runs, Join_returns]"]
  by (simp add: timer_run_def new_timer_def timer_function_def stop_begin_def stop_join_def)


subsection \<open>Problem data and the solver object (\<^verbatim>\<open>coiote_solver.h\<close>)\<close>

text \<open>
  A three-index \<open>(i, m, t)\<close> names a group of users (source cell, user type, time
  period); a four-index \<open>(i, j, m, t)\<close> adds the destination cell \<open>j\<close>. The cost
  table holds integers (the constructor stores the result of \<^verbatim>\<open>std::stoi\<close>).
  \<open>costs_order\<close> is the matrix of \<^verbatim>\<open>cells_order\<close> objects, one list of four-indexes
  for each limiting type and destination cell. The KPI vector holds rationals.
\<close>

type_synonym three_index = "nat \<times> nat \<times> nat"
type_synonym four_index = "nat \<times> nat \<times> nat \<times> nat"

definition three_of :: "four_index \<Rightarrow> three_index" where
  "three_of idx = (case idx of (i, j, m, t) \<Rightarrow> (i, m, t))"

definition idx_i :: "four_index \<Rightarrow> nat" where "idx_i idx = fst idx"
definition idx_j :: "four_index \<Rightarrow> nat" where "idx_j idx = fst (snd idx)"
definition idx_m :: "four_index \<Rightarrow> nat" where "idx_m idx = fst (snd (snd idx))"
definition idx_t :: "four_index \<Rightarrow> nat" where "idx_t idx = snd (snd (snd idx))"

text \<open>The records follow the members of the classes of the same names.\<close>

record input_problem =
  costs :: "four_index \<Rightarrow> int"
  users_available :: "three_index \<Rightarrow> int"
  activities :: "nat \<Rightarrow> int"
  act_per_user :: "nat \<Rightarrow> int"

record global_statistics =
  costs_order :: "nat \<Rightarrow> nat \<Rightarrow> four_index list"
  act_per_user_sorted :: "int list"
  max_act_per_user :: int
  max_activities :: int
  act_slots :: "activities_slots option"

record coiote_solver =
  n_cells :: nat
  n_time_steps :: nat
  n_cust_types :: nat
  problem :: input_problem
  statistics :: global_statistics
  has_solution :: bool
  solution :: "four_index \<Rightarrow> int"
  kpi :: "rat list"

text \<open>Decimal output of the stream operators for unsigned and signed integers.\<close>

function show_nat :: "nat \<Rightarrow> string" where
  "show_nat n = (if n < 10 then [char_of (48 + n)] else show_nat (n div 10) @ [char_of (48 + n mod 10)])"
  by pat_completeness auto
termination
  by (relation "measure id") auto

declare show_nat.simps [simp del]

definition show_int :: "int \<Rightarrow> string" where
  "show_int x = (if x < 0 then CHR ''-'' # show_nat (nat (- x)) else show_nat (nat x))"

definition endl :: string where
  "endl = [CHR 0x0A]"

text \<open>
  The two writers of the input/output part of the class. The output stream is the
  string written so far; the formatting of a \<^verbatim>\<open>double\<close> by the stream is the
  parameter \<open>show_double\<close>.
\<close>

definition write_kpi :: "(rat \<Rightarrow> string) \<Rightarrow> coiote_solver \<Rightarrow> string \<Rightarrow> string \<Rightarrow> string" where
  "write_kpi show_double cs output_file instance_name =
     (if \<not> has_solution cs then output_file
      else output_file @ instance_name @ '';'' @ show_double (kpi cs ! 0) @ '';'' @ show_double (kpi cs ! 1)
           @ concat (map (\<lambda>i. '';'' @ show_double (kpi cs ! i)) [2..<length (kpi cs)])
           @ endl)"

definition solution_line :: "coiote_solver \<Rightarrow> four_index \<Rightarrow> string" where
  "solution_line cs idx =
     show_nat (idx_i idx) @ '';'' @ show_nat (idx_j idx) @ '';'' @ show_nat (idx_m idx) @ '';''
       @ show_nat (idx_t idx) @ '';'' @ show_int (solution cs idx) @ endl"

definition write_solution :: "coiote_solver \<Rightarrow> string \<Rightarrow> string" where
  "write_solution cs solution_file =
     (if \<not> has_solution cs then solution_file
      else solution_file
           @ show_nat (n_cells cs) @ '';'' @ show_nat (n_time_steps cs) @ '';'' @ show_nat (n_cust_types cs) @ endl
           @ concat [solution_line cs (i, j, m, t).
                       m \<leftarrow> [0..<n_cust_types cs], t \<leftarrow> [0..<n_time_steps cs],
                       i \<leftarrow> [0..<n_cells cs], j \<leftarrow> [0..<n_cells cs], solution cs (i, j, m, t) > 0])"



text \<open>The constructor: no solution yet, empty statistics, the problem as read.\<close>

definition new_coiote_solver :: "nat \<Rightarrow> nat \<Rightarrow> nat \<Rightarrow> input_problem \<Rightarrow> coiote_solver" where
  "new_coiote_solver c t m p =
     \<lparr> n_cells = c, n_time_steps = t, n_cust_types = m, problem = p,
       statistics = \<lparr> costs_order = (\<lambda>k j. []), act_per_user_sorted = replicate m 0,
                      max_act_per_user = 0, max_activities = 0, act_slots = None \<rparr>,
       has_solution = False, solution = (\<lambda>idx. 0), kpi = [] \<rparr>"

definition s1_problem :: input_problem where
  "s1_problem =
     \<lparr> costs = (\<lambda>idx. if idx = (0, 1, 0, 0) \<or> idx = (1, 0, 0, 0) then 7 else 0),
       users_available = (\<lambda>b. if b = (0, 0, 0) then 1 else 0),
       activities = (\<lambda>j. if j = 1 then 1 else 0),
       act_per_user = (\<lambda>m. 1) \<rparr>"

definition show_floor :: "rat \<Rightarrow> string" where
  "show_floor x = show_int \<lfloor>x\<rfloor>"

lemma write_kpi_has_solution:
  "has_solution cs \<Longrightarrow> length (write_kpi show_double cs output_file instance_name) > length output_file"
  by (simp add: write_kpi_def endl_def)

lemma write_solution_has_solution:
  "has_solution cs \<Longrightarrow> length (write_solution cs solution_file) > length solution_file"
  by (simp add: write_solution_def endl_def)

text \<open>
  Claim C10: when no feasible solution has been recorded (\<open>has_solution\<close> is false),
  \<open>write_kpi\<close> writes nothing to the KPI stream and \<open>write_solution\<close> writes nothing
  to the solution stream.
\<close>

theorem C10_no_solution_no_output:
  "\<not> has_solution cs \<Longrightarrow>
     write_kpi show_double cs output_file instance_name = output_file \<and>
     write_solution cs solution_file = solution_file"
  by (simp add: write_kpi_def write_solution_def)

theorem C10_no_solution_no_output_witness:
  "\<not> has_solution (new_coiote_solver 2 1 1 s1_problem) \<and>
   write_kpi show_floor (new_coiote_solver 2 1 1 s1_problem) ''a;1;2'' ''s1'' = ''a;1;2'' \<and>
   write_solution (new_coiote_solver 2 1 1 s1_problem) [] = []"
  using C10_no_solution_no_output[of "new_coiote_solver 2 1 1 s1_problem" show_floor "''a;1;2''" "''s1''" "[]"]
  by (simp add: new_coiote_solver_def)

subsection \<open>Comparators and sorting\<close>

text \<open>
  \<open>cmp_costs_asc\<close> and \<open>cmp_costs_desc\<close> are the two comparator classes.
  \<^verbatim>\<open>std::sort\<close> belongs to the C++ library; it is modelled by insertion sort with
  respect to the comparator (\<open>sort_by\<close>), one of the orders a call of
  \<^verbatim>\<open>std::sort\<close> may produce.
\<close>

definition reduced_cost :: "input_problem \<Rightarrow> int \<Rightarrow> four_index \<Rightarrow> rat" where
  "reduced_cost p max_done idx =
     of_int (costs p idx) / of_int (min (act_per_user p (idx_m idx)) max_done)"

definition cmp_costs_asc :: "input_problem \<Rightarrow> int \<Rightarrow> four_index \<Rightarrow> four_index \<Rightarrow> bool" where
  "cmp_costs_asc p max_done lhs rhs = (reduced_cost p max_done lhs < reduced_cost p max_done rhs)"

definition cmp_costs_desc :: "input_problem \<Rightarrow> four_index \<Rightarrow> four_index \<Rightarrow> bool" where
  "cmp_costs_desc p lhs rhs = (costs p lhs > costs p rhs)"

fun insert_by :: "('a \<Rightarrow> 'a \<Rightarrow> bool) \<Rightarrow> 'a \<Rightarrow> 'a list \<Rightarrow> 'a list" where
  "insert_by lt x [] = [x]"
| "insert_by lt x (y # ys) = (if lt y x then y # insert_by lt x ys else x # y # ys)"

definition sort_by :: "('a \<Rightarrow> 'a \<Rightarrow> bool) \<Rightarrow> 'a list \<Rightarrow> 'a list" where
  "sort_by lt xs = foldr (insert_by lt) xs []"

subsection \<open>Initialization (\<^verbatim>\<open>initialization_phase\<close>, \<^verbatim>\<open>fill_cells_order\<close>)\<close>

text \<open>
  \<open>collect_indexes\<close> is the triple loop of \<^verbatim>\<open>fill_cells_order\<close> that pushes the
  indexes of one destination cell; \<open>fill_cell_order\<close> is the body of its loop over
  the destination cells. The class \<^verbatim>\<open>cells_order\<close> is a sequence of four-indexes, here
  a list; its \<^verbatim>\<open>sort\<close> is \<open>sort_by\<close>. The helper threads of
  \<^verbatim>\<open>initialization_phase\<close> write disjoint rows of \<open>costs_order\<close>, so running them
  one after the other gives the state after the join.
\<close>

definition collect_indexes :: "coiote_solver \<Rightarrow> nat \<Rightarrow> four_index list" where
  "collect_indexes cs j =
     [(i, j, m, t). i \<leftarrow> [0..<n_cells cs], i \<noteq> j, m \<leftarrow> [0..<n_cust_types cs],
                    t \<leftarrow> [0..<n_time_steps cs], users_available (problem cs) (i, m, t) > 0]"

definition fill_cell_order :: "coiote_solver \<Rightarrow> nat \<Rightarrow> (nat \<Rightarrow> nat \<Rightarrow> four_index list) \<Rightarrow> nat
    \<Rightarrow> (nat \<Rightarrow> nat \<Rightarrow> four_index list)" where
  "fill_cell_order cs index co j =
     (if activities (problem cs) j = 0 then co
      else co(index := (co index)(j :=
             sort_by (cmp_costs_asc (problem cs) (act_per_user_sorted (statistics cs) ! index))
                     (collect_indexes cs j))))"

definition fill_cells_order :: "nat \<Rightarrow> coiote_solver \<Rightarrow> coiote_solver" where
  "fill_cells_order index cs =
     cs\<lparr> statistics := (statistics cs)\<lparr> costs_order :=
           foldl (fill_cell_order cs index) (costs_order (statistics cs)) [0..<n_cells cs] \<rparr> \<rparr>"

definition initialization_phase :: "coiote_solver \<Rightarrow> coiote_solver" where
  "initialization_phase cs =
     (let sorted = sort_by (\<lambda>a b. a > b) (map (act_per_user (problem cs)) [0..<n_cust_types cs]);
          cs1 = cs\<lparr> statistics := (statistics cs)\<lparr> act_per_user_sorted := sorted,
                                                     max_act_per_user := sorted ! 0 \<rparr> \<rparr>;
          cs2 = foldl (\<lambda>c m. fill_cells_order m c) cs1 [0..<n_cust_types cs];
          mx = foldl (\<lambda>a j. max a (activities (problem cs) j)) 0 [0..<n_cells cs]
      in cs2\<lparr> statistics := (statistics cs2)\<lparr> max_activities := mx \<rparr> \<rparr>)"

text \<open>
  \<^verbatim>\<open>get_costs_idx\<close>: the loop starts from \<open>m = 0\<close>. The bound
  \<^verbatim>\<open>n_cust_types - 1\<close> is computed on unsigned integers in the source; the model's
  truncating subtraction agrees with it for at least one user type.
\<close>

function get_costs_idx_from :: "global_statistics \<Rightarrow> nat \<Rightarrow> int \<Rightarrow> nat \<Rightarrow> nat" where
  "get_costs_idx_from st n demand m =
     (if act_per_user_sorted st ! m > demand \<and> m < n - 1
      then get_costs_idx_from st n demand (Suc m) else m)"
  by pat_completeness auto
termination
  by (relation "measure (\<lambda>(st, n, demand, m). n - 1 - m)") auto

declare get_costs_idx_from.simps [simp del]

definition get_costs_idx :: "coiote_solver \<Rightarrow> int \<Rightarrow> nat" where
  "get_costs_idx cs demand = get_costs_idx_from (statistics cs) (n_cust_types cs) demand 0"


text \<open>The comparators compare keys, so \<open>sort_by\<close> is the library's stable key sort.\<close>

lemma insert_by_key: "insert_by (\<lambda>a b. f a < f b) x ys = insort_key f x ys"
  by (induction ys) (auto simp: not_less)

lemma sort_by_key: "sort_by (\<lambda>a b. f a < f b) xs = sort_key f xs"
  unfolding sort_by_def sort_key_def by (induction xs) (simp_all add: insert_by_key)

lemma sort_by_asc: "sort_by (cmp_costs_asc p md) xs = sort_key (reduced_cost p md) xs"
proof -
  have "cmp_costs_asc p md = (\<lambda>a b. reduced_cost p md a < reduced_cost p md b)"
    by (intro ext) (simp add: cmp_costs_asc_def)
  then show ?thesis by (simp add: sort_by_key)
qed

lemma sort_by_desc: "sort_by (cmp_costs_desc p) xs = sort_key (\<lambda>idx. - costs p idx) xs"
  using sort_by_key[of "\<lambda>idx. - costs p idx" xs]
  by (simp add: cmp_costs_desc_def[abs_def])

lemma sort_by_greater: "sort_by (\<lambda>a b. a > b) (xs :: int list) = sort_key uminus xs"
  using sort_by_key[of "uminus :: int \<Rightarrow> int" xs] by simp

lemma set_collect_indexes:
  "set (collect_indexes cs j) =
     {(i, j', m, t). j' = j \<and> i < n_cells cs \<and> i \<noteq> j \<and> m < n_cust_types cs \<and> t < n_time_steps cs
                     \<and> users_available (problem cs) (i, m, t) > 0}"
  unfolding collect_indexes_def by auto

lemma distinct_concat_map:
  assumes "distinct xs" and "\<And>x. x \<in> set xs \<Longrightarrow> distinct (f x)"
    and "\<And>x y. x \<in> set xs \<Longrightarrow> y \<in> set xs \<Longrightarrow> x \<noteq> y \<Longrightarrow> set (f x) \<inter> set (f y) = {}"
  shows "distinct (concat (map f xs))"
  using assms
proof (induction xs)
  case Nil
  then show ?case by simp
next
  case (Cons x xs)
  have "set (f x) \<inter> (\<Union>y\<in>set xs. set (f y)) = {}"
    using Cons.prems(1) Cons.prems(3)[of x] by fastforce
  then show ?case using Cons by simp
qed

lemma distinct_collect_indexes: "distinct (collect_indexes cs j)"
  unfolding collect_indexes_def
  by (auto intro!: distinct_concat_map)


definition sorted_cell_order :: "coiote_solver \<Rightarrow> nat \<Rightarrow> nat \<Rightarrow> four_index list" where
  "sorted_cell_order cs index j =
     sort_by (cmp_costs_asc (problem cs) (act_per_user_sorted (statistics cs) ! index))
             (collect_indexes cs j)"

lemma fill_cell_order_fold:
  "foldl (fill_cell_order cs index) co [0..<n] =
     (\<lambda>k j. if k = index \<and> j < n \<and> activities (problem cs) j \<noteq> 0
             then sorted_cell_order cs index j else co k j)"
proof (induction n)
  case 0
  then show ?case by simp
next
  case (Suc n)
  have "foldl (fill_cell_order cs index) co [0..<Suc n] =
        fill_cell_order cs index (\<lambda>k j. if k = index \<and> j < n \<and> activities (problem cs) j \<noteq> 0
             then sorted_cell_order cs index j else co k j) n"
    using Suc by simp
  also have "\<dots> = (\<lambda>k j. if k = index \<and> j < Suc n \<and> activities (problem cs) j \<noteq> 0
             then sorted_cell_order cs index j else co k j)"
    by (intro ext) (auto simp: fill_cell_order_def sorted_cell_order_def less_Suc_eq)
  finally show ?case .
qed

lemma fill_cells_order_simps:
  "n_cells (fill_cells_order index cs) = n_cells cs"
  "n_time_steps (fill_cells_order index cs) = n_time_steps cs"
  "n_cust_types (fill_cells_order index cs) = n_cust_types cs"
  "problem (fill_cells_order index cs) = problem cs"
  "act_per_user_sorted (statistics (fill_cells_order index cs)) = act_per_user_sorted (statistics cs)"
  "max_act_per_user (statistics (fill_cells_order index cs)) = max_act_per_user (statistics cs)"
  "costs_order (statistics (fill_cells_order index cs)) =
     (\<lambda>k j. if k = index \<and> j < n_cells cs \<and> activities (problem cs) j \<noteq> 0
             then sorted_cell_order cs index j else costs_order (statistics cs) k j)"
  by (simp_all add: fill_cells_order_def fill_cell_order_fold)

lemma sorted_cell_order_cong:
  "problem cs' = problem cs \<Longrightarrow> n_cells cs' = n_cells cs \<Longrightarrow> n_cust_types cs' = n_cust_types cs \<Longrightarrow>
   n_time_steps cs' = n_time_steps cs \<Longrightarrow>
   act_per_user_sorted (statistics cs') = act_per_user_sorted (statistics cs) \<Longrightarrow>
   sorted_cell_order cs' index j = sorted_cell_order cs index j"
  by (simp add: sorted_cell_order_def collect_indexes_def cong: if_cong)

lemma fill_all_orders:
  "let cs' = foldl (\<lambda>c m. fill_cells_order m c) cs [0..<n] in
     n_cells cs' = n_cells cs \<and> n_time_steps cs' = n_time_steps cs \<and>
     n_cust_types cs' = n_cust_types cs \<and> problem cs' = problem cs \<and>
     act_per_user_sorted (statistics cs') = act_per_user_sorted (statistics cs) \<and>
     max_act_per_user (statistics cs') = max_act_per_user (statistics cs) \<and>
     costs_order (statistics cs') =
       (\<lambda>k j. if k < n \<and> j < n_cells cs \<and> activities (problem cs) j \<noteq> 0
               then sorted_cell_order cs k j else costs_order (statistics cs) k j)"
proof (induction n)
  case 0
  then show ?case by simp
next
  case (Suc n)
  let ?c = "foldl (\<lambda>c m. fill_cells_order m c) cs [0..<n]"
  from Suc have IH: "n_cells ?c = n_cells cs" "n_time_steps ?c = n_time_steps cs"
    "n_cust_types ?c = n_cust_types cs" "problem ?c = problem cs"
    "act_per_user_sorted (statistics ?c) = act_per_user_sorted (statistics cs)"
    "max_act_per_user (statistics ?c) = max_act_per_user (statistics cs)"
    "costs_order (statistics ?c) =
       (\<lambda>k j. if k < n \<and> j < n_cells cs \<and> activities (problem cs) j \<noteq> 0
               then sorted_cell_order cs k j else costs_order (statistics cs) k j)"
    by (simp_all add: Let_def)
  have so: "\<And>k j. sorted_cell_order ?c k j = sorted_cell_order cs k j"
    by (rule sorted_cell_order_cong) (simp_all add: IH)
  have "costs_order (statistics (fill_cells_order n ?c)) =
       (\<lambda>k j. if k < Suc n \<and> j < n_cells cs \<and> activities (problem cs) j \<noteq> 0
               then sorted_cell_order cs k j else costs_order (statistics cs) k j)"
    by (intro ext) (auto simp: fill_cells_order_simps IH so less_Suc_eq)
  then show ?case by (simp add: Let_def fill_cells_order_simps IH)
qed

lemma initialization_phase_simps:
  "n_cells (initialization_phase cs) = n_cells cs"
  "n_time_steps (initialization_phase cs) = n_time_steps cs"
  "n_cust_types (initialization_phase cs) = n_cust_types cs"
  "problem (initialization_phase cs) = problem cs"
  "act_per_user_sorted (statistics (initialization_phase cs)) =
     sort_by (\<lambda>a b. a > b) (map (act_per_user (problem cs)) [0..<n_cust_types cs])"
  "max_act_per_user (statistics (initialization_phase cs)) =
     sort_by (\<lambda>a b. a > b) (map (act_per_user (problem cs)) [0..<n_cust_types cs]) ! 0"
  "max_activities (statistics (initialization_phase cs)) =
     foldl (\<lambda>a j. max a (activities (problem cs) j)) 0 [0..<n_cells cs]"
proof -
  let ?sorted = "sort_by (\<lambda>a b. a > b) (map (act_per_user (problem cs)) [0..<n_cust_types cs])"
  let ?cs1 = "cs\<lparr> statistics := (statistics cs)\<lparr> act_per_user_sorted := ?sorted,
                                                     max_act_per_user := ?sorted ! 0 \<rparr> \<rparr>"
  note F = fill_all_orders[of ?cs1 "n_cust_types cs", unfolded Let_def]
  show "n_cells (initialization_phase cs) = n_cells cs"
    "n_time_steps (initialization_phase cs) = n_time_steps cs"
    "n_cust_types (initialization_phase cs) = n_cust_types cs"
    "problem (initialization_phase cs) = problem cs"
    "act_per_user_sorted (statistics (initialization_phase cs)) = ?sorted"
    "max_act_per_user (statistics (initialization_phase cs)) = ?sorted ! 0"
    "max_activities (statistics (initialization_phase cs)) =
       foldl (\<lambda>a j. max a (activities (problem cs) j)) 0 [0..<n_cells cs]"
    using F by (simp_all add: initialization_phase_def Let_def)
qed

lemma initialization_phase_costs_order:
  assumes "k < n_cust_types cs" "j < n_cells cs" "activities (problem cs) j \<noteq> 0"
  shows "costs_order (statistics (initialization_phase cs)) k j =
     sort_key (reduced_cost (problem cs) (act_per_user_sorted (statistics (initialization_phase cs)) ! k))
        (collect_indexes cs j)"
proof -
  let ?sorted = "sort_by (\<lambda>a b. a > b) (map (act_per_user (problem cs)) [0..<n_cust_types cs])"
  let ?cs1 = "cs\<lparr> statistics := (statistics cs)\<lparr> act_per_user_sorted := ?sorted,
                                                     max_act_per_user := ?sorted ! 0 \<rparr> \<rparr>"
  note F = fill_all_orders[of ?cs1 "n_cust_types cs", unfolded Let_def]
  have "costs_order (statistics (initialization_phase cs)) k j = sorted_cell_order ?cs1 k j"
    using F assms by (simp add: initialization_phase_def Let_def)
  also have "\<dots> = sort_key (reduced_cost (problem cs) (?sorted ! k)) (collect_indexes cs j)"
    by (simp add: sorted_cell_order_def sort_by_asc collect_indexes_def cong: if_cong)
  finally show ?thesis by (simp add: initialization_phase_simps)
qed

lemma initialization_phase_costs_order_other:
  assumes "\<not> (k < n_cust_types cs \<and> j < n_cells cs \<and> activities (problem cs) j \<noteq> 0)"
  shows "costs_order (statistics (initialization_phase cs)) k j = costs_order (statistics cs) k j"
proof -
  let ?sorted = "sort_by (\<lambda>a b. a > b) (map (act_per_user (problem cs)) [0..<n_cust_types cs])"
  let ?cs1 = "cs\<lparr> statistics := (statistics cs)\<lparr> act_per_user_sorted := ?sorted,
                                                     max_act_per_user := ?sorted ! 0 \<rparr> \<rparr>"
  note F = fill_all_orders[of ?cs1 "n_cust_types cs", unfolded Let_def]
  show ?thesis using F assms by (auto simp add: initialization_phase_def Let_def)
qed

text \<open>Scenario S3 of the specification: two cells, one time period, two user types.\<close>

definition s3_problem :: input_problem where
  "s3_problem =
     \<lparr> costs = (\<lambda>idx. if idx = (0, 1, 0, 0) then 10 else if idx = (0, 1, 1, 0) then 15 else 0),
       users_available = (\<lambda>b. if b = (0, 0, 0) \<or> b = (0, 1, 0) then 1 else 0),
       activities = (\<lambda>j. if j = 1 then 3 else 0),
       act_per_user = (\<lambda>m. if m = 0 then 1 else 3) \<rparr>"

definition s3_solver :: coiote_solver where
  "s3_solver = initialization_phase (new_coiote_solver 2 1 2 s3_problem)"

lemma s3_costs_order: "costs_order (statistics s3_solver) 0 1 = [(0, 1, 1, 0), (0, 1, 0, 0)]"
  by code_simp

text \<open>
  Claim C7: for every limiting-type index \<open>k\<close> in \<open>[0, M)\<close> and every destination
  \<open>j\<close> with \<open>activities[j] > 0\<close>, the list \<open>costs_order[k][j]\<close> built by
  \<^verbatim>\<open>fill_cells_order\<close> contains exactly the tuples \<open>(i, j, m, t)\<close> with \<open>i \<noteq> j\<close> and
  \<open>users_available[i, m, t] > 0\<close> (each once), in non-decreasing order of the reduced
  cost \<open>costs[i, j, m, t] / min(act_per_user[m], act_per_user_sorted[k])\<close>. The
  activities-per-user values are positive, as the data model requires, so that the
  quotients of the model are the quotients the code computes.
\<close>

theorem C7_candidate_lists:
  assumes "\<forall>m<n_cust_types cs. 0 < act_per_user (problem cs) m"
    and "k < n_cust_types cs" "j < n_cells cs" "activities (problem cs) j > 0"
  shows "let st = statistics (initialization_phase cs); order = costs_order st k j in
     set order = {(i, j', m, t). j' = j \<and> i < n_cells cs \<and> i \<noteq> j \<and> m < n_cust_types cs
                    \<and> t < n_time_steps cs \<and> users_available (problem cs) (i, m, t) > 0} \<and>
     distinct order \<and>
     sorted (map (reduced_cost (problem cs) (act_per_user_sorted st ! k)) order)"
proof -
  have ne: "activities (problem cs) j \<noteq> 0" using assms(4) by simp
  show ?thesis
    unfolding Let_def initialization_phase_costs_order[OF assms(2,3) ne]
    by (simp add: set_collect_indexes distinct_collect_indexes)
qed

theorem C7_candidate_lists_witness:
  "costs_order (statistics s3_solver) 0 1 = [(0, 1, 1, 0), (0, 1, 0, 0)] \<and>
   distinct (costs_order (statistics s3_solver) 0 1) \<and>
   sorted (map (reduced_cost s3_problem (act_per_user_sorted (statistics s3_solver) ! 0))
             (costs_order (statistics s3_solver) 0 1))"
  using C7_candidate_lists[of "new_coiote_solver 2 1 2 s3_problem" 0 1] s3_costs_order
  by (simp add: s3_solver_def new_coiote_solver_def s3_problem_def Let_def)

subsection \<open>Standard greedy (\<^verbatim>\<open>coiote_solver::greedy\<close>)\<close>

text \<open>
  \<^verbatim>\<open>cells_order::get_least_expensive\<close> (\<^verbatim>\<open>cells_order.h\<close>) advances the iterator
  past the indexes whose group \<open>(i, m, t)\<close> has no user left, that is a supply of
  zero or less. An iterator is modelled by the list of the elements from its
  position on.
\<close>

definition get_least_expensive :: "four_index list \<Rightarrow> (three_index \<Rightarrow> int) \<Rightarrow> four_index list" where
  "get_least_expensive first ua = dropWhile (\<lambda>idx. ua (three_of idx) \<le> 0) first"

text \<open>
  The usage tracker \<^verbatim>\<open>cells_usage\<close>. Its table holds values of type \<^verbatim>\<open>double\<close>,
  here rationals. An operation on doubles returns the exact result rounded to a
  double; \<open>to_double\<close> is that rounding, carried by the tracker, and nothing is
  assumed about it. \<^verbatim>\<open>add\<close> divides the number of users by the supply of the
  problem and adds the quotient to the entry; \<^verbatim>\<open>should_replace\<close> compares two
  entries.
\<close>

record cells_usage =
  usage_table :: "three_index \<Rightarrow> rat"
  to_double :: "rat \<Rightarrow> rat"

definition usage_add :: "input_problem \<Rightarrow> three_index \<Rightarrow> int \<Rightarrow> cells_usage \<Rightarrow> cells_usage" where
  "usage_add p idx nusers u =
     u\<lparr> usage_table := (usage_table u)
          (idx := to_double u (usage_table u idx
                    + to_double u (of_int nusers / of_int (users_available p idx)))) \<rparr>"

definition should_replace :: "cells_usage \<Rightarrow> three_index \<Rightarrow> three_index \<Rightarrow> bool" where
  "should_replace u new_idx old_idx = (usage_table u new_idx < usage_table u old_idx)"

text \<open>
  The local variables \<^verbatim>\<open>min_cost, min_i, min_m, min_t\<close> of one selection step;
  \<open>None\<close> is the initial value \<^verbatim>\<open>infinity\<close> of \<^verbatim>\<open>min_cost\<close>. \<open>above\<close> and
  \<open>below\<close> are the comparisons \<^verbatim>\<open>cost > min_cost\<close> and \<^verbatim>\<open>cost < min_cost\<close>.
\<close>

record greedy_best =
  min_cost :: "rat option"
  min_i :: nat
  min_m :: nat
  min_t :: nat

definition no_best :: greedy_best where
  "no_best = \<lparr> min_cost = None, min_i = 0, min_m = 0, min_t = 0 \<rparr>"

fun above :: "rat \<Rightarrow> rat option \<Rightarrow> bool" where
  "above c None = False"
| "above c (Some b) = (c > b)"

fun below :: "rat \<Rightarrow> rat option \<Rightarrow> bool" where
  "below c None = True"
| "below c (Some b) = (c < b)"

text \<open>
  The variables the greedy works on: the solution under construction, the residual
  supply, the usage tracker, the objective value, and the demand and insert log of
  the destination cell being served.
\<close>

record greedy_state =
  g_solution :: "four_index \<Rightarrow> int"
  g_users_available :: "three_index \<Rightarrow> int"
  g_usage :: cells_usage
  g_obj_function :: int
  g_demand :: int
  g_inserted_indexes :: "four_index list"

definition effective_cost :: "input_problem \<Rightarrow> int \<Rightarrow> four_index \<Rightarrow> rat" where
  "effective_cost p demand idx = of_int (costs p idx) / of_int (min demand (act_per_user p (idx_m idx)))"

lemma get_least_expensive_length:
  "get_least_expensive first ua = idx # rest \<Longrightarrow> length rest < length first"
proof -
  assume a: "get_least_expensive first ua = idx # rest"
  have "length (get_least_expensive first ua) \<le> length first"
    unfolding get_least_expensive_def by (rule length_dropWhile_le)
  then show ?thesis using a by simp
qed

text \<open>
  The candidate scan: the inner \<^verbatim>\<open>while\<close> loop of one selection step, from the
  iterator position \<open>co_it\<close>.
\<close>

function greedy_scan :: "coiote_solver \<Rightarrow> greedy_state \<Rightarrow> four_index list \<Rightarrow> greedy_best \<Rightarrow> greedy_best" where
  "greedy_scan cs gs co_it best =
     (case get_least_expensive co_it (g_users_available gs) of
        [] \<Rightarrow> best
      | idx # rest \<Rightarrow>
          (let i = idx_i idx; m = idx_m idx; t = idx_t idx;
               cost = effective_cost (problem cs) (g_demand gs) idx
           in if above cost (min_cost best) then best
              else greedy_scan cs gs rest
                     (if below cost (min_cost best)
                         \<or> should_replace (g_usage gs) (i, m, t) (min_i best, min_m best, min_t best)
                      then \<lparr> min_cost = Some cost, min_i = i, min_m = m, min_t = t \<rparr>
                      else best)))"
  by pat_completeness auto
termination
  by (relation "measure (\<lambda>(cs, gs, co_it, best). length co_it)")
     (simp_all add: get_least_expensive_length)

declare greedy_scan.simps [simp del]

definition greedy_select :: "coiote_solver \<Rightarrow> nat \<Rightarrow> greedy_state \<Rightarrow> greedy_best" where
  "greedy_select cs j gs =
     greedy_scan cs gs (costs_order (statistics cs) (get_costs_idx cs (g_demand gs)) j) no_best"

text \<open>
  Integer division of C++ truncates towards zero. \<open>greedy_nusers\<close> is the number of
  users to assign; \<open>greedy_commit\<close> is the update of the solution, the objective,
  the demand, the supply, the insert log and the usage.
\<close>

definition c_div :: "int \<Rightarrow> int \<Rightarrow> int" where
  "c_div a b = sgn a * sgn b * (\<bar>a\<bar> div \<bar>b\<bar>)"

definition greedy_nusers :: "coiote_solver \<Rightarrow> greedy_best \<Rightarrow> greedy_state \<Rightarrow> int" where
  "greedy_nusers cs best gs =
     (let n0 = min (c_div (g_demand gs) (act_per_user (problem cs) (min_m best)))
                   (g_users_available gs (min_i best, min_m best, min_t best))
      in if n0 = 0 then 1 else n0)"

definition greedy_commit :: "coiote_solver \<Rightarrow> nat \<Rightarrow> greedy_best \<Rightarrow> greedy_state \<Rightarrow> greedy_state" where
  "greedy_commit cs j best gs =
     (let bucket = (min_i best, min_m best, min_t best);
          nusers = greedy_nusers cs best gs;
          idx = (min_i best, j, min_m best, min_t best)
      in gs\<lparr> g_solution := (g_solution gs)(idx := g_solution gs idx + nusers),
              g_obj_function := g_obj_function gs + costs (problem cs) idx * nusers,
              g_demand := g_demand gs - act_per_user (problem cs) (min_m best) * nusers,
              g_users_available := (g_users_available gs)(bucket := g_users_available gs bucket - nusers),
              g_inserted_indexes := g_inserted_indexes gs @ [idx],
              g_usage := usage_add (problem cs) bucket nusers (g_usage gs) \<rparr>)"

text \<open>
  The loop \<^verbatim>\<open>while(demand > 0)\<close> terminates because each step lowers the demand,
  which needs positive activities-per-user values; the model bounds the number of
  iterations by \<open>fuel\<close> and returns \<open>None\<close> when the bound is reached.
  \<open>No_users\<close> is the early return of \<^verbatim>\<open>infinity\<close>.
\<close>

datatype fill_result = No_users greedy_state | Filled greedy_state

fun greedy_fill :: "nat \<Rightarrow> coiote_solver \<Rightarrow> nat \<Rightarrow> greedy_state \<Rightarrow> fill_result option" where
  "greedy_fill 0 cs j gs = None"
| "greedy_fill (Suc fuel) cs j gs =
     (if g_demand gs > 0 then
        (let best = greedy_select cs j gs
         in if min_cost best = None then Some (No_users gs)
            else greedy_fill fuel cs j (greedy_commit cs j best gs))
      else Some (Filled gs))"

text \<open>
  The rebalance after an overshoot: \<open>remove_one\<close> is the removal of one user of
  the log entry \<open>idx\<close>; \<open>greedy_rebalance\<close> is the loop over the sorted log, with
  \<open>g_demand\<close> holding the excess of activities (the negated demand).
\<close>

definition remove_one :: "coiote_solver \<Rightarrow> four_index \<Rightarrow> greedy_state \<Rightarrow> greedy_state" where
  "remove_one cs idx gs =
     gs\<lparr> g_solution := (g_solution gs)(idx := g_solution gs idx - 1),
         g_obj_function := g_obj_function gs - costs (problem cs) idx,
         g_demand := g_demand gs - act_per_user (problem cs) (idx_m idx),
         g_users_available := (g_users_available gs)
            (three_of idx := g_users_available gs (three_of idx) + 1) \<rparr>"

fun greedy_rebalance :: "nat \<Rightarrow> coiote_solver \<Rightarrow> four_index list \<Rightarrow> greedy_state \<Rightarrow> greedy_state option" where
  "greedy_rebalance 0 cs ins_idx_iter gs = None"
| "greedy_rebalance (Suc fuel) cs ins_idx_iter gs =
     (if g_demand gs > 0 then
        (case ins_idx_iter of
           [] \<Rightarrow> Some gs
         | idx # rest \<Rightarrow>
             if act_per_user (problem cs) (idx_m idx) \<le> g_demand gs then
               (let s = g_solution gs idx - 1
                in greedy_rebalance fuel cs (if s = 0 then rest else ins_idx_iter)
                     (remove_one cs idx gs))
             else greedy_rebalance fuel cs rest gs)
      else Some gs)"

definition cell_start :: "coiote_solver \<Rightarrow> nat \<Rightarrow> greedy_state \<Rightarrow> greedy_state" where
  "cell_start cs j gs = gs\<lparr> g_demand := activities (problem cs) j, g_inserted_indexes := [] \<rparr>"

definition rebalance_start :: "coiote_solver \<Rightarrow> greedy_state \<Rightarrow> greedy_state" where
  "rebalance_start cs gs =
     gs\<lparr> g_demand := - g_demand gs,
         g_inserted_indexes := sort_by (cmp_costs_desc (problem cs)) (g_inserted_indexes gs) \<rparr>"

definition greedy_cell :: "nat \<Rightarrow> coiote_solver \<Rightarrow> nat \<Rightarrow> greedy_state \<Rightarrow> fill_result option" where
  "greedy_cell fuel cs j gs =
     (case greedy_fill fuel cs j (cell_start cs j gs) of
        None \<Rightarrow> None
      | Some (No_users gs1) \<Rightarrow> Some (No_users gs1)
      | Some (Filled gs1) \<Rightarrow>
          if g_demand gs1 < 0 then
            (case greedy_rebalance fuel cs (g_inserted_indexes (rebalance_start cs gs1))
                    (rebalance_start cs gs1) of
               None \<Rightarrow> None
             | Some gs2 \<Rightarrow> Some (Filled gs2))
          else Some (Filled gs1))"

datatype objective = Infinity | Objective int

fun greedy_cells :: "nat \<Rightarrow> coiote_solver \<Rightarrow> nat list \<Rightarrow> greedy_state \<Rightarrow> (objective \<times> greedy_state) option" where
  "greedy_cells fuel cs [] gs = Some (Objective (g_obj_function gs), gs)"
| "greedy_cells fuel cs (j # order) gs =
     (case greedy_cell fuel cs j gs of
        None \<Rightarrow> None
      | Some (No_users gs1) \<Rightarrow> Some (Infinity, gs1)
      | Some (Filled gs1) \<Rightarrow> greedy_cells fuel cs order gs1)"

definition greedy_start :: "coiote_solver \<Rightarrow> cells_usage \<Rightarrow> greedy_state" where
  "greedy_start cs usage =
     \<lparr> g_solution = (\<lambda>idx. 0), g_users_available = users_available (problem cs),
       g_usage = usage, g_obj_function = 0, g_demand = 0, g_inserted_indexes = [] \<rparr>"

definition greedy :: "nat \<Rightarrow> coiote_solver \<Rightarrow> nat list \<Rightarrow> cells_usage \<Rightarrow> (objective \<times> greedy_state) option" where
  "greedy fuel cs order usage = greedy_cells fuel cs order (greedy_start cs usage)"

text \<open>
  A fresh tracker (\<^verbatim>\<open>usage.reset()\<close>) with exact arithmetic; on the instances below
  every value written to the table is an integer, which no rounding changes.
\<close>

definition no_usage :: cells_usage where
  "no_usage = \<lparr> usage_table = (\<lambda>idx. 0), to_double = (\<lambda>x. x) \<rparr>"


text \<open>
  An instance with three cells, one time period and the user types of scenario S3;
  cell \<open>1\<close> demands two activities.
\<close>

definition c4_problem :: input_problem where
  "c4_problem =
     \<lparr> costs = (\<lambda>idx. if idx = (0, 1, 0, 0) then 10 else if idx = (2, 1, 0, 0) then 12
                       else if idx = (0, 1, 1, 0) then 15 else 0),
       users_available = (\<lambda>b. if b = (0, 0, 0) \<or> b = (0, 1, 0) \<or> b = (2, 0, 0) then 1 else 0),
       activities = (\<lambda>j. if j = 1 then 2 else 0),
       act_per_user = (\<lambda>m. if m = 0 then 1 else 3) \<rparr>"

definition c4_solver :: coiote_solver where
  "c4_solver = initialization_phase (new_coiote_solver 3 1 2 c4_problem)"

definition c4_state :: greedy_state where
  "c4_state = cell_start c4_solver 1 (greedy_start c4_solver no_usage)"

text \<open>
  Claim C4 (early-stop soundness of the candidate scan): when the scan stops because a
  candidate's effective cost exceeds the incumbent best, no later tuple of the list
  with available supply has a strictly smaller effective cost. The scan does not
  have this property. With a demand of \<open>2\<close> and capacities \<open>3\<close> and \<open>1\<close>,
  \<open>get_costs_idx\<close> selects the list sorted under the cap \<open>1\<close>, that is by raw cost:
  \<open>(0,1,0,0)\<close> of cost \<open>10\<close>, \<open>(2,1,0,0)\<close> of cost \<open>12\<close>, \<open>(0,1,1,0)\<close> of cost
  \<open>15\<close>. The scan adopts the first (effective cost \<open>10\<close>) and stops at the second
  (\<open>12 > 10\<close>); the third, a user of the type that performs three activities, is
  available and has effective cost \<open>15 / min(2, 3) = 15/2\<close>.
\<close>

theorem C4_early_stop_misses_cheaper:
  "g_demand c4_state = 2 \<and>
   get_costs_idx c4_solver (g_demand c4_state) = 1 \<and>
   costs_order (statistics c4_solver) 1 1 = [(0, 1, 0, 0), (2, 1, 0, 0), (0, 1, 1, 0)] \<and>
   min_cost (greedy_select c4_solver 1 c4_state) = Some 10 \<and>
   g_users_available c4_state (three_of (0, 1, 1, 0)) = 1 \<and>
   effective_cost (problem c4_solver) (g_demand c4_state) (0, 1, 1, 0) = 15 / 2"
  by code_simp

subsection \<open>Well-formed problems and invariants of the greedy\<close>

text \<open>
  \<open>well_formed\<close> is the data model of the problem: at least one user type, positive
  activities per user, non-negative supply and demand. \<open>candidates_ok\<close> states that
  the candidate lists hold indexes inside the arrays, for the right destination and
  never from the destination itself.
\<close>

definition valid3 :: "coiote_solver \<Rightarrow> three_index \<Rightarrow> bool" where
  "valid3 cs b = (case b of (i, m, t) \<Rightarrow> i < n_cells cs \<and> m < n_cust_types cs \<and> t < n_time_steps cs)"

definition valid4 :: "coiote_solver \<Rightarrow> four_index \<Rightarrow> bool" where
  "valid4 cs idx = (case idx of (i, j, m, t) \<Rightarrow>
      i < n_cells cs \<and> j < n_cells cs \<and> m < n_cust_types cs \<and> t < n_time_steps cs)"

definition well_formed :: "coiote_solver \<Rightarrow> bool" where
  "well_formed cs =
     (0 < n_cust_types cs \<and>
      (\<forall>m<n_cust_types cs. 0 < act_per_user (problem cs) m) \<and>
      (\<forall>b. valid3 cs b \<longrightarrow> 0 \<le> users_available (problem cs) b) \<and>
      (\<forall>j<n_cells cs. 0 \<le> activities (problem cs) j))"

definition candidates_ok :: "coiote_solver \<Rightarrow> bool" where
  "candidates_ok cs =
     (\<forall>k j. \<forall>idx \<in> set (costs_order (statistics cs) k j).
         valid4 cs idx \<and> idx_j idx = j \<and> idx_i idx \<noteq> j)"

lemma candidates_ok_initialization:
  "candidates_ok (initialization_phase (new_coiote_solver c t m p))"
proof -
  let ?cs = "new_coiote_solver c t m p"
  have "valid4 (initialization_phase ?cs) idx \<and> idx_j idx = j \<and> idx_i idx \<noteq> j"
    if "idx \<in> set (costs_order (statistics (initialization_phase ?cs)) k j)" for k j idx
  proof (cases "k < n_cust_types ?cs \<and> j < n_cells ?cs \<and> activities (problem ?cs) j \<noteq> 0")
    case True
    then have "idx \<in> set (collect_indexes ?cs j)"
      using that by (simp add: initialization_phase_costs_order)
    then show ?thesis using True
      by (auto simp: set_collect_indexes valid4_def idx_j_def idx_i_def initialization_phase_simps)
  next
    case False
    then have "costs_order (statistics (initialization_phase ?cs)) k j = []"
      by (simp add: initialization_phase_costs_order_other new_coiote_solver_def)
    then show ?thesis using that by simp
  qed
  then show ?thesis unfolding candidates_ok_def by blast
qed

lemma get_least_expensive_Cons:
  assumes "get_least_expensive co_it ua = idx # rest"
  shows "idx \<in> set co_it" "set rest \<subseteq> set co_it" "ua (three_of idx) \<noteq> 0" "0 < ua (three_of idx)"
proof -
  have s: "set (idx # rest) \<subseteq> set co_it"
    using assms set_dropWhileD unfolding get_least_expensive_def by (metis subsetI)
  show "idx \<in> set co_it" "set rest \<subseteq> set co_it" using s by auto
  have "\<not> (\<lambda>idx. ua (three_of idx) \<le> 0) (hd (dropWhile (\<lambda>idx. ua (three_of idx) \<le> 0) co_it))"
    using assms unfolding get_least_expensive_def by (intro hd_dropWhile) auto
  then show p: "0 < ua (three_of idx)" using assms unfolding get_least_expensive_def by simp
  then show "ua (three_of idx) \<noteq> 0" by simp
qed

definition picked_from :: "greedy_state \<Rightarrow> four_index set \<Rightarrow> greedy_best \<Rightarrow> bool" where
  "picked_from gs S best =
     (min_cost best \<noteq> None \<longrightarrow>
        (\<exists>idx\<in>S. idx_i idx = min_i best \<and> idx_m idx = min_m best \<and> idx_t idx = min_t best
                  \<and> g_users_available gs (three_of idx) \<noteq> 0))"

lemma greedy_scan_picked:
  "picked_from gs S best \<Longrightarrow> set co_it \<subseteq> S \<Longrightarrow> picked_from gs S (greedy_scan cs gs co_it best)"
proof (induction cs gs co_it best rule: greedy_scan.induct)
  case (1 cs gs co_it best)
  show ?case
  proof (cases "get_least_expensive co_it (g_users_available gs)")
    case Nil
    then show ?thesis using "1.prems" by (subst greedy_scan.simps) simp
  next
    case (Cons idx rest)
    note C = get_least_expensive_Cons[OF Cons]
    let ?cost = "effective_cost (problem cs) (g_demand gs) idx"
    let ?new = "(if below ?cost (min_cost best)
                         \<or> should_replace (g_usage gs) (idx_i idx, idx_m idx, idx_t idx) (min_i best, min_m best, min_t best)
                      then \<lparr> min_cost = Some ?cost, min_i = idx_i idx, min_m = idx_m idx, min_t = idx_t idx \<rparr>
                      else best)"
    show ?thesis
    proof (cases "above ?cost (min_cost best)")
      case True
      then show ?thesis using "1.prems" Cons by (subst greedy_scan.simps) simp
    next
      case False
      have pn: "picked_from gs S ?new"
        using "1.prems" C unfolding picked_from_def by auto
      have "picked_from gs S (greedy_scan cs gs rest ?new)"
        using "1.IH"[OF Cons refl refl refl refl False pn] C(2) "1.prems"(2) by blast
      then show ?thesis using False Cons by (subst greedy_scan.simps) (simp add: Let_def)
    qed
  qed
qed

lemma greedy_select_picked:
  assumes ok: "candidates_ok cs" and sel: "min_cost (greedy_select cs j gs) \<noteq> None"
  shows "valid4 cs (min_i (greedy_select cs j gs), j, min_m (greedy_select cs j gs), min_t (greedy_select cs j gs))"
    and "min_i (greedy_select cs j gs) \<noteq> j"
    and "g_users_available gs (min_i (greedy_select cs j gs), min_m (greedy_select cs j gs), min_t (greedy_select cs j gs)) \<noteq> 0"
proof -
  let ?xs = "costs_order (statistics cs) (get_costs_idx cs (g_demand gs)) j"
  let ?b = "greedy_select cs j gs"
  have "picked_from gs (set ?xs) ?b"
    unfolding greedy_select_def by (rule greedy_scan_picked) (simp_all add: picked_from_def no_best_def)
  then obtain idx where idx: "idx \<in> set ?xs" "idx_i idx = min_i ?b" "idx_m idx = min_m ?b"
      "idx_t idx = min_t ?b" "g_users_available gs (three_of idx) \<noteq> 0"
    using sel unfolding picked_from_def by blast
  have v: "valid4 cs idx" "idx_j idx = j" "idx_i idx \<noteq> j"
    using ok idx(1) unfolding candidates_ok_def by blast+
  obtain i j' m t where e: "idx = (i, j', m, t)" by (cases idx) auto
  have eq: "idx = (min_i ?b, j, min_m ?b, min_t ?b)"
    using idx(2-4) v(2) e by (simp add: idx_i_def idx_j_def idx_m_def idx_t_def)
  show "valid4 cs (min_i ?b, j, min_m ?b, min_t ?b)" using v(1) eq by simp
  show "min_i ?b \<noteq> j" using v(3) idx(2) by simp
  show "g_users_available gs (min_i ?b, min_m ?b, min_t ?b) \<noteq> 0"
    using idx(5) eq by (simp add: three_of_def)
qed


text \<open>
  The invariant of the fill loop of one destination cell: supply and solution are
  non-negative, every logged index has at least one user in the solution; while
  demand remains, the log has no duplicates and every logged group of users is
  exhausted or can do more activities than remain; after an overshoot an index
  logged twice can do more activities than the excess.
\<close>

definition fill_inv :: "coiote_solver \<Rightarrow> greedy_state \<Rightarrow> bool" where
  "fill_inv cs gs =
     ((\<forall>b. valid3 cs b \<longrightarrow> 0 \<le> g_users_available gs b) \<and>
      (\<forall>idx. 0 \<le> g_solution gs idx) \<and>
      (\<forall>idx\<in>set (g_inserted_indexes gs). 1 \<le> g_solution gs idx \<and> valid4 cs idx) \<and>
      (0 < g_demand gs \<longrightarrow> distinct (g_inserted_indexes gs) \<and>
         (\<forall>idx\<in>set (g_inserted_indexes gs).
             g_users_available gs (three_of idx) = 0
             \<or> g_demand gs < act_per_user (problem cs) (idx_m idx))) \<and>
      (g_demand gs \<le> 0 \<longrightarrow>
         (\<forall>idx. 2 \<le> count (mset (g_inserted_indexes gs)) idx
               \<longrightarrow> - g_demand gs < act_per_user (problem cs) (idx_m idx))))"

lemma c_div_pos: "0 < a \<Longrightarrow> 0 < b \<Longrightarrow> c_div a b = a div b"
  by (simp add: c_div_def)

lemma valid4_three: "valid4 cs (i, j, m, t) \<Longrightarrow> valid3 cs (i, m, t)"
  by (simp add: valid4_def valid3_def)

lemma greedy_nusers_bounds:
  assumes a: "0 < act_per_user (problem cs) (min_m best)" and d: "0 < g_demand gs"
    and u: "0 < g_users_available gs (min_i best, min_m best, min_t best)"
  shows "1 \<le> greedy_nusers cs best gs"
    and "greedy_nusers cs best gs \<le> g_users_available gs (min_i best, min_m best, min_t best)"
    and "g_demand gs < act_per_user (problem cs) (min_m best) \<Longrightarrow> greedy_nusers cs best gs = 1"
    and "act_per_user (problem cs) (min_m best) \<le> g_demand gs \<Longrightarrow>
           act_per_user (problem cs) (min_m best) * greedy_nusers cs best gs \<le> g_demand gs"
    and "act_per_user (problem cs) (min_m best) \<le> g_demand gs \<Longrightarrow>
           greedy_nusers cs best gs < g_users_available gs (min_i best, min_m best, min_t best) \<Longrightarrow>
           g_demand gs - act_per_user (problem cs) (min_m best) * greedy_nusers cs best gs
             < act_per_user (problem cs) (min_m best)"
proof -
  let ?a = "act_per_user (problem cs) (min_m best)"
  let ?d = "g_demand gs"
  let ?u = "g_users_available gs (min_i best, min_m best, min_t best)"
  let ?n = "greedy_nusers cs best gs"
  have n: "?n = (if min (?d div ?a) ?u = 0 then 1 else min (?d div ?a) ?u)"
    using a d by (simp add: greedy_nusers_def Let_def c_div_pos)
  have q0: "0 \<le> ?d div ?a" using a d by (simp add: pos_imp_zdiv_nonneg_iff)
  show "1 \<le> ?n" using n q0 u by (auto simp: min_def)
  show "?n \<le> ?u" using n u by (auto simp: min_def)
  show "?n = 1" if "?d < ?a"
  proof -
    have "?d div ?a = 0" using that d by (simp add: div_pos_pos_trivial)
    then show ?thesis using n u by (simp add: min_def)
  qed
  have q1: "1 \<le> ?d div ?a" if "?a \<le> ?d"
    using that a by (simp add: pos_imp_zdiv_pos_iff int_one_le_iff_zero_less)
  have le: "?a * (?d div ?a) \<le> ?d" using a d
    by (metis mult.commute div_mult_mod_eq add_increasing2 pos_mod_sign order_refl)
  show "?a * ?n \<le> ?d" if h: "?a \<le> ?d"
  proof -
    have "?n \<le> ?d div ?a" using n q1[OF h] u by (auto simp: min_def)
    then have "?a * ?n \<le> ?a * (?d div ?a)" using a by (simp add: mult_left_mono)
    then show ?thesis using le by linarith
  qed
  show "?d - ?a * ?n < ?a" if h: "?a \<le> ?d" and lt: "?n < ?u"
  proof -
    have "?n = ?d div ?a" using n q1[OF h] u lt by (auto simp: min_def split: if_splits)
    then have "?d - ?a * ?n = ?d mod ?a" by (simp add: minus_mult_div_eq_mod)
    then show ?thesis using a by simp
  qed
qed

lemma greedy_commit_fields:
  "g_solution (greedy_commit cs j best gs) =
     (g_solution gs)((min_i best, j, min_m best, min_t best) :=
        g_solution gs (min_i best, j, min_m best, min_t best) + greedy_nusers cs best gs)"
  "g_users_available (greedy_commit cs j best gs) =
     (g_users_available gs)((min_i best, min_m best, min_t best) :=
        g_users_available gs (min_i best, min_m best, min_t best) - greedy_nusers cs best gs)"
  "g_demand (greedy_commit cs j best gs) =
     g_demand gs - act_per_user (problem cs) (min_m best) * greedy_nusers cs best gs"
  "g_inserted_indexes (greedy_commit cs j best gs) =
     g_inserted_indexes gs @ [(min_i best, j, min_m best, min_t best)]"
  "g_obj_function (greedy_commit cs j best gs) =
     g_obj_function gs + costs (problem cs) (min_i best, j, min_m best, min_t best) * greedy_nusers cs best gs"
  by (simp_all add: greedy_commit_def Let_def)


lemma fill_invI:
  assumes "\<forall>b. valid3 cs b \<longrightarrow> 0 \<le> g_users_available gs b"
    and "\<forall>idx. 0 \<le> g_solution gs idx"
    and "\<forall>idx\<in>set (g_inserted_indexes gs). 1 \<le> g_solution gs idx \<and> valid4 cs idx"
    and "0 < g_demand gs \<Longrightarrow> distinct (g_inserted_indexes gs)"
    and "0 < g_demand gs \<Longrightarrow> \<forall>idx\<in>set (g_inserted_indexes gs).
             g_users_available gs (three_of idx) = 0
             \<or> g_demand gs < act_per_user (problem cs) (idx_m idx)"
    and "g_demand gs \<le> 0 \<Longrightarrow> \<forall>idx. 2 \<le> count (mset (g_inserted_indexes gs)) idx
               \<longrightarrow> - g_demand gs < act_per_user (problem cs) (idx_m idx)"
  shows "fill_inv cs gs"
  unfolding fill_inv_def using assms by simp

lemma fill_invD:
  assumes "fill_inv cs gs"
  shows "\<forall>b. valid3 cs b \<longrightarrow> 0 \<le> g_users_available gs b"
    and "\<forall>idx. 0 \<le> g_solution gs idx"
    and "\<forall>idx\<in>set (g_inserted_indexes gs). 1 \<le> g_solution gs idx \<and> valid4 cs idx"
    and "0 < g_demand gs \<Longrightarrow> distinct (g_inserted_indexes gs)"
    and "0 < g_demand gs \<Longrightarrow> \<forall>idx\<in>set (g_inserted_indexes gs).
             g_users_available gs (three_of idx) = 0
             \<or> g_demand gs < act_per_user (problem cs) (idx_m idx)"
    and "g_demand gs \<le> 0 \<Longrightarrow> \<forall>idx. 2 \<le> count (mset (g_inserted_indexes gs)) idx
               \<longrightarrow> - g_demand gs < act_per_user (problem cs) (idx_m idx)"
  using assms unfolding fill_inv_def by simp_all

lemma distinct_count_le_one: "distinct xs \<Longrightarrow> count (mset xs) x \<le> 1"
  by (induction xs) auto

lemma fill_inv_commit:
  assumes wf: "well_formed cs" and inv: "fill_inv cs gs" and d: "0 < g_demand gs"
    and v: "valid4 cs (min_i best, j, min_m best, min_t best)"
    and av: "g_users_available gs (min_i best, min_m best, min_t best) \<noteq> 0"
  shows "fill_inv cs (greedy_commit cs j best gs)"
proof -
  let ?b = "(min_i best, min_m best, min_t best)"
  let ?idx = "(min_i best, j, min_m best, min_t best)"
  let ?a = "act_per_user (problem cs) (min_m best)"
  let ?n = "greedy_nusers cs best gs"
  let ?gs = "greedy_commit cs j best gs"
  let ?log = "g_inserted_indexes gs"
  have vb: "valid3 cs ?b" using v by (rule valid4_three)
  have a: "0 < ?a" using wf v by (simp add: well_formed_def valid4_def)
  have "0 \<le> g_users_available gs ?b" using fill_invD(1)[OF inv] vb by blast
  then have u: "0 < g_users_available gs ?b" using av by simp
  note B = greedy_nusers_bounds[OF a d u]
  have three: "three_of ?idx = ?b" by (simp add: three_of_def)
  have m: "idx_m ?idx = min_m best" by (simp add: idx_m_def)
  have I1: "\<forall>b. valid3 cs b \<longrightarrow> 0 \<le> g_users_available gs b"
    and I2: "\<forall>idx. 0 \<le> g_solution gs idx"
    and I3: "\<forall>idx\<in>set ?log. 1 \<le> g_solution gs idx \<and> valid4 cs idx"
    and I4: "distinct ?log"
    and I5: "\<forall>idx\<in>set ?log. g_users_available gs (three_of idx) = 0
             \<or> g_demand gs < act_per_user (problem cs) (idx_m idx)"
    using fill_invD[OF inv] d by simp_all
  have c1: "\<forall>b. valid3 cs b \<longrightarrow> 0 \<le> g_users_available ?gs b"
    using I1 B(2) by (simp add: greedy_commit_fields)
  have c2: "\<forall>idx. 0 \<le> g_solution ?gs idx"
  proof
    fix idx
    have "0 \<le> g_solution gs idx" "0 \<le> g_solution gs ?idx" using I2 by blast+
    then show "0 \<le> g_solution ?gs idx" using B(1) by (simp add: greedy_commit_fields)
  qed
  have c3: "\<forall>idx\<in>set (g_inserted_indexes ?gs). 1 \<le> g_solution ?gs idx \<and> valid4 cs idx"
  proof
    fix idx assume "idx \<in> set (g_inserted_indexes ?gs)"
    then consider "idx = ?idx" | "idx \<noteq> ?idx" "idx \<in> set ?log"
      by (auto simp: greedy_commit_fields)
    then show "1 \<le> g_solution ?gs idx \<and> valid4 cs idx"
    proof cases
      case 1
      have "0 \<le> g_solution gs ?idx" using I2 by blast
      then show ?thesis using 1 B(1) v by (simp add: greedy_commit_fields)
    next
      case 2
      then show ?thesis using I3 by (simp add: greedy_commit_fields)
    qed
  qed
  show ?thesis
  proof (cases "?a \<le> g_demand gs")
    case True
    have fresh: "?idx \<notin> set ?log"
    proof
      assume "?idx \<in> set ?log"
      then have "g_users_available gs (three_of ?idx) = 0
             \<or> g_demand gs < act_per_user (problem cs) (idx_m ?idx)" using I5 by blast
      then show False using u True by (simp add: three m)
    qed
    have dist: "distinct (g_inserted_indexes ?gs)"
      using I4 fresh by (simp add: greedy_commit_fields)
    have d': "0 \<le> g_demand ?gs" using B(4)[OF True] by (simp add: greedy_commit_fields)
    have dle: "g_demand ?gs \<le> g_demand gs"
      using a B(1) by (simp add: greedy_commit_fields mult_pos_pos order_less_imp_le)
    have c4: "\<forall>idx\<in>set (g_inserted_indexes ?gs).
             g_users_available ?gs (three_of idx) = 0
             \<or> g_demand ?gs < act_per_user (problem cs) (idx_m idx)"
    proof
      fix idx assume "idx \<in> set (g_inserted_indexes ?gs)"
      then consider "idx = ?idx" | "idx \<in> set ?log"
        by (auto simp: greedy_commit_fields)
      then show "g_users_available ?gs (three_of idx) = 0
             \<or> g_demand ?gs < act_per_user (problem cs) (idx_m idx)"
      proof cases
        case 1
        show ?thesis
        proof (cases "?n < g_users_available gs ?b")
          case True
          then show ?thesis using B(5)[OF \<open>?a \<le> g_demand gs\<close> True] 1
            by (simp add: greedy_commit_fields m)
        next
          case False
          then have "?n = g_users_available gs ?b" using B(2) by simp
          then show ?thesis using 1 by (simp add: greedy_commit_fields three)
        qed
      next
        case 2
        from I5 2 have "g_users_available gs (three_of idx) = 0
             \<or> g_demand gs < act_per_user (problem cs) (idx_m idx)" by blast
        then show ?thesis
        proof
          assume z: "g_users_available gs (three_of idx) = 0"
          then have "three_of idx \<noteq> ?b" using u by auto
          then show ?thesis using z by (simp add: greedy_commit_fields)
        next
          assume "g_demand gs < act_per_user (problem cs) (idx_m idx)"
          then show ?thesis using dle by simp
        qed
      qed
    qed
    have c5: "\<forall>idx. 2 \<le> count (mset (g_inserted_indexes ?gs)) idx
               \<longrightarrow> - g_demand ?gs < act_per_user (problem cs) (idx_m idx)"
    proof (intro allI impI)
      fix idx assume c: "2 \<le> count (mset (g_inserted_indexes ?gs)) idx"
      have "count (mset (g_inserted_indexes ?gs)) idx \<le> 1" using dist by (rule distinct_count_le_one)
      then show "- g_demand ?gs < act_per_user (problem cs) (idx_m idx)" using c by linarith
    qed
    show ?thesis by (rule fill_invI) (use c1 c2 c3 c4 c5 dist in simp_all)
  next
    case False
    then have lt: "g_demand gs < ?a" by simp
    have n1: "?n = 1" using B(3)[OF lt] .
    have d': "g_demand ?gs = g_demand gs - ?a" using n1 by (simp add: greedy_commit_fields)
    have neg: "g_demand ?gs < 0" using d' lt by simp
    have c5: "\<forall>idx. 2 \<le> count (mset (g_inserted_indexes ?gs)) idx
               \<longrightarrow> - g_demand ?gs < act_per_user (problem cs) (idx_m idx)"
    proof (intro allI impI)
      fix idx assume c: "2 \<le> count (mset (g_inserted_indexes ?gs)) idx"
      have "count (mset ?log) idx \<le> 1" using I4 by (rule distinct_count_le_one)
      then have "idx = ?idx" using c by (auto simp: greedy_commit_fields split: if_splits)
      then show "- g_demand ?gs < act_per_user (problem cs) (idx_m idx)"
        using d' d by (simp add: m)
    qed
    show ?thesis by (rule fill_invI) (use c1 c2 c3 c5 neg in simp_all)
  qed
qed


text \<open>
  The rebalance with the additional guard \<open>solution[idx] > 0\<close> in front of every
  removal, and the greedy built on it.
\<close>

fun greedy_rebalance_guarded :: "nat \<Rightarrow> coiote_solver \<Rightarrow> four_index list \<Rightarrow> greedy_state \<Rightarrow> greedy_state option" where
  "greedy_rebalance_guarded 0 cs ins_idx_iter gs = None"
| "greedy_rebalance_guarded (Suc fuel) cs ins_idx_iter gs =
     (if g_demand gs > 0 then
        (case ins_idx_iter of
           [] \<Rightarrow> Some gs
         | idx # rest \<Rightarrow>
             if act_per_user (problem cs) (idx_m idx) \<le> g_demand gs \<and> g_solution gs idx > 0 then
               (let s = g_solution gs idx - 1
                in greedy_rebalance_guarded fuel cs (if s = 0 then rest else ins_idx_iter)
                     (remove_one cs idx gs))
             else greedy_rebalance_guarded fuel cs rest gs)
      else Some gs)"

definition greedy_cell_guarded :: "nat \<Rightarrow> coiote_solver \<Rightarrow> nat \<Rightarrow> greedy_state \<Rightarrow> fill_result option" where
  "greedy_cell_guarded fuel cs j gs =
     (case greedy_fill fuel cs j (cell_start cs j gs) of
        None \<Rightarrow> None
      | Some (No_users gs1) \<Rightarrow> Some (No_users gs1)
      | Some (Filled gs1) \<Rightarrow>
          if g_demand gs1 < 0 then
            (case greedy_rebalance_guarded fuel cs (g_inserted_indexes (rebalance_start cs gs1))
                    (rebalance_start cs gs1) of
               None \<Rightarrow> None
             | Some gs2 \<Rightarrow> Some (Filled gs2))
          else Some (Filled gs1))"

fun greedy_cells_guarded :: "nat \<Rightarrow> coiote_solver \<Rightarrow> nat list \<Rightarrow> greedy_state \<Rightarrow> (objective \<times> greedy_state) option" where
  "greedy_cells_guarded fuel cs [] gs = Some (Objective (g_obj_function gs), gs)"
| "greedy_cells_guarded fuel cs (j # order) gs =
     (case greedy_cell_guarded fuel cs j gs of
        None \<Rightarrow> None
      | Some (No_users gs1) \<Rightarrow> Some (Infinity, gs1)
      | Some (Filled gs1) \<Rightarrow> greedy_cells_guarded fuel cs order gs1)"

definition greedy_guarded :: "nat \<Rightarrow> coiote_solver \<Rightarrow> nat list \<Rightarrow> cells_usage \<Rightarrow> (objective \<times> greedy_state) option" where
  "greedy_guarded fuel cs order usage = greedy_cells_guarded fuel cs order (greedy_start cs usage)"

definition cell_inv :: "coiote_solver \<Rightarrow> greedy_state \<Rightarrow> bool" where
  "cell_inv cs gs =
     ((\<forall>b. valid3 cs b \<longrightarrow> 0 \<le> g_users_available gs b) \<and> (\<forall>idx. 0 \<le> g_solution gs idx))"

lemma cell_invD:
  assumes "cell_inv cs gs"
  shows "valid3 cs b \<Longrightarrow> 0 \<le> g_users_available gs b" and "0 \<le> g_solution gs idx"
  using assms unfolding cell_inv_def by blast+

lemma cell_invI:
  assumes "\<And>b. valid3 cs b \<Longrightarrow> 0 \<le> g_users_available gs b" and "\<And>idx. 0 \<le> g_solution gs idx"
  shows "cell_inv cs gs"
  using assms unfolding cell_inv_def by blast

lemma fill_inv_cell_inv: "fill_inv cs gs \<Longrightarrow> cell_inv cs gs"
  unfolding cell_inv_def using fill_invD(1,2) by blast

lemma cell_inv_start: "cell_inv cs gs \<Longrightarrow> fill_inv cs (cell_start cs j gs)"
  by (rule fill_invI) (simp_all add: cell_inv_def cell_start_def)

lemma cell_inv_greedy_start: "well_formed cs \<Longrightarrow> cell_inv cs (greedy_start cs usage)"
  by (simp add: cell_inv_def greedy_start_def well_formed_def)

lemma greedy_fill_inv:
  assumes wf: "well_formed cs" and ok: "candidates_ok cs"
  shows "fill_inv cs gs \<Longrightarrow> greedy_fill fuel cs j gs = Some r \<Longrightarrow>
         (case r of No_users gs' \<Rightarrow> fill_inv cs gs' | Filled gs' \<Rightarrow> fill_inv cs gs' \<and> g_demand gs' \<le> 0)"
proof (induction fuel arbitrary: gs)
  case 0
  then show ?case by simp
next
  case (Suc fuel)
  show ?case
  proof (cases "0 < g_demand gs")
    case False
    then show ?thesis using Suc.prems by auto
  next
    case True
    let ?best = "greedy_select cs j gs"
    show ?thesis
    proof (cases "min_cost ?best = None")
      case True
      then show ?thesis using Suc.prems \<open>0 < g_demand gs\<close> by (auto simp: Let_def)
    next
      case False
      note P = greedy_select_picked[OF ok False]
      have inv': "fill_inv cs (greedy_commit cs j ?best gs)"
        using fill_inv_commit[OF wf Suc.prems(1) True P(1) P(3)] .
      have "greedy_fill fuel cs j (greedy_commit cs j ?best gs) = Some r"
        using Suc.prems(2) True False by (simp add: Let_def)
      then show ?thesis using Suc.IH[OF inv'] by blast
    qed
  qed
qed

definition rebalance_inv :: "coiote_solver \<Rightarrow> four_index list \<Rightarrow> greedy_state \<Rightarrow> bool" where
  "rebalance_inv cs xs gs =
     (cell_inv cs gs \<and> 0 \<le> g_demand gs \<and> (\<forall>x\<in>set xs. valid4 cs x) \<and>
      (\<forall>x\<in>set xs. act_per_user (problem cs) (idx_m x) \<le> g_demand gs
           \<longrightarrow> 1 \<le> g_solution gs x \<and> count (mset xs) x \<le> 1))"

lemma remove_one_fields:
  "g_solution (remove_one cs idx gs) = (g_solution gs)(idx := g_solution gs idx - 1)"
  "g_users_available (remove_one cs idx gs) =
     (g_users_available gs)(three_of idx := g_users_available gs (three_of idx) + 1)"
  "g_demand (remove_one cs idx gs) = g_demand gs - act_per_user (problem cs) (idx_m idx)"
  "g_obj_function (remove_one cs idx gs) = g_obj_function gs - costs (problem cs) idx"
  "g_inserted_indexes (remove_one cs idx gs) = g_inserted_indexes gs"
  "g_usage (remove_one cs idx gs) = g_usage gs"
  by (simp_all add: remove_one_def)

lemma valid4_three_of: "valid4 cs x \<Longrightarrow> valid3 cs (three_of x)"
  by (cases x) (simp add: valid4_def valid3_def three_of_def)

lemma rebalance_inv_skip:
  assumes "rebalance_inv cs (x # rest) gs" "\<not> act_per_user (problem cs) (idx_m x) \<le> g_demand gs"
  shows "rebalance_inv cs rest gs"
proof -
  have a: "cell_inv cs gs \<and> 0 \<le> g_demand gs" "\<forall>y\<in>set (x # rest). valid4 cs y"
    "\<forall>y\<in>set (x # rest). act_per_user (problem cs) (idx_m y) \<le> g_demand gs
           \<longrightarrow> 1 \<le> g_solution gs y \<and> count (mset (x # rest)) y \<le> 1"
    using assms(1) unfolding rebalance_inv_def by simp_all
  have "1 \<le> g_solution gs y \<and> count (mset rest) y \<le> 1"
    if "y \<in> set rest" "act_per_user (problem cs) (idx_m y) \<le> g_demand gs" for y
  proof -
    have "1 \<le> g_solution gs y \<and> count (mset (x # rest)) y \<le> 1" using a(3) that by simp
    moreover have "count (mset rest) y \<le> count (mset (x # rest)) y" by simp
    ultimately show ?thesis by linarith
  qed
  then show ?thesis unfolding rebalance_inv_def using a(1,2) by simp
qed

lemma rebalance_inv_remove:
  assumes wf: "well_formed cs" and inv: "rebalance_inv cs (x # rest) gs"
    and le: "act_per_user (problem cs) (idx_m x) \<le> g_demand gs"
  shows "1 \<le> g_solution gs x"
    and "rebalance_inv cs (if g_solution gs x - 1 = 0 then rest else x # rest) (remove_one cs x gs)"
proof -
  let ?gs = "remove_one cs x gs"
  have a: "cell_inv cs gs \<and> 0 \<le> g_demand gs" "\<forall>y\<in>set (x # rest). valid4 cs y"
    "\<forall>y\<in>set (x # rest). act_per_user (problem cs) (idx_m y) \<le> g_demand gs
           \<longrightarrow> 1 \<le> g_solution gs y \<and> count (mset (x # rest)) y \<le> 1"
    using inv unfolding rebalance_inv_def by simp_all
  have x1: "1 \<le> g_solution gs x" and cx: "count (mset (x # rest)) x \<le> 1" using a(3) le by simp_all
  show "1 \<le> g_solution gs x" by (rule x1)
  have notin: "x \<notin> set rest" using cx by (simp add: count_eq_zero_iff[symmetric] del: count_eq_zero_iff)
  have vx: "valid4 cs x" using a(2) by simp
  obtain i j m t where e: "x = (i, j, m, t)" by (cases x) auto
  have "idx_m x < n_cust_types cs" using vx e by (simp add: valid4_def idx_m_def)
  then have pos: "0 < act_per_user (problem cs) (idx_m x)" using wf by (simp add: well_formed_def)
  have dle: "g_demand ?gs \<le> g_demand gs" using pos by (simp add: remove_one_fields)
  have d0: "0 \<le> g_demand ?gs" using le by (simp add: remove_one_fields)
  have ci: "cell_inv cs ?gs"
  proof -
    have "0 \<le> g_users_available ?gs b" if "valid3 cs b" for b
    proof -
      have "0 \<le> g_users_available gs b" using a(1) that cell_invD(1) by blast
      moreover have "0 \<le> g_users_available gs (three_of x)"
        using a(1) valid4_three_of[OF vx] cell_invD(1) by blast
      ultimately show ?thesis by (simp add: remove_one_fields)
    qed
    moreover have "0 \<le> g_solution ?gs idx" for idx
    proof -
      have "0 \<le> g_solution gs idx" using a(1) cell_invD(2) by blast
      then show ?thesis using x1 by (simp add: remove_one_fields)
    qed
    ultimately show ?thesis by (rule cell_invI)
  qed
  show "rebalance_inv cs (if g_solution gs x - 1 = 0 then rest else x # rest) ?gs"
  proof (cases "g_solution gs x - 1 = 0")
    case True
    have "1 \<le> g_solution ?gs y \<and> count (mset rest) y \<le> 1"
      if "y \<in> set rest" "act_per_user (problem cs) (idx_m y) \<le> g_demand ?gs" for y
    proof -
      have "act_per_user (problem cs) (idx_m y) \<le> g_demand gs" using that(2) dle by linarith
      then have "1 \<le> g_solution gs y \<and> count (mset (x # rest)) y \<le> 1" using a(3) that(1) by simp
      moreover have "y \<noteq> x" using that(1) notin by auto
      ultimately show ?thesis by (simp add: remove_one_fields)
    qed
    then show ?thesis unfolding rebalance_inv_def using ci a(2) True d0 by simp
  next
    case False
    have "1 \<le> g_solution ?gs y \<and> count (mset (x # rest)) y \<le> 1"
      if "y \<in> set (x # rest)" "act_per_user (problem cs) (idx_m y) \<le> g_demand ?gs" for y
    proof -
      have "act_per_user (problem cs) (idx_m y) \<le> g_demand gs" using that(2) dle by linarith
      then have "1 \<le> g_solution gs y \<and> count (mset (x # rest)) y \<le> 1" using a(3) that(1) by blast
      then show ?thesis using False x1 by (cases "y = x") (simp_all add: remove_one_fields)
    qed
    then show ?thesis unfolding rebalance_inv_def using ci a(2) False d0 by simp
  qed
qed

lemma rebalance_guarded_eq:
  assumes wf: "well_formed cs"
  shows "rebalance_inv cs xs gs \<Longrightarrow>
         greedy_rebalance fuel cs xs gs = greedy_rebalance_guarded fuel cs xs gs \<and>
         (\<forall>gs'. greedy_rebalance fuel cs xs gs = Some gs' \<longrightarrow> cell_inv cs gs' \<and> 0 \<le> g_demand gs')"
proof (induction fuel arbitrary: xs gs)
  case 0
  then show ?case by simp
next
  case (Suc fuel)
  have ci: "cell_inv cs gs" "0 \<le> g_demand gs" using Suc.prems by (simp_all add: rebalance_inv_def)
  show ?case
  proof (cases "0 < g_demand gs")
    case False
    then show ?thesis using ci by simp
  next
    case True
    show ?thesis
    proof (cases xs)
      case Nil
      then show ?thesis using True ci by simp
    next
      case (Cons x rest)
      show ?thesis
      proof (cases "act_per_user (problem cs) (idx_m x) \<le> g_demand gs")
        case le: True
        note R = rebalance_inv_remove[OF wf Suc.prems[unfolded Cons] le]
        have pos: "0 < g_solution gs x" using R(1) by simp
        show ?thesis using Suc.IH[OF R(2)] True Cons le pos by (simp add: Let_def)
      next
        case gt: False
        note R = rebalance_inv_skip[OF Suc.prems[unfolded Cons] gt]
        show ?thesis using Suc.IH[OF R] True Cons gt by simp
      qed
    qed
  qed
qed


lemma rebalance_start_fields:
  "g_solution (rebalance_start cs gs) = g_solution gs"
  "g_users_available (rebalance_start cs gs) = g_users_available gs"
  "g_demand (rebalance_start cs gs) = - g_demand gs"
  "g_inserted_indexes (rebalance_start cs gs) = sort_key (\<lambda>idx. - costs (problem cs) idx) (g_inserted_indexes gs)"
  "g_obj_function (rebalance_start cs gs) = g_obj_function gs"
  by (simp_all add: rebalance_start_def sort_by_desc)

lemma rebalance_start_inv:
  assumes inv: "fill_inv cs gs" and neg: "g_demand gs < 0"
  shows "rebalance_inv cs (g_inserted_indexes (rebalance_start cs gs)) (rebalance_start cs gs)"
proof -
  let ?gs = "rebalance_start cs gs"
  let ?xs = "g_inserted_indexes ?gs"
  have ci: "cell_inv cs ?gs"
    using fill_inv_cell_inv[OF inv] by (simp add: cell_inv_def rebalance_start_fields)
  have s: "set ?xs = set (g_inserted_indexes gs)" "mset ?xs = mset (g_inserted_indexes gs)"
    by (simp_all add: rebalance_start_fields)
  have v: "\<forall>x\<in>set ?xs. valid4 cs x" using fill_invD(3)[OF inv] s(1) by blast
  have "1 \<le> g_solution ?gs x \<and> count (mset ?xs) x \<le> 1"
    if "x \<in> set ?xs" "act_per_user (problem cs) (idx_m x) \<le> g_demand ?gs" for x
  proof -
    have "1 \<le> g_solution gs x" using fill_invD(3)[OF inv] that(1) s(1) by blast
    moreover have "\<not> 2 \<le> count (mset (g_inserted_indexes gs)) x"
      using fill_invD(6)[OF inv] neg that(2) by (fastforce simp: rebalance_start_fields)
    ultimately show ?thesis unfolding s(2) by (simp add: rebalance_start_fields)
  qed
  then show ?thesis unfolding rebalance_inv_def using ci v neg by (simp add: rebalance_start_fields(3))
qed

lemma greedy_cell_guarded_eq:
  assumes wf: "well_formed cs" and ok: "candidates_ok cs" and ci: "cell_inv cs gs"
  shows "greedy_cell fuel cs j gs = greedy_cell_guarded fuel cs j gs"
    and "greedy_cell fuel cs j gs = Some (Filled gs') \<Longrightarrow> cell_inv cs gs'"
proof -
  let ?f = "greedy_fill fuel cs j (cell_start cs j gs)"
  have both: "greedy_cell fuel cs j gs = greedy_cell_guarded fuel cs j gs \<and>
     (\<forall>gs'. greedy_cell fuel cs j gs = Some (Filled gs') \<longrightarrow> cell_inv cs gs')"
  proof (cases ?f)
    case None
    then show ?thesis by (simp add: greedy_cell_def greedy_cell_guarded_def)
  next
    case (Some r)
    note F = greedy_fill_inv[OF wf ok cell_inv_start[OF ci] Some]
    show ?thesis
    proof (cases r)
      case (No_users gs1)
      then show ?thesis using Some by (simp add: greedy_cell_def greedy_cell_guarded_def)
    next
      case (Filled gs1)
      then have inv1: "fill_inv cs gs1" using F by simp
      show ?thesis
      proof (cases "g_demand gs1 < 0")
        case False
        then show ?thesis using Some Filled fill_inv_cell_inv[OF inv1]
          by (simp add: greedy_cell_def greedy_cell_guarded_def)
      next
        case True
        note R = rebalance_guarded_eq[OF wf rebalance_start_inv[OF inv1 True], of fuel]
        show ?thesis using Some Filled True R
          by (auto simp: greedy_cell_def greedy_cell_guarded_def split: option.splits)
      qed
    qed
  qed
  show "greedy_cell fuel cs j gs = greedy_cell_guarded fuel cs j gs" using both by blast
  show "greedy_cell fuel cs j gs = Some (Filled gs') \<Longrightarrow> cell_inv cs gs'" using both by blast
qed

lemma greedy_cells_guarded_eq:
  assumes wf: "well_formed cs" and ok: "candidates_ok cs"
  shows "cell_inv cs gs \<Longrightarrow> greedy_cells fuel cs order gs = greedy_cells_guarded fuel cs order gs"
proof (induction order arbitrary: gs)
  case Nil
  then show ?case by simp
next
  case (Cons j order)
  note E = greedy_cell_guarded_eq[OF wf ok Cons.prems]
  show ?case
  proof (cases "greedy_cell fuel cs j gs")
    case None
    then show ?thesis using E(1)[of fuel j] by simp
  next
    case (Some r)
    show ?thesis
    proof (cases r)
      case (No_users gs1)
      then show ?thesis using Some E(1)[of fuel j] by simp
    next
      case (Filled gs1)
      have "cell_inv cs gs1" using E(2) Some Filled by blast
      then show ?thesis using Some Filled E(1)[of fuel j] Cons.IH by simp
    qed
  qed
qed

lemma well_formed_initialization:
  "well_formed (initialization_phase cs) = well_formed cs"
  by (simp add: well_formed_def valid3_def initialization_phase_simps)

text \<open>
  An instance on which the rebalance removes two users: cell \<open>1\<close> demands three
  activities, cell \<open>0\<close> offers two users performing one activity (cost \<open>10\<close>)
  and one user performing three (cost \<open>45\<close>).
\<close>

definition rb_problem :: input_problem where
  "rb_problem = \<lparr> costs = (\<lambda>idx. if idx = (0, 1, 0, 0) then 10 else if idx = (0, 1, 1, 0) then 45 else 0),
                  users_available = (\<lambda>b. if b = (0, 0, 0) then 2 else if b = (0, 1, 0) then 1 else 0),
                  activities = (\<lambda>j. if j = 1 then 3 else 0),
                  act_per_user = (\<lambda>m. if m = 0 then 1 else 3) \<rparr>"

definition rb_solver :: coiote_solver where
  "rb_solver = initialization_phase (new_coiote_solver 2 1 2 rb_problem)"

lemma rb_well_formed: "well_formed (new_coiote_solver 2 1 2 rb_problem)"
  by (simp add: well_formed_def new_coiote_solver_def rb_problem_def valid3_def)


subsection \<open>Scarce-user greedy (\<^verbatim>\<open>coiote_solver::greedy_few_users\<close>)\<close>

text \<open>
  The table of activity slots is built by \<^verbatim>\<open>thread_body\<close> on the first switch to the
  scarce-user mode, from \<^verbatim>\<open>statistics.max_activities\<close>, the number of user types and
  \<^verbatim>\<open>problem.act_per_user\<close>; \<open>solver_slots\<close> is that table. The functions below take
  the table that \<^verbatim>\<open>statistics.act_slots\<close> points to as the argument \<open>slots\<close>.
\<close>

definition solver_slots :: "coiote_solver \<Rightarrow> activities_slots" where
  "solver_slots cs =
     new_activities_slots (nat (max_activities (statistics cs))) (n_cust_types cs)
       (act_per_user (problem cs))"

function few_scan :: "coiote_solver \<Rightarrow> activities_slots \<Rightarrow> bool \<Rightarrow> greedy_state \<Rightarrow> four_index list
    \<Rightarrow> greedy_best \<Rightarrow> greedy_best" where
  "few_scan cs slots enable_wasting gs co_it best =
     (case get_least_expensive co_it (g_users_available gs) of
        [] \<Rightarrow> best
      | idx # rest \<Rightarrow>
          (let i = idx_i idx; m = idx_m idx; t = idx_t idx;
               cost = effective_cost (problem cs) (g_demand gs) idx
           in if above cost (min_cost best) then best
              else few_scan cs slots enable_wasting gs rest
                     (if (enable_wasting \<or> can_be_selected slots (g_demand gs) m)
                         \<and> (below cost (min_cost best)
                              \<or> act_per_user (problem cs) m > act_per_user (problem cs) (min_m best))
                      then \<lparr> min_cost = Some cost, min_i = i, min_m = m, min_t = t \<rparr>
                      else best)))"
  by pat_completeness auto
termination
  by (relation "measure (\<lambda>(cs, slots, enable_wasting, gs, co_it, best). length co_it)")
     (simp_all add: get_least_expensive_length)

declare few_scan.simps [simp del]

definition few_select :: "coiote_solver \<Rightarrow> activities_slots \<Rightarrow> bool \<Rightarrow> nat \<Rightarrow> greedy_state \<Rightarrow> greedy_best" where
  "few_select cs slots enable_wasting j gs =
     few_scan cs slots enable_wasting gs
       (costs_order (statistics cs) (get_costs_idx cs (g_demand gs)) j) no_best"

definition few_commit :: "coiote_solver \<Rightarrow> nat \<Rightarrow> greedy_best \<Rightarrow> greedy_state \<Rightarrow> greedy_state" where
  "few_commit cs j best gs =
     (let bucket = (min_i best, min_m best, min_t best);
          idx = (min_i best, j, min_m best, min_t best)
      in gs\<lparr> g_solution := (g_solution gs)(idx := g_solution gs idx + 1),
              g_obj_function := g_obj_function gs + costs (problem cs) idx,
              g_demand := g_demand gs - act_per_user (problem cs) (min_m best),
              g_users_available := (g_users_available gs)(bucket := g_users_available gs bucket - 1) \<rparr>)"

text \<open>
  The loop \<^verbatim>\<open>while(demand > 0)\<close> of one destination cell. When no user is found,
  the second pass returns \<^verbatim>\<open>infinity\<close> (\<open>No_users\<close>) and the first pass leaves the
  loop with the demand that remains.
\<close>

fun few_fill :: "nat \<Rightarrow> coiote_solver \<Rightarrow> activities_slots \<Rightarrow> bool \<Rightarrow> nat \<Rightarrow> greedy_state
    \<Rightarrow> fill_result option" where
  "few_fill 0 cs slots enable_wasting j gs = None"
| "few_fill (Suc fuel) cs slots enable_wasting j gs =
     (if g_demand gs > 0 then
        (let best = few_select cs slots enable_wasting j gs
         in if min_cost best = None
            then (if enable_wasting then Some (No_users gs) else Some (Filled gs))
            else few_fill fuel cs slots enable_wasting j (few_commit cs j best gs))
      else Some (Filled gs))"

datatype few_result = Few_infeasible greedy_state | Few_done "(nat \<times> int) list" greedy_state

text \<open>
  One pass over \<^verbatim>\<open>remaining_demand\<close>: the result carries the updated vector of
  pairs (cell, remaining demand).
\<close>

fun few_cells :: "nat \<Rightarrow> coiote_solver \<Rightarrow> activities_slots \<Rightarrow> bool \<Rightarrow> (nat \<times> int) list \<Rightarrow> greedy_state
    \<Rightarrow> few_result option" where
  "few_cells fuel cs slots enable_wasting [] gs = Some (Few_done [] gs)"
| "few_cells fuel cs slots enable_wasting ((j, demand) # remaining_demand) gs =
     (if \<not> enable_wasting \<and> should_skip slots demand then
        (case few_cells fuel cs slots enable_wasting remaining_demand gs of
           None \<Rightarrow> None
         | Some (Few_infeasible gs') \<Rightarrow> Some (Few_infeasible gs')
         | Some (Few_done rd gs') \<Rightarrow> Some (Few_done ((j, demand) # rd) gs'))
      else
        (case few_fill fuel cs slots enable_wasting j (gs\<lparr> g_demand := demand \<rparr>) of
           None \<Rightarrow> None
         | Some (No_users gs1) \<Rightarrow> Some (Few_infeasible gs1)
         | Some (Filled gs1) \<Rightarrow>
             (case few_cells fuel cs slots enable_wasting remaining_demand gs1 of
                None \<Rightarrow> None
              | Some (Few_infeasible gs') \<Rightarrow> Some (Few_infeasible gs')
              | Some (Few_done rd gs') \<Rightarrow> Some (Few_done ((j, g_demand gs1) # rd) gs'))))"

definition few_first_pass :: "nat \<Rightarrow> coiote_solver \<Rightarrow> activities_slots \<Rightarrow> nat list \<Rightarrow> cells_usage
    \<Rightarrow> few_result option" where
  "few_first_pass fuel cs slots order usage =
     few_cells fuel cs slots False (map (\<lambda>j. (j, activities (problem cs) j)) order)
       (greedy_start cs usage)"

definition greedy_few_users :: "nat \<Rightarrow> coiote_solver \<Rightarrow> activities_slots \<Rightarrow> nat list \<Rightarrow> cells_usage
    \<Rightarrow> (objective \<times> greedy_state) option" where
  "greedy_few_users fuel cs slots order usage =
     (case few_first_pass fuel cs slots order usage of
        None \<Rightarrow> None
      | Some (Few_infeasible gs1) \<Rightarrow> Some (Infinity, gs1)
      | Some (Few_done rd1 gs1) \<Rightarrow>
          (case few_cells fuel cs slots True rd1 gs1 of
             None \<Rightarrow> None
           | Some (Few_infeasible gs2) \<Rightarrow> Some (Infinity, gs2)
           | Some (Few_done rd2 gs2) \<Rightarrow> Some (Objective (g_obj_function gs2), gs2)))"


text \<open>
  An instance in the spirit of scenario S5: user types performing two and three
  activities, cell \<open>1\<close> demanding four and cell \<open>2\<close> three activities, two users
  of the first type and one of the second in cell \<open>0\<close>. The standard greedy returns
  \<^verbatim>\<open>infinity\<close> for both visiting orders; the scarce-user greedy finds the assignment
  without waste.
\<close>

definition few_problem :: input_problem where
  "few_problem =
     \<lparr> costs = (\<lambda>idx. if idx = (0, 1, 0, 0) then 10 else if idx = (0, 1, 1, 0) then 9
                       else if idx = (0, 2, 0, 0) then 1 else if idx = (0, 2, 1, 0) then 5 else 0),
       users_available = (\<lambda>b. if b = (0, 0, 0) then 2 else if b = (0, 1, 0) then 1 else 0),
       activities = (\<lambda>j. if j = 1 then 4 else if j = 2 then 3 else 0),
       act_per_user = (\<lambda>m. if m = 0 then 2 else 3) \<rparr>"

definition few_solver :: coiote_solver where
  "few_solver = initialization_phase (new_coiote_solver 3 1 2 few_problem)"

definition picked_few :: "activities_slots \<Rightarrow> bool \<Rightarrow> greedy_state \<Rightarrow> four_index set \<Rightarrow> greedy_best \<Rightarrow> bool" where
  "picked_few slots enable_wasting gs S best =
     (picked_from gs S best \<and>
      (min_cost best \<noteq> None \<longrightarrow> enable_wasting \<or> can_be_selected slots (g_demand gs) (min_m best)))"

lemma few_scan_picked:
  "picked_few slots ew gs S best \<Longrightarrow> set co_it \<subseteq> S \<Longrightarrow>
     picked_few slots ew gs S (few_scan cs slots ew gs co_it best)"
proof (induction cs slots ew gs co_it best rule: few_scan.induct)
  case (1 cs slots ew gs co_it best)
  show ?case
  proof (cases "get_least_expensive co_it (g_users_available gs)")
    case Nil
    then show ?thesis using "1.prems" by (subst few_scan.simps) simp
  next
    case (Cons idx rest)
    note C = get_least_expensive_Cons[OF Cons]
    let ?cost = "effective_cost (problem cs) (g_demand gs) idx"
    let ?new = "(if (ew \<or> can_be_selected slots (g_demand gs) (idx_m idx))
                         \<and> (below ?cost (min_cost best)
                              \<or> act_per_user (problem cs) (idx_m idx) > act_per_user (problem cs) (min_m best))
                      then \<lparr> min_cost = Some ?cost, min_i = idx_i idx, min_m = idx_m idx, min_t = idx_t idx \<rparr>
                      else best)"
    show ?thesis
    proof (cases "above ?cost (min_cost best)")
      case True
      then show ?thesis using "1.prems" Cons by (subst few_scan.simps) simp
    next
      case False
      have pn: "picked_few slots ew gs S ?new"
        using "1.prems" C unfolding picked_few_def picked_from_def by auto
      have "picked_few slots ew gs S (few_scan cs slots ew gs rest ?new)"
        using "1.IH"[OF Cons refl refl refl refl False pn] C(2) "1.prems"(2) by blast
      then show ?thesis using False Cons by (subst few_scan.simps) (simp add: Let_def)
    qed
  qed
qed

lemma few_select_picked:
  assumes ok: "candidates_ok cs" and sel: "min_cost (few_select cs slots ew j gs) \<noteq> None"
  shows "valid4 cs (min_i (few_select cs slots ew j gs), j, min_m (few_select cs slots ew j gs),
                    min_t (few_select cs slots ew j gs))"
    and "min_i (few_select cs slots ew j gs) \<noteq> j"
    and "g_users_available gs (min_i (few_select cs slots ew j gs), min_m (few_select cs slots ew j gs),
                               min_t (few_select cs slots ew j gs)) \<noteq> 0"
    and "ew \<or> can_be_selected slots (g_demand gs) (min_m (few_select cs slots ew j gs))"
proof -
  let ?xs = "costs_order (statistics cs) (get_costs_idx cs (g_demand gs)) j"
  let ?b = "few_select cs slots ew j gs"
  have pf: "picked_few slots ew gs (set ?xs) ?b"
    unfolding few_select_def
    by (rule few_scan_picked) (simp_all add: picked_few_def picked_from_def no_best_def)
  then obtain idx where idx: "idx \<in> set ?xs" "idx_i idx = min_i ?b" "idx_m idx = min_m ?b"
      "idx_t idx = min_t ?b" "g_users_available gs (three_of idx) \<noteq> 0"
    using sel unfolding picked_few_def picked_from_def by blast
  have v: "valid4 cs idx" "idx_j idx = j" "idx_i idx \<noteq> j"
    using ok idx(1) unfolding candidates_ok_def by blast+
  obtain i j' m t where e: "idx = (i, j', m, t)" by (cases idx) auto
  have eq: "idx = (min_i ?b, j, min_m ?b, min_t ?b)"
    using idx(2-4) v(2) e by (simp add: idx_i_def idx_j_def idx_m_def idx_t_def)
  show "valid4 cs (min_i ?b, j, min_m ?b, min_t ?b)" using v(1) eq by simp
  show "min_i ?b \<noteq> j" using v(3) idx(2) by simp
  show "g_users_available gs (min_i ?b, min_m ?b, min_t ?b) \<noteq> 0"
    using idx(5) eq by (simp add: three_of_def)
  show "ew \<or> can_be_selected slots (g_demand gs) (min_m ?b)"
    using pf sel unfolding picked_few_def by blast
qed

lemma slots_selected_le:
  assumes pos: "\<forall>m<n. 0 < apu m" and d: "0 < d" "d \<le> int mx" and m: "m < n"
    and sel: "can_be_selected (new_activities_slots mx n apu) d m"
  shows "apu m \<le> d"
proof -
  note inv = slots_table_inv[OF pos, of mx, unfolded slots_inv_def]
  have r: "0 < nat d \<and> nat d < Suc mx" using d by linarith
  have "data (new_activities_slots mx n apu) ! nat d ! m =
      (apu m \<le> int (nat d) \<and>
       data (new_activities_slots mx n apu) ! nat (int (nat d) - apu m) ! n)"
    using inv r m by blast
  then show ?thesis using sel d by (simp add: can_be_selected_def)
qed

lemma few_commit_fields:
  "g_solution (few_commit cs j best gs) =
     (g_solution gs)((min_i best, j, min_m best, min_t best) :=
        g_solution gs (min_i best, j, min_m best, min_t best) + 1)"
  "g_users_available (few_commit cs j best gs) =
     (g_users_available gs)((min_i best, min_m best, min_t best) :=
        g_users_available gs (min_i best, min_m best, min_t best) - 1)"
  "g_demand (few_commit cs j best gs) = g_demand gs - act_per_user (problem cs) (min_m best)"
  "g_obj_function (few_commit cs j best gs) =
     g_obj_function gs + costs (problem cs) (min_i best, j, min_m best, min_t best)"
  "g_usage (few_commit cs j best gs) = g_usage gs"
  by (simp_all add: few_commit_def Let_def)

lemma few_step_no_waste:
  assumes wf: "well_formed cs" and ok: "candidates_ok cs"
    and d: "0 < g_demand gs" "g_demand gs \<le> max_activities (statistics cs)"
    and sel: "min_cost (few_select cs (solver_slots cs) False j gs) \<noteq> None"
  shows "can_be_selected (solver_slots cs) (g_demand gs) (min_m (few_select cs (solver_slots cs) False j gs))"
    and "0 \<le> g_demand (few_commit cs j (few_select cs (solver_slots cs) False j gs) gs)"
    and "g_demand (few_commit cs j (few_select cs (solver_slots cs) False j gs) gs) < g_demand gs"
proof -
  let ?b = "few_select cs (solver_slots cs) False j gs"
  note P = few_select_picked[OF ok sel]
  show c: "can_be_selected (solver_slots cs) (g_demand gs) (min_m ?b)" using P(4) by simp
  have m: "min_m ?b < n_cust_types cs" using P(1) by (simp add: valid4_def)
  have pos: "\<forall>m<n_cust_types cs. 0 < act_per_user (problem cs) m" using wf by (simp add: well_formed_def)
  have "g_demand gs \<le> int (nat (max_activities (statistics cs)))" using d by simp
  then have "act_per_user (problem cs) (min_m ?b) \<le> g_demand gs"
    using slots_selected_le[OF pos d(1) _ m] c unfolding solver_slots_def by blast
  then show "0 \<le> g_demand (few_commit cs j ?b gs)" by (simp add: few_commit_fields)
  show "g_demand (few_commit cs j ?b gs) < g_demand gs" using pos m by (simp add: few_commit_fields)
qed

lemma few_fill_no_waste:
  assumes wf: "well_formed cs" and ok: "candidates_ok cs"
  shows "0 \<le> g_demand gs \<Longrightarrow> g_demand gs \<le> max_activities (statistics cs) \<Longrightarrow>
         few_fill fuel cs (solver_slots cs) False j gs = Some r \<Longrightarrow>
         (\<exists>gs'. r = Filled gs' \<and> 0 \<le> g_demand gs')"
proof (induction fuel arbitrary: gs)
  case 0
  then show ?case by simp
next
  case (Suc fuel)
  show ?case
  proof (cases "0 < g_demand gs")
    case False
    then show ?thesis using Suc.prems by auto
  next
    case True
    let ?best = "few_select cs (solver_slots cs) False j gs"
    show ?thesis
    proof (cases "min_cost ?best = None")
      case True
      then show ?thesis using Suc.prems \<open>0 < g_demand gs\<close> by (auto simp: Let_def)
    next
      case False
      note S = few_step_no_waste[OF wf ok True Suc.prems(2) False]
      have "few_fill fuel cs (solver_slots cs) False j (few_commit cs j ?best gs) = Some r"
        using Suc.prems(3) True False by (simp add: Let_def)
      moreover have "g_demand (few_commit cs j ?best gs) \<le> max_activities (statistics cs)"
        using S(3) Suc.prems(2) by linarith
      ultimately show ?thesis using Suc.IH[OF S(2)] by blast
    qed
  qed
qed

lemma few_cells_no_waste:
  assumes wf: "well_formed cs" and ok: "candidates_ok cs"
  shows "\<forall>(j, d)\<in>set rd. 0 \<le> d \<and> d \<le> max_activities (statistics cs) \<Longrightarrow>
         few_cells fuel cs (solver_slots cs) False rd gs = Some r \<Longrightarrow>
         (\<exists>rd' gs'. r = Few_done rd' gs' \<and> (\<forall>(j, d)\<in>set rd'. 0 \<le> d))"
proof (induction rd arbitrary: gs r)
  case Nil
  then show ?case by auto
next
  case (Cons jd rd)
  obtain j d where jd: "jd = (j, d)" by (cases jd) auto
  have dr: "0 \<le> d" "d \<le> max_activities (statistics cs)"
    and rest: "\<forall>(j, d)\<in>set rd. 0 \<le> d \<and> d \<le> max_activities (statistics cs)"
    using Cons.prems(1) jd by auto
  show ?case
  proof (cases "should_skip (solver_slots cs) d")
    case True
    then obtain r' where r': "few_cells fuel cs (solver_slots cs) False rd gs = Some r'"
      using Cons.prems(2) jd by (auto split: option.splits)
    from Cons.IH[OF rest r'] obtain rd' gs' where
      "r' = Few_done rd' gs'" "\<forall>(j, d)\<in>set rd'. 0 \<le> d" by blast
    then show ?thesis using Cons.prems(2) jd True r' dr by auto
  next
    case False
    then obtain f where f: "few_fill fuel cs (solver_slots cs) False j (gs\<lparr> g_demand := d \<rparr>) = Some f"
      using Cons.prems(2) jd by (auto split: option.splits)
    from few_fill_no_waste[OF wf ok _ _ f] dr obtain gs1 where
      gs1: "f = Filled gs1" "0 \<le> g_demand gs1" by auto
    then obtain r' where r': "few_cells fuel cs (solver_slots cs) False rd gs1 = Some r'"
      using Cons.prems(2) jd False f by (auto split: option.splits)
    from Cons.IH[OF rest r'] obtain rd' gs' where
      "r' = Few_done rd' gs'" "\<forall>(j, d)\<in>set rd'. 0 \<le> d" by blast
    then show ?thesis using Cons.prems(2) jd False f gs1 r' by auto
  qed
qed


lemma foldl_max_ge: "(a::int) \<le> foldl (\<lambda>a j. max a (f j)) a xs"
proof (induction xs arbitrary: a)
  case Nil
  then show ?case by simp
next
  case (Cons x xs)
  have "a \<le> max a (f x)" by simp
  also have "\<dots> \<le> foldl (\<lambda>a j. max a (f j)) (max a (f x)) xs" by (rule Cons.IH)
  finally show ?case by simp
qed

lemma foldl_max_bound: "j \<in> set xs \<Longrightarrow> (f j :: int) \<le> foldl (\<lambda>a j. max a (f j)) a xs"
proof (induction xs arbitrary: a)
  case Nil
  then show ?case by simp
next
  case (Cons x xs)
  show ?case
  proof (cases "j = x")
    case True
    have "f j \<le> max a (f x)" using True by simp
    also have "\<dots> \<le> foldl (\<lambda>a j. max a (f j)) (max a (f x)) xs" by (rule foldl_max_ge)
    finally show ?thesis by simp
  next
    case False
    then show ?thesis using Cons by simp
  qed
qed

lemma max_activities_bound:
  "j < n_cells cs \<Longrightarrow>
     activities (problem cs) j \<le> max_activities (statistics (initialization_phase cs))"
  by (simp add: initialization_phase_simps foldl_max_bound)

lemma few_fill_returns:
  assumes wf: "well_formed cs" and ok: "candidates_ok cs"
  shows "0 \<le> g_demand gs \<Longrightarrow> g_demand gs \<le> max_activities (statistics cs) \<Longrightarrow>
         g_demand gs < int fuel \<Longrightarrow> few_fill fuel cs (solver_slots cs) False j gs \<noteq> None"
proof (induction fuel arbitrary: gs)
  case 0
  then show ?case by simp
next
  case (Suc fuel)
  show ?case
  proof (cases "0 < g_demand gs")
    case False
    then show ?thesis by simp
  next
    case True
    let ?best = "few_select cs (solver_slots cs) False j gs"
    show ?thesis
    proof (cases "min_cost ?best = None")
      case True
      then show ?thesis using \<open>0 < g_demand gs\<close> by (simp add: Let_def)
    next
      case False
      note S = few_step_no_waste[OF wf ok True Suc.prems(2) False]
      have "few_fill fuel cs (solver_slots cs) False j (few_commit cs j ?best gs) \<noteq> None"
        using Suc.IH[OF S(2)] S(3) Suc.prems(2,3) by simp
      then show ?thesis using True False by (simp add: Let_def)
    qed
  qed
qed

lemma few_cells_returns:
  assumes wf: "well_formed cs" and ok: "candidates_ok cs"
  shows "\<forall>(j, d)\<in>set rd. 0 \<le> d \<and> d \<le> max_activities (statistics cs) \<Longrightarrow>
         max_activities (statistics cs) < int fuel \<Longrightarrow>
         few_cells fuel cs (solver_slots cs) False rd gs \<noteq> None"
proof (induction rd arbitrary: gs)
  case Nil
  then show ?case by simp
next
  case (Cons jd rd)
  obtain j d where jd: "jd = (j, d)" by (cases jd) auto
  have dr: "0 \<le> d" "d \<le> max_activities (statistics cs)"
    and rest: "\<forall>(j, d)\<in>set rd. 0 \<le> d \<and> d \<le> max_activities (statistics cs)"
    using Cons.prems(1) jd by auto
  have IH: "\<And>gs. few_cells fuel cs (solver_slots cs) False rd gs \<noteq> None"
    using Cons.IH[OF rest Cons.prems(2)] .
  show ?case
  proof (cases "should_skip (solver_slots cs) d")
    case True
    then show ?thesis using IH[of gs] jd by (auto split: option.splits few_result.splits)
  next
    case False
    have "few_fill fuel cs (solver_slots cs) False j (gs\<lparr> g_demand := d \<rparr>) \<noteq> None"
      using few_fill_returns[OF wf ok, of "gs\<lparr> g_demand := d \<rparr>" fuel j] dr Cons.prems(2) by simp
    then obtain f where f: "few_fill fuel cs (solver_slots cs) False j (gs\<lparr> g_demand := d \<rparr>) = Some f"
      by blast
    from few_fill_no_waste[OF wf ok _ _ f] dr obtain gs1 where
      gs1: "f = Filled gs1" by auto
    show ?thesis using IH[of gs1] jd False f gs1 by (auto split: option.splits few_result.splits)
  qed
qed

lemma few_well_formed: "well_formed (new_coiote_solver 3 1 2 few_problem)"
  by (simp add: well_formed_def new_coiote_solver_def few_problem_def valid3_def)

definition few_state :: greedy_state where
  "few_state = (greedy_start few_solver no_usage)\<lparr> g_demand := 3 \<rparr>"

lemma few_first_pass_result:
  "(case few_first_pass 10 few_solver (solver_slots few_solver) [2, 1] no_usage of
      Some (Few_done rd gs) \<Rightarrow> rd = [(2, 0), (1, 0)]
    | _ \<Rightarrow> False)"
  by code_simp

lemma few_state_select:
  "g_demand few_state = 3 \<and> max_activities (statistics few_solver) = 4 \<and>
   min_cost (few_select few_solver (solver_slots few_solver) False 2 few_state) = Some (5 / 3) \<and>
   min_m (few_select few_solver (solver_slots few_solver) False 2 few_state) = 1"
  by code_simp

text \<open>
  Claim C8 (the first pass of the scarce-user greedy never overshoots): in the first
  pass (\<open>enable_wasting = False\<close>) every committed user of type \<open>m\<close> satisfies
  \<open>can_be_selected(d, m)\<close> for the current residual demand \<open>d\<close>, so the residual
  demand stays non-negative after every commit and at the end of the pass. The
  theorem is stated for a solver prepared by the constructor and the initialization
  phase on a well-formed problem, with the table of slots \<^verbatim>\<open>thread_body\<close> builds;
  the first conjunct is one step of the loop from any state whose demand is inside
  the table, the second is the whole pass, which moreover returns (and never with
  \<^verbatim>\<open>infinity\<close>) once the bound on the iterations exceeds the largest demand.
\<close>

theorem C8_first_pass_no_waste:
  assumes "cs = initialization_phase (new_coiote_solver c t m p)" and "well_formed cs"
    and "\<forall>j\<in>set order. j < n_cells cs"
  shows "(0 < g_demand gs \<and> g_demand gs \<le> max_activities (statistics cs)
          \<and> min_cost (few_select cs (solver_slots cs) False j gs) \<noteq> None \<longrightarrow>
            can_be_selected (solver_slots cs) (g_demand gs)
               (min_m (few_select cs (solver_slots cs) False j gs))
            \<and> 0 \<le> g_demand (few_commit cs j (few_select cs (solver_slots cs) False j gs) gs)) \<and>
         (case few_first_pass fuel cs (solver_slots cs) order usage of
            None \<Rightarrow> \<not> max_activities (statistics cs) < int fuel
          | Some (Few_infeasible gs') \<Rightarrow> False
          | Some (Few_done rd gs') \<Rightarrow> \<forall>(j, d)\<in>set rd. 0 \<le> d)"
proof -
  have ok: "candidates_ok cs" using candidates_ok_initialization assms(1) by simp
  let ?rd = "map (\<lambda>j. (j, activities (problem cs) j)) order"
  have wf0: "well_formed (new_coiote_solver c t m p)"
    using assms(1,2) well_formed_initialization by simp
  have rd: "\<forall>(j, d)\<in>set ?rd. 0 \<le> d \<and> d \<le> max_activities (statistics cs)"
  proof -
    have "0 \<le> activities (problem cs) j \<and> activities (problem cs) j \<le> max_activities (statistics cs)"
      if "j \<in> set order" for j
    proof -
      have j: "j < n_cells cs" using assms(3) that by blast
      then have "0 \<le> activities (problem cs) j" using assms(2) by (simp add: well_formed_def)
      moreover have "activities (problem cs) j \<le> max_activities (statistics cs)"
        using max_activities_bound[of j "new_coiote_solver c t m p"] j assms(1)
        by (simp add: initialization_phase_simps)
      ultimately show ?thesis by simp
    qed
    then show ?thesis by auto
  qed
  have step: "0 < g_demand gs \<and> g_demand gs \<le> max_activities (statistics cs)
          \<and> min_cost (few_select cs (solver_slots cs) False j gs) \<noteq> None \<longrightarrow>
            can_be_selected (solver_slots cs) (g_demand gs)
               (min_m (few_select cs (solver_slots cs) False j gs))
            \<and> 0 \<le> g_demand (few_commit cs j (few_select cs (solver_slots cs) False j gs) gs)"
    using few_step_no_waste[OF assms(2) ok] by blast
  have pass: "(case few_first_pass fuel cs (solver_slots cs) order usage of
            None \<Rightarrow> \<not> max_activities (statistics cs) < int fuel
          | Some (Few_infeasible gs') \<Rightarrow> False
          | Some (Few_done rd gs') \<Rightarrow> \<forall>(j, d)\<in>set rd. 0 \<le> d)"
  proof (cases "few_first_pass fuel cs (solver_slots cs) order usage")
    case None
    then show ?thesis
      using few_cells_returns[OF assms(2) ok rd, of fuel "greedy_start cs usage"]
      by (auto simp: few_first_pass_def)
  next
    case (Some r)
    then show ?thesis
      using few_cells_no_waste[OF assms(2) ok rd, of fuel "greedy_start cs usage" r]
      by (auto simp: few_first_pass_def)
  qed
  show ?thesis using step pass by blast
qed

theorem C8_first_pass_no_waste_witness:
  "can_be_selected (solver_slots few_solver) (g_demand few_state)
      (min_m (few_select few_solver (solver_slots few_solver) False 2 few_state)) \<and>
   0 \<le> g_demand (few_commit few_solver 2
                    (few_select few_solver (solver_slots few_solver) False 2 few_state) few_state) \<and>
   (case few_first_pass 10 few_solver (solver_slots few_solver) [2, 1] no_usage of
      Some (Few_done rd gs) \<Rightarrow> rd = [(2, 0), (1, 0)]
    | _ \<Rightarrow> False)"
proof -
  have wf: "well_formed few_solver"
    using few_well_formed well_formed_initialization unfolding few_solver_def by simp
  have o: "\<forall>j\<in>set [2, 1]. j < n_cells few_solver"
    by (simp add: few_solver_def initialization_phase_simps new_coiote_solver_def)
  note T = C8_first_pass_no_waste[OF few_solver_def wf o, of few_state 2 10 no_usage]
  have pre: "0 < g_demand few_state \<and> g_demand few_state \<le> max_activities (statistics few_solver)
      \<and> min_cost (few_select few_solver (solver_slots few_solver) False 2 few_state) \<noteq> None"
    using few_state_select by simp
  show ?thesis using T pre few_first_pass_result by blast
qed

subsection \<open>Improving phase: data (\<^verbatim>\<open>moves_statistics\<close>, \<^verbatim>\<open>improved_move\<close>, \<^verbatim>\<open>ti_parameter\<close>)\<close>

record moves_statistics =
  ms_users_available :: "three_index \<Rightarrow> int"
  moves :: "four_index list"
  moves_from_i :: "nat \<Rightarrow> four_index list"
  moves_to_j :: "nat \<Rightarrow> four_index list"
  done_in_j :: "nat \<Rightarrow> int"

record improved_move =
  t_idx :: three_index
  f_idx :: four_index
  user_added :: int
  activities_added :: int
  obj_gain :: int

definition new_improved_move :: "nat \<Rightarrow> nat \<Rightarrow> nat \<Rightarrow> nat \<Rightarrow> int \<Rightarrow> int \<Rightarrow> int \<Rightarrow> improved_move" where
  "new_improved_move i j m t ua aa og =
     \<lparr> t_idx = (i, m, t), f_idx = (i, j, m, t), user_added = ua, activities_added = aa, obj_gain = og \<rparr>"

record ti_parameter =
  it_level :: nat
  curr_idx :: four_index
  users_to_remove :: int
  obj_gain_so_far :: int
  imp_moves :: "improved_move list"
  considered_cells :: "four_index list"

definition new_ti_parameter :: "four_index \<Rightarrow> int \<Rightarrow> ti_parameter" where
  "new_ti_parameter idx n =
     \<lparr> it_level = 0, curr_idx = idx, users_to_remove = n, obj_gain_so_far = 0,
       imp_moves = [], considered_cells = [] \<rparr>"

definition next_ti_parameter :: "ti_parameter \<Rightarrow> four_index \<Rightarrow> int \<Rightarrow> ti_parameter" where
  "next_ti_parameter current idx n =
     \<lparr> it_level = it_level current + 1, curr_idx = idx, users_to_remove = n,
       obj_gain_so_far = obj_gain_so_far current, imp_moves = [],
       considered_cells = considered_cells current \<rparr>"

definition clear :: "ti_parameter \<Rightarrow> ti_parameter" where
  "clear param = param\<lparr> obj_gain_so_far := 0, imp_moves := [], considered_cells := [] \<rparr>"

text \<open>
  The objects \<^verbatim>\<open>try_improve\<close> works on by reference: the solution, the statistics of
  the moves, and the flag \<^verbatim>\<open>time_finished\<close>. The flag is set once by the timer and
  never reset, so successive reads return false some number of times and true from
  then on; \<open>time_left\<close> is the number of reads that still return false.
\<close>

record improve_state =
  i_solution :: "four_index \<Rightarrow> int"
  statistics_moves :: moves_statistics
  time_left :: nat

definition read_time_finished :: "improve_state \<Rightarrow> bool \<times> improve_state" where
  "read_time_finished w = (time_left w = 0, w\<lparr> time_left := time_left w - 1 \<rparr>)"

subsection \<open>\<^verbatim>\<open>add_remove_user\<close> and \<^verbatim>\<open>get_removable\<close>\<close>

definition add_remove_user :: "improved_move \<Rightarrow> bool \<Rightarrow> improve_state \<Rightarrow> int \<times> improve_state" where
  "add_remove_user ic undo w =
     (let flag = (if undo then - 1 else 1);
          st = statistics_moves w;
          j = idx_j (f_idx ic)
      in (obj_gain ic * flag,
          w\<lparr> i_solution := (i_solution w)(f_idx ic := i_solution w (f_idx ic) + user_added ic * flag),
             statistics_moves := st
               \<lparr> ms_users_available := (ms_users_available st)
                    (t_idx ic := ms_users_available st (t_idx ic) - user_added ic * flag),
                 done_in_j := (done_in_j st)(j := done_in_j st j + activities_added ic * flag) \<rparr> \<rparr>))"

text \<open>
  The loop of \<^verbatim>\<open>get_removable\<close> over the sorted moves towards cell \<open>j\<close>;
  \<open>remove_move\<close> is the move that removes one user of the entry \<open>idx\<close>. The loop
  removes a user only from a positive solution entry, which makes it terminate.
\<close>

definition remove_move :: "coiote_solver \<Rightarrow> four_index \<Rightarrow> improved_move" where
  "remove_move cs idx =
     new_improved_move (idx_i idx) (idx_j idx) (idx_m idx) (idx_t idx) (- 1)
       (- act_per_user (problem cs) (idx_m idx)) (costs (problem cs) idx)"

lemma remove_move_solution:
  "i_solution (snd (add_remove_user (remove_move cs idx) False w)) idx = i_solution w idx - 1"
  by (cases idx)
     (simp add: add_remove_user_def remove_move_def new_improved_move_def Let_def
        idx_i_def idx_j_def idx_m_def idx_t_def)

function get_removable_loop :: "coiote_solver \<Rightarrow> int \<Rightarrow> four_index list \<Rightarrow> improved_move list \<Rightarrow> int
    \<Rightarrow> improve_state \<Rightarrow> int \<times> improved_move list \<times> improve_state" where
  "get_removable_loop cs redundancy ins_idx_iter mvs gain w =
     (if redundancy > 0 then
        (case ins_idx_iter of
           [] \<Rightarrow> (gain, mvs, w)
         | idx # rest \<Rightarrow>
             if act_per_user (problem cs) (idx_m idx) \<le> redundancy \<and> i_solution w idx > 0 then
               get_removable_loop cs (redundancy - act_per_user (problem cs) (idx_m idx)) ins_idx_iter
                 (mvs @ [remove_move cs idx])
                 (gain + fst (add_remove_user (remove_move cs idx) False w))
                 (snd (add_remove_user (remove_move cs idx) False w))
             else get_removable_loop cs redundancy rest mvs gain w)
      else (gain, mvs, w))"
  by pat_completeness auto
termination
  by (relation "measures [\<lambda>(cs, redundancy, it, mvs, gain, w). length it,
                          \<lambda>(cs, redundancy, it, mvs, gain, w). nat (i_solution w (hd it))]")
     (simp_all add: remove_move_solution)

declare get_removable_loop.simps [simp del]

definition get_removable :: "coiote_solver \<Rightarrow> nat \<Rightarrow> improved_move list \<Rightarrow> improve_state
    \<Rightarrow> int \<times> improved_move list \<times> improve_state" where
  "get_removable cs j mvs w =
     (let redundancy = done_in_j (statistics_moves w) j - activities (problem cs) j
      in if redundancy > 0 then
           (let sorted = sort_by (cmp_costs_desc (problem cs)) (moves_to_j (statistics_moves w) j);
                w1 = w\<lparr> statistics_moves := (statistics_moves w)
                         \<lparr> moves_to_j := (moves_to_j (statistics_moves w))(j := sorted) \<rparr> \<rparr>
            in get_removable_loop cs redundancy sorted mvs 0 w1)
         else (0, mvs, w))"

subsection \<open>\<^verbatim>\<open>try_improve\<close>\<close>

definition min_gain :: int where "min_gain = - 4"
definition max_level :: nat where "max_level = 5"
definition max_count :: nat where "max_count = 20"

text \<open>
  The undo loop after a failed candidate walks the list of moves from its last
  element down to position \<open>prev_imp_size\<close> and pops each move it undoes. (The
  source counts down with an unsigned index; \<open>prev_imp_size\<close> is at least \<open>1\<close>
  there, because the move removing the current users is recorded first.)
\<close>

function undo_back :: "nat \<Rightarrow> int \<Rightarrow> improved_move list \<Rightarrow> improve_state
    \<Rightarrow> int \<times> improved_move list \<times> improve_state" where
  "undo_back prev_imp_size gain mvs w =
     (if length mvs > prev_imp_size then
        undo_back prev_imp_size (gain + fst (add_remove_user (last mvs) True w)) (butlast mvs)
          (snd (add_remove_user (last mvs) True w))
      else (gain, mvs, w))"
  by pat_completeness auto
termination
  by (relation "measure (\<lambda>(prev_imp_size, gain, mvs, w). length mvs)") simp_all

declare undo_back.simps [simp del]

text \<open>The final loop of a failed call undoes every recorded move, first to last.\<close>

fun undo_all :: "improved_move list \<Rightarrow> int \<Rightarrow> improve_state \<Rightarrow> int \<times> improve_state" where
  "undo_all [] gain w = (gain, w)"
| "undo_all (ic # rest) gain w =
     undo_all rest (gain + fst (add_remove_user ic True w)) (snd (add_remove_user ic True w))"

definition try_fail :: "ti_parameter \<Rightarrow> improved_move list \<Rightarrow> improve_state
    \<Rightarrow> bool \<times> ti_parameter \<times> improve_state" where
  "try_fail param mvs w =
     (let u = undo_all mvs (obj_gain_so_far param) w
      in (False, param\<lparr> obj_gain_so_far := fst u,
                        considered_cells := butlast (considered_cells param) \<rparr>, snd u))"

definition users_to_add :: "coiote_solver \<Rightarrow> int \<Rightarrow> nat \<Rightarrow> int" where
  "users_to_add cs act_removed new_m =
     \<lceil>(of_int act_removed :: rat) / of_int (act_per_user (problem cs) new_m)\<rceil>"

text \<open>
  One candidate of the scan: add the users of \<open>new_idx\<close> that replace the removed
  activities and prune the excess at cell \<open>j\<close>. The result is the new running gain,
  the extended list of moves and the new state.
\<close>

definition try_add :: "coiote_solver \<Rightarrow> ti_parameter \<Rightarrow> nat \<Rightarrow> four_index \<Rightarrow> int \<Rightarrow> improved_move list
    \<Rightarrow> improve_state \<Rightarrow> int \<times> improved_move list \<times> improve_state" where
  "try_add cs param j new_idx act_removed mvs w =
     (let n = users_to_add cs act_removed (idx_m new_idx);
          curr_cost = costs (problem cs) new_idx * n;
          current_ic = new_improved_move (idx_i new_idx) j (idx_m new_idx) (idx_t new_idx) n
                         (n * act_per_user (problem cs) (idx_m new_idx)) (- curr_cost);
          r = add_remove_user current_ic False w;
          r2 = get_removable cs j (mvs @ [current_ic]) (snd r)
      in (obj_gain_so_far param + fst r + fst r2, fst (snd r2), snd (snd r2)))"

function try_improve :: "coiote_solver \<Rightarrow> ti_parameter \<Rightarrow> improve_state
      \<Rightarrow> bool \<times> ti_parameter \<times> improve_state"
  and try_candidates :: "coiote_solver \<Rightarrow> ti_parameter \<Rightarrow> int \<Rightarrow> nat \<Rightarrow> improved_move list \<Rightarrow> nat
      \<Rightarrow> four_index list \<Rightarrow> improve_state \<Rightarrow> bool \<times> ti_parameter \<times> improve_state"
  and try_siblings :: "coiote_solver \<Rightarrow> ti_parameter \<Rightarrow> nat \<Rightarrow> nat \<Rightarrow> int \<Rightarrow> improved_move list
      \<Rightarrow> four_index list \<Rightarrow> improve_state \<Rightarrow> bool \<times> ti_parameter \<times> improve_state"
where
  "try_improve cs param w =
     (if i_solution w (curr_idx param) < users_to_remove param \<or> it_level param > max_level
         \<or> curr_idx param \<in> set (considered_cells param)
      then (False, param, w)
      else
        (let curr = curr_idx param;
             act_removed = act_per_user (problem cs) (idx_m curr) * users_to_remove param;
             current_ic = new_improved_move (idx_i curr) (idx_j curr) (idx_m curr) (idx_t curr)
                            (- users_to_remove param) (- act_removed)
                            (users_to_remove param * costs (problem cs) curr);
             r = add_remove_user current_ic False w
         in try_candidates cs
              (param\<lparr> considered_cells := considered_cells param @ [curr],
                      obj_gain_so_far := obj_gain_so_far param + fst r \<rparr>)
              act_removed (idx_j curr) [current_ic] 0
              (costs_order (statistics cs) (get_costs_idx cs act_removed) (idx_j curr)) (snd r)))"
| "try_candidates cs param act_removed j mvs cnt co_it w =
     (case co_it of
        [] \<Rightarrow> try_fail param mvs w
      | new_idx # rest \<Rightarrow>
          if new_idx \<in> set (considered_cells param)
             \<or> users_available (problem cs) (idx_i new_idx, idx_m new_idx, idx_t new_idx)
                 < users_to_add cs act_removed (idx_m new_idx)
          then try_candidates cs param act_removed j mvs cnt rest w
          else
            (let a = try_add cs param j new_idx act_removed mvs w;
                 param1 = param\<lparr> obj_gain_so_far := fst a \<rparr>;
                 mvs1 = fst (snd a)
             in if fst a < min_gain \<or> cnt + 1 > max_count then try_fail param1 mvs1 (snd (snd a))
                else
                  (let rt = read_time_finished (snd (snd a))
                   in if fst rt then try_fail param1 mvs1 (snd rt)
                      else
                        (let ua = ms_users_available (statistics_moves (snd rt))
                                    (idx_i new_idx, idx_m new_idx, idx_t new_idx)
                         in if ua \<ge> 0 then
                              (if fst a > 0 then (True, param1\<lparr> imp_moves := mvs1 \<rparr>, snd rt)
                               else
                                 (let u = undo_back (length mvs) (fst a) mvs1 (snd rt)
                                  in try_candidates cs (param\<lparr> obj_gain_so_far := fst u \<rparr>) act_removed j
                                       (fst (snd u)) (cnt + 1) rest (snd (snd u))))
                            else
                              (let s = try_siblings cs param1 (idx_m new_idx) (idx_t new_idx) ua mvs1
                                         (moves_from_i (statistics_moves (snd rt)) (idx_i new_idx)) (snd rt)
                               in if fst s then s
                                  else
                                    (let u = undo_back (length mvs) (fst a) mvs1 (snd (snd s))
                                     in try_candidates cs (param\<lparr> obj_gain_so_far := fst u \<rparr>) act_removed j
                                          (fst (snd u)) (cnt + 1) rest (snd (snd u))))))))"
| "try_siblings cs param new_m new_t ua mvs sibs w =
     (case sibs of
        [] \<Rightarrow> (False, param, w)
      | sib # rest \<Rightarrow>
          if idx_m sib = new_m \<and> idx_t sib = new_t then
            (let r = try_improve cs (next_ti_parameter param sib (- ua)) w
             in if fst r then (True, param\<lparr> imp_moves := mvs @ imp_moves (fst (snd r)) \<rparr>, snd (snd r))
                else try_siblings cs param new_m new_t ua mvs rest (snd (snd r)))
          else try_siblings cs param new_m new_t ua mvs rest w)"
  by pat_completeness auto
termination
  apply (relation "measures
     [\<lambda>x. case x of
             Inl (cs, param, w) \<Rightarrow> 2 * (Suc max_level - it_level param)
           | Inr (Inl (cs, param, act_removed, j, mvs, cnt, co_it, w)) \<Rightarrow>
               max 1 (2 * (Suc max_level - it_level param) - 1)
           | Inr (Inr (cs, param, new_m, new_t, ua, mvs, sibs, w)) \<Rightarrow>
               max 1 (2 * (Suc max_level - it_level param) - 1),
      \<lambda>x. case x of Inl _ \<Rightarrow> 0 | Inr (Inl _) \<Rightarrow> 1 | Inr (Inr _) \<Rightarrow> 0,
      \<lambda>x. case x of
             Inl _ \<Rightarrow> 0
           | Inr (Inl (cs, param, act_removed, j, mvs, cnt, co_it, w)) \<Rightarrow> length co_it
           | Inr (Inr (cs, param, new_m, new_t, ua, mvs, sibs, w)) \<Rightarrow> length sibs]")
         apply (simp_all add: next_ti_parameter_def max_level_def)
   apply linarith+
  done

declare try_improve.simps [simp del] try_candidates.simps [simp del] try_siblings.simps [simp del]

subsection \<open>\<^verbatim>\<open>improving_setup\<close>\<close>

text \<open>
  The four nested loops of \<^verbatim>\<open>improving_setup\<close> visit the indexes with \<open>i \<noteq> j\<close> in
  row-major order; \<open>setup_step\<close> is the body for one index.
\<close>

definition setup_indexes :: "coiote_solver \<Rightarrow> four_index list" where
  "setup_indexes cs =
     [(i, j, m, t). i \<leftarrow> [0..<n_cells cs], j \<leftarrow> [0..<n_cells cs], i \<noteq> j,
                    m \<leftarrow> [0..<n_cust_types cs], t \<leftarrow> [0..<n_time_steps cs]]"

definition setup_step :: "coiote_solver \<Rightarrow> (four_index \<Rightarrow> int) \<Rightarrow> moves_statistics \<Rightarrow> four_index
    \<Rightarrow> moves_statistics" where
  "setup_step cs sol ms idx =
     (let x = sol idx
      in if x = 0 then ms
         else ms\<lparr> ms_users_available := (ms_users_available ms)
                     (three_of idx := ms_users_available ms (three_of idx) - x),
                  moves_from_i := (moves_from_i ms)(idx_i idx := moves_from_i ms (idx_i idx) @ [idx]),
                  moves_to_j := (moves_to_j ms)(idx_j idx := moves_to_j ms (idx_j idx) @ [idx]),
                  moves := moves ms @ [idx],
                  done_in_j := (done_in_j ms)
                     (idx_j idx := done_in_j ms (idx_j idx) + x * act_per_user (problem cs) (idx_m idx)) \<rparr>)"

definition new_moves_statistics :: "coiote_solver \<Rightarrow> moves_statistics" where
  "new_moves_statistics cs =
     \<lparr> ms_users_available = users_available (problem cs), moves = [],
       moves_from_i = (\<lambda>i. []), moves_to_j = (\<lambda>j. []), done_in_j = (\<lambda>j. 0) \<rparr>"

definition improving_setup :: "coiote_solver \<Rightarrow> (four_index \<Rightarrow> int) \<Rightarrow> moves_statistics" where
  "improving_setup cs sol = foldl (setup_step cs sol) (new_moves_statistics cs) (setup_indexes cs)"

subsection \<open>Effects of the moves\<close>

lemma add_remove_user_fields:
  "i_solution (snd (add_remove_user ic undo w)) =
     (i_solution w)(f_idx ic := i_solution w (f_idx ic) + user_added ic * (if undo then - 1 else 1))"
  "ms_users_available (statistics_moves (snd (add_remove_user ic undo w))) =
     (ms_users_available (statistics_moves w))
       (t_idx ic := ms_users_available (statistics_moves w) (t_idx ic) - user_added ic * (if undo then - 1 else 1))"
  "done_in_j (statistics_moves (snd (add_remove_user ic undo w))) =
     (done_in_j (statistics_moves w))
       (idx_j (f_idx ic) := done_in_j (statistics_moves w) (idx_j (f_idx ic))
                            + activities_added ic * (if undo then - 1 else 1))"
  "moves (statistics_moves (snd (add_remove_user ic undo w))) = moves (statistics_moves w)"
  "moves_from_i (statistics_moves (snd (add_remove_user ic undo w))) = moves_from_i (statistics_moves w)"
  "moves_to_j (statistics_moves (snd (add_remove_user ic undo w))) = moves_to_j (statistics_moves w)"
  "time_left (snd (add_remove_user ic undo w)) = time_left w"
  by (simp_all add: add_remove_user_def Let_def)

lemma get_removable_loop_time:
  "time_left (snd (snd (get_removable_loop cs redundancy it mvs gain w))) = time_left w"
proof (induction cs redundancy it mvs gain w rule: get_removable_loop.induct)
  case (1 cs redundancy it mvs gain w)
  show ?case
  proof (cases "0 < redundancy")
    case False
    then show ?thesis by (subst get_removable_loop.simps) simp
  next
    case pos: True
    show ?thesis
    proof (cases it)
      case Nil
      then show ?thesis by (subst get_removable_loop.simps) simp
    next
      case (Cons idx rest)
      show ?thesis
      proof (cases "act_per_user (problem cs) (idx_m idx) \<le> redundancy \<and> i_solution w idx > 0")
        case True
        then show ?thesis using "1.IH"(1)[OF pos Cons True] pos Cons
          by (subst get_removable_loop.simps) (simp add: add_remove_user_fields)
      next
        case False
        then show ?thesis using "1.IH"(2)[OF pos Cons False] pos Cons
          by (subst get_removable_loop.simps) auto
      qed
    qed
  qed
qed

lemma get_removable_time: "time_left (snd (snd (get_removable cs j mvs w))) = time_left w"
  by (simp add: get_removable_def Let_def get_removable_loop_time)

lemma try_add_time: "time_left (snd (snd (try_add cs param j new_idx act_removed mvs w))) = time_left w"
  by (simp add: try_add_def Let_def get_removable_time add_remove_user_fields)

lemma undo_back_time: "time_left (snd (snd (undo_back prev gain mvs w))) = time_left w"
proof (induction prev gain mvs w rule: undo_back.induct)
  case (1 prev gain mvs w)
  show ?case by (subst undo_back.simps) (simp add: 1 add_remove_user_fields)
qed

lemma undo_all_time: "time_left (snd (undo_all mvs gain w)) = time_left w"
  by (induction mvs gain w rule: undo_all.induct) (simp_all add: add_remove_user_fields)

lemma try_fail_time: "time_left (snd (snd (try_fail param mvs w))) = time_left w"
  by (simp add: try_fail_def Let_def undo_all_time)

lemma read_time_finished_fields:
  "fst (read_time_finished w) = (time_left w = 0)"
  "time_left (snd (read_time_finished w)) = time_left w - 1"
  "i_solution (snd (read_time_finished w)) = i_solution w"
  "statistics_moves (snd (read_time_finished w)) = statistics_moves w"
  by (simp_all add: read_time_finished_def)

lemma try_improve_time:
  "time_left (snd (snd (try_improve cs param w))) \<le> time_left w"
  and try_candidates_time:
  "time_left (snd (snd (try_candidates cs param act_removed j mvs cnt co_it w))) \<le> time_left w"
  and try_siblings_time:
  "time_left (snd (snd (try_siblings cs param new_m new_t ua mvs sibs w))) \<le> time_left w"
proof (induction cs param w and cs param act_removed j mvs cnt co_it w
         and cs param new_m new_t ua mvs sibs w
       rule: try_improve_try_candidates_try_siblings.induct)
  case (1 cs param w)
  show ?case
  proof (cases "i_solution w (curr_idx param) < users_to_remove param \<or> it_level param > max_level
         \<or> curr_idx param \<in> set (considered_cells param)")
    case True
    then show ?thesis by (subst try_improve.simps) simp
  next
    case False
    show ?thesis
      using "1"[OF False refl refl refl refl] False
      by (subst try_improve.simps) (simp add: Let_def add_remove_user_fields)
  qed
next
  case (2 cs param act_removed j mvs cnt co_it w)
  show ?case
  proof (cases co_it)
    case Nil
    then show ?thesis by (subst try_candidates.simps) (simp add: try_fail_time)
  next
    case (Cons new_idx rest)
    let ?skip = "new_idx \<in> set (considered_cells param)
             \<or> users_available (problem cs) (idx_i new_idx, idx_m new_idx, idx_t new_idx)
                 < users_to_add cs act_removed (idx_m new_idx)"
    show ?thesis
    proof (cases ?skip)
      case True
      then show ?thesis using "2.IH"(1)[OF Cons True] Cons
        by (subst try_candidates.simps) simp
    next
      case ns: False
      let ?a = "try_add cs param j new_idx act_removed mvs w"
      let ?p1 = "param\<lparr> obj_gain_so_far := fst ?a \<rparr>"
      let ?rt = "read_time_finished (snd (snd ?a))"
      let ?ua = "ms_users_available (statistics_moves (snd ?rt)) (idx_i new_idx, idx_m new_idx, idx_t new_idx)"
      have ta: "time_left (snd (snd ?a)) = time_left w" by (rule try_add_time)
      have tr: "time_left (snd ?rt) \<le> time_left w" using ta by (simp add: read_time_finished_fields)
      show ?thesis
      proof (cases "fst ?a < min_gain \<or> cnt + 1 > max_count")
        case True
        then show ?thesis using Cons ns ta
          by (subst try_candidates.simps) (simp add: Let_def try_fail_time)
      next
        case nb: False
        show ?thesis
        proof (cases "fst ?rt")
          case True
          then show ?thesis using Cons ns nb tr
            by (subst try_candidates.simps) (simp add: Let_def try_fail_time)
        next
          case nt: False
          show ?thesis
          proof (cases "0 \<le> ?ua")
            case av: True
            show ?thesis
            proof (cases "0 < fst ?a")
              case True
              then show ?thesis using Cons ns nb nt av tr
                by (subst try_candidates.simps) (simp add: Let_def)
            next
              case ng: False
              let ?u = "undo_back (length mvs) (fst ?a) (fst (snd ?a)) (snd ?rt)"
              have "time_left (snd (snd ?u)) \<le> time_left w" using tr by (simp add: undo_back_time)
              then show ?thesis
                using "2.IH"(2)[OF Cons ns refl refl refl nb refl nt refl av ng refl] Cons ns nb nt av ng
                by (subst try_candidates.simps) (simp add: Let_def)
            qed
          next
            case na: False
            let ?s = "try_siblings cs ?p1 (idx_m new_idx) (idx_t new_idx) ?ua (fst (snd ?a))
                        (moves_from_i (statistics_moves (snd ?rt)) (idx_i new_idx)) (snd ?rt)"
            have ts: "time_left (snd (snd ?s)) \<le> time_left w"
              using "2.IH"(3)[OF Cons ns refl refl refl nb refl nt refl na] tr by simp
            show ?thesis
            proof (cases "fst ?s")
              case True
              then show ?thesis using Cons ns nb nt na ts
                by (subst try_candidates.simps) (simp add: Let_def)
            next
              case nf: False
              let ?u = "undo_back (length mvs) (fst ?a) (fst (snd ?a)) (snd (snd ?s))"
              have "time_left (snd (snd ?u)) \<le> time_left w" using ts by (simp add: undo_back_time)
              then show ?thesis
                using "2.IH"(4)[OF Cons ns refl refl refl nb refl nt refl na refl nf refl]
                  Cons ns nb nt na nf
                by (subst try_candidates.simps) (simp add: Let_def)
            qed
          qed
        qed
      qed
    qed
  qed
next
  case (3 cs param new_m new_t ua mvs sibs w)
  show ?case
  proof (cases sibs)
    case Nil
    then show ?thesis by (subst try_siblings.simps) simp
  next
    case (Cons sib rest)
    show ?thesis
    proof (cases "idx_m sib = new_m \<and> idx_t sib = new_t")
      case False
      then show ?thesis using "3.IH"(3)[OF Cons False] Cons by (subst try_siblings.simps) auto
    next
      case True
      let ?r = "try_improve cs (next_ti_parameter param sib (- ua)) w"
      have tr: "time_left (snd (snd ?r)) \<le> time_left w" using "3.IH"(1)[OF Cons True] .
      show ?thesis
      proof (cases "fst ?r")
        case s: True
        then show ?thesis using Cons True tr by (subst try_siblings.simps) (simp add: Let_def)
      next
        case f: False
        have "time_left (snd (snd (try_siblings cs param new_m new_t ua mvs rest (snd (snd ?r)))))
                \<le> time_left (snd (snd ?r))"
          using "3.IH"(2)[OF Cons True refl f] .
        then show ?thesis using Cons True f tr by (subst try_siblings.simps) (simp add: Let_def)
      qed
    qed
  qed
qed

subsection \<open>Undo correctness\<close>

text \<open>
  The three tables a move touches are the solution, the residual supply and the
  activities done in each cell. \<open>same_frame\<close> states that two states agree on
  them. \<open>moved mvs w0 w\<close> states that \<open>w\<close> differs from \<open>w0\<close> on these tables by
  the sum of the moves \<open>mvs\<close>.
\<close>

definition same_frame :: "improve_state \<Rightarrow> improve_state \<Rightarrow> bool" where
  "same_frame w w' =
     (i_solution w = i_solution w' \<and>
      ms_users_available (statistics_moves w) = ms_users_available (statistics_moves w') \<and>
      done_in_j (statistics_moves w) = done_in_j (statistics_moves w'))"

definition dsol :: "improved_move list \<Rightarrow> four_index \<Rightarrow> int" where
  "dsol mvs idx = (\<Sum>ic\<leftarrow>mvs. if f_idx ic = idx then user_added ic else 0)"

definition dua :: "improved_move list \<Rightarrow> three_index \<Rightarrow> int" where
  "dua mvs b = (\<Sum>ic\<leftarrow>mvs. if t_idx ic = b then user_added ic else 0)"

definition ddone :: "improved_move list \<Rightarrow> nat \<Rightarrow> int" where
  "ddone mvs j = (\<Sum>ic\<leftarrow>mvs. if idx_j (f_idx ic) = j then activities_added ic else 0)"

definition moved :: "improved_move list \<Rightarrow> improve_state \<Rightarrow> improve_state \<Rightarrow> bool" where
  "moved mvs w0 w =
     ((\<forall>idx. i_solution w idx = i_solution w0 idx + dsol mvs idx) \<and>
      (\<forall>b. ms_users_available (statistics_moves w) b
              = ms_users_available (statistics_moves w0) b - dua mvs b) \<and>
      (\<forall>j. done_in_j (statistics_moves w) j = done_in_j (statistics_moves w0) j + ddone mvs j))"

lemma same_frame_refl: "same_frame w w"
  by (simp add: same_frame_def)

lemma same_frame_sym: "same_frame w w' \<Longrightarrow> same_frame w' w"
  by (simp add: same_frame_def)

lemma same_frame_trans: "same_frame w w' \<Longrightarrow> same_frame w' w'' \<Longrightarrow> same_frame w w''"
  by (simp add: same_frame_def)

lemma same_frame_read: "same_frame (snd (read_time_finished w)) w"
  by (simp add: same_frame_def read_time_finished_fields)

lemma movedD:
  assumes "moved mvs w0 w"
  shows "i_solution w idx = i_solution w0 idx + dsol mvs idx"
    and "ms_users_available (statistics_moves w) b
           = ms_users_available (statistics_moves w0) b - dua mvs b"
    and "done_in_j (statistics_moves w) j = done_in_j (statistics_moves w0) j + ddone mvs j"
  using assms unfolding moved_def by blast+

lemma movedI:
  assumes "\<And>idx. i_solution w idx = i_solution w0 idx + dsol mvs idx"
    and "\<And>b. ms_users_available (statistics_moves w) b
           = ms_users_available (statistics_moves w0) b - dua mvs b"
    and "\<And>j. done_in_j (statistics_moves w) j = done_in_j (statistics_moves w0) j + ddone mvs j"
  shows "moved mvs w0 w"
  using assms unfolding moved_def by blast

lemma deltas_nil: "dsol [] idx = 0" "dua [] b = 0" "ddone [] j = 0"
  by (simp_all add: dsol_def dua_def ddone_def)

lemma deltas_append:
  "dsol (mvs @ [ic]) idx = dsol mvs idx + (if f_idx ic = idx then user_added ic else 0)"
  "dua (mvs @ [ic]) b = dua mvs b + (if t_idx ic = b then user_added ic else 0)"
  "ddone (mvs @ [ic]) j = ddone mvs j + (if idx_j (f_idx ic) = j then activities_added ic else 0)"
  by (simp_all add: dsol_def dua_def ddone_def)

lemma deltas_Cons:
  "dsol (ic # mvs) idx = (if f_idx ic = idx then user_added ic else 0) + dsol mvs idx"
  "dua (ic # mvs) b = (if t_idx ic = b then user_added ic else 0) + dua mvs b"
  "ddone (ic # mvs) j = (if idx_j (f_idx ic) = j then activities_added ic else 0) + ddone mvs j"
  by (simp_all add: dsol_def dua_def ddone_def)

lemma moved_nil: "moved [] w w"
  by (rule movedI) (simp_all add: deltas_nil)

lemma moved_same_frame: "moved mvs w0 w \<Longrightarrow> same_frame w' w \<Longrightarrow> moved mvs w0 w'"
  by (rule movedI) (simp_all add: movedD same_frame_def)

lemma moved_nil_frame: "moved [] w0 w \<Longrightarrow> same_frame w w0"
  unfolding same_frame_def by (intro conjI ext) (simp_all add: movedD deltas_nil)

lemma moved_add: "moved mvs w0 w \<Longrightarrow> moved (mvs @ [ic]) w0 (snd (add_remove_user ic False w))"
  by (rule movedI) (simp_all add: movedD add_remove_user_fields deltas_append)

lemma moved_undo_last: "moved (mvs @ [ic]) w0 w \<Longrightarrow> moved mvs w0 (snd (add_remove_user ic True w))"
  by (rule movedI) (simp_all add: movedD add_remove_user_fields deltas_append)

lemma undo_all_fields:
  "i_solution (snd (undo_all mvs gain w)) idx = i_solution w idx - dsol mvs idx"
  "ms_users_available (statistics_moves (snd (undo_all mvs gain w))) b
     = ms_users_available (statistics_moves w) b + dua mvs b"
  "done_in_j (statistics_moves (snd (undo_all mvs gain w))) j
     = done_in_j (statistics_moves w) j - ddone mvs j"
  by (induction mvs gain w rule: undo_all.induct)
     (simp_all add: add_remove_user_fields deltas_Cons dsol_def dua_def ddone_def)

lemma moved_undo_all: "moved mvs w0 w \<Longrightarrow> same_frame (snd (undo_all mvs gain w)) w0"
  unfolding same_frame_def by (intro conjI ext) (simp_all add: undo_all_fields movedD)

lemma try_fail_frame: "moved mvs w0 w \<Longrightarrow> same_frame (snd (snd (try_fail param mvs w))) w0"
  by (simp add: try_fail_def Let_def moved_undo_all)

lemma try_fail_fails: "\<not> fst (try_fail param mvs w)"
  by (simp add: try_fail_def Let_def)

lemma get_removable_loop_moved:
  "moved mvs w0 w \<Longrightarrow>
     moved (fst (snd (get_removable_loop cs redundancy it mvs gain w))) w0
           (snd (snd (get_removable_loop cs redundancy it mvs gain w))) \<and>
     (\<exists>extra. fst (snd (get_removable_loop cs redundancy it mvs gain w)) = mvs @ extra)"
proof (induction cs redundancy it mvs gain w rule: get_removable_loop.induct)
  case (1 cs redundancy it mvs gain w)
  show ?case
  proof (cases "0 < redundancy")
    case False
    then show ?thesis using "1.prems" by (subst (1 2 3) get_removable_loop.simps) simp
  next
    case pos: True
    show ?thesis
    proof (cases it)
      case Nil
      then show ?thesis using "1.prems" by (subst (1 2 3) get_removable_loop.simps) simp
    next
      case (Cons idx rest)
      show ?thesis
      proof (cases "act_per_user (problem cs) (idx_m idx) \<le> redundancy \<and> i_solution w idx > 0")
        case True
        have "moved (mvs @ [remove_move cs idx]) w0 (snd (add_remove_user (remove_move cs idx) False w))"
          using "1.prems" by (rule moved_add)
        from "1.IH"(1)[OF pos Cons True this] show ?thesis using pos Cons True
          by (subst (1 2 3) get_removable_loop.simps) auto
      next
        case False
        from "1.IH"(2)[OF pos Cons False "1.prems"] show ?thesis using pos Cons False
          by (subst (1 2 3) get_removable_loop.simps) auto
      qed
    qed
  qed
qed

lemma get_removable_moved:
  assumes "moved mvs w0 w"
  shows "moved (fst (snd (get_removable cs j mvs w))) w0 (snd (snd (get_removable cs j mvs w)))"
    and "\<exists>extra. fst (snd (get_removable cs j mvs w)) = mvs @ extra"
proof -
  let ?w1 = "w\<lparr> statistics_moves := (statistics_moves w)
                 \<lparr> moves_to_j := (moves_to_j (statistics_moves w))
                      (j := sort_by (cmp_costs_desc (problem cs)) (moves_to_j (statistics_moves w) j)) \<rparr> \<rparr>"
  have "moved mvs w0 ?w1" by (rule movedI) (simp_all add: movedD[OF assms])
  note L = get_removable_loop_moved[OF this]
  show "moved (fst (snd (get_removable cs j mvs w))) w0 (snd (snd (get_removable cs j mvs w)))"
    using L assms by (simp add: get_removable_def Let_def)
  show "\<exists>extra. fst (snd (get_removable cs j mvs w)) = mvs @ extra"
    using L by (simp add: get_removable_def Let_def)
qed

lemma try_add_moved:
  assumes "moved mvs w0 w"
  shows "moved (fst (snd (try_add cs param j new_idx act_removed mvs w))) w0
               (snd (snd (try_add cs param j new_idx act_removed mvs w)))"
    and "\<exists>extra. fst (snd (try_add cs param j new_idx act_removed mvs w)) = mvs @ extra"
proof -
  let ?n = "users_to_add cs act_removed (idx_m new_idx)"
  let ?ic = "new_improved_move (idx_i new_idx) j (idx_m new_idx) (idx_t new_idx) ?n
                         (?n * act_per_user (problem cs) (idx_m new_idx))
                         (- (costs (problem cs) new_idx * ?n))"
  note G = get_removable_moved[OF moved_add[OF assms, of ?ic], of cs j]
  show "moved (fst (snd (try_add cs param j new_idx act_removed mvs w))) w0
               (snd (snd (try_add cs param j new_idx act_removed mvs w)))"
    using G(1) by (simp add: try_add_def Let_def)
  obtain extra where "fst (snd (get_removable cs j (mvs @ [?ic]) (snd (add_remove_user ?ic False w))))
      = (mvs @ [?ic]) @ extra" using G(2) by blast
  then show "\<exists>extra. fst (snd (try_add cs param j new_idx act_removed mvs w)) = mvs @ extra"
    by (simp add: try_add_def Let_def)
qed

lemma undo_back_moved:
  "moved (mvs @ extra) w0 w \<Longrightarrow>
     fst (snd (undo_back (length mvs) gain (mvs @ extra) w)) = mvs \<and>
     moved mvs w0 (snd (snd (undo_back (length mvs) gain (mvs @ extra) w)))"
proof (induction extra arbitrary: gain w rule: rev_induct)
  case Nil
  then show ?case by (subst (1 2) undo_back.simps) simp
next
  case (snoc ic extra)
  have m: "moved (mvs @ extra) w0 (snd (add_remove_user ic True w))"
    using snoc.prems moved_undo_last[of "mvs @ extra" ic w0 w] by simp
  have l: "last (mvs @ extra @ [ic]) = ic" "butlast (mvs @ extra @ [ic]) = mvs @ extra"
    by (simp_all add: butlast_append)
  show ?case using snoc.IH[OF m] l
    by (subst (1 2) undo_back.simps) simp
qed

lemma try_improve_frame:
  "\<not> fst (try_improve cs param w) \<longrightarrow> same_frame (snd (snd (try_improve cs param w))) w"
  and try_candidates_frame:
  "\<forall>w0. moved mvs w0 w \<longrightarrow> \<not> fst (try_candidates cs param act_removed j mvs cnt co_it w)
       \<longrightarrow> same_frame (snd (snd (try_candidates cs param act_removed j mvs cnt co_it w))) w0"
  and try_siblings_frame:
  "\<not> fst (try_siblings cs param new_m new_t ua mvs sibs w)
     \<longrightarrow> same_frame (snd (snd (try_siblings cs param new_m new_t ua mvs sibs w))) w"
proof (induction cs param w and cs param act_removed j mvs cnt co_it w
         and cs param new_m new_t ua mvs sibs w
       rule: try_improve_try_candidates_try_siblings.induct)
  case (1 cs param w)
  show ?case
  proof (cases "i_solution w (curr_idx param) < users_to_remove param \<or> it_level param > max_level
         \<or> curr_idx param \<in> set (considered_cells param)")
    case True
    then show ?thesis by (subst (1 2) try_improve.simps) (simp add: same_frame_refl)
  next
    case False
    let ?curr = "curr_idx param"
    let ?act = "act_per_user (problem cs) (idx_m ?curr) * users_to_remove param"
    let ?ic = "new_improved_move (idx_i ?curr) (idx_j ?curr) (idx_m ?curr) (idx_t ?curr)
                 (- users_to_remove param) (- ?act) (users_to_remove param * costs (problem cs) ?curr)"
    have "moved ([] @ [?ic]) w (snd (add_remove_user ?ic False w))"
      using moved_nil by (rule moved_add)
    then have m: "moved [?ic] w (snd (add_remove_user ?ic False w))" by simp
    show ?thesis
      using "1"[OF False refl refl refl refl] False m
      by (subst (1 2) try_improve.simps) (simp add: Let_def)
  qed
next
  case (2 cs param act_removed j mvs cnt co_it w)
  show ?case
  proof (intro allI impI)
    fix w0
    assume mv: "moved mvs w0 w"
    assume nf0: "\<not> fst (try_candidates cs param act_removed j mvs cnt co_it w)"
    show "same_frame (snd (snd (try_candidates cs param act_removed j mvs cnt co_it w))) w0"
    proof (cases co_it)
      case Nil
      then show ?thesis using mv by (subst try_candidates.simps) (simp add: try_fail_frame)
    next
      case (Cons new_idx rest)
      let ?skip = "new_idx \<in> set (considered_cells param)
               \<or> users_available (problem cs) (idx_i new_idx, idx_m new_idx, idx_t new_idx)
                   < users_to_add cs act_removed (idx_m new_idx)"
      show ?thesis
      proof (cases ?skip)
        case True
        have e: "try_candidates cs param act_removed j mvs cnt co_it w
                  = try_candidates cs param act_removed j mvs cnt rest w"
          using True Cons by (subst try_candidates.simps) simp
        show ?thesis using "2.IH"(1)[OF Cons True] mv nf0 unfolding e by blast
      next
        case ns: False
        let ?a = "try_add cs param j new_idx act_removed mvs w"
        let ?p1 = "param\<lparr> obj_gain_so_far := fst ?a \<rparr>"
        let ?rt = "read_time_finished (snd (snd ?a))"
        let ?ua = "ms_users_available (statistics_moves (snd ?rt)) (idx_i new_idx, idx_m new_idx, idx_t new_idx)"
        have ma: "moved (fst (snd ?a)) w0 (snd (snd ?a))" using mv by (rule try_add_moved(1))
        have mr: "moved (fst (snd ?a)) w0 (snd ?rt)"
          using ma same_frame_read by (rule moved_same_frame)
        obtain extra where ex: "fst (snd ?a) = mvs @ extra" using try_add_moved(2)[OF mv] by blast
        show ?thesis
        proof (cases "fst ?a < min_gain \<or> cnt + 1 > max_count")
          case True
          then show ?thesis using Cons ns ma
            by (subst try_candidates.simps) (simp add: Let_def try_fail_frame)
        next
          case nb: False
          show ?thesis
          proof (cases "fst ?rt")
            case True
            then show ?thesis using Cons ns nb mr
              by (subst try_candidates.simps) (simp add: Let_def try_fail_frame)
          next
            case nt: False
            show ?thesis
            proof (cases "0 \<le> ?ua")
              case av: True
              show ?thesis
              proof (cases "0 < fst ?a")
                case True
                have "fst (try_candidates cs param act_removed j mvs cnt co_it w)"
                  using True Cons ns nb nt av by (subst try_candidates.simps) (simp add: Let_def)
                then show ?thesis using nf0 by simp
              next
                case ng: False
                let ?u = "undo_back (length mvs) (fst ?a) (fst (snd ?a)) (snd ?rt)"
                let ?rec = "try_candidates cs (param\<lparr> obj_gain_so_far := fst ?u \<rparr>) act_removed j
                              (fst (snd ?u)) (cnt + 1) rest (snd (snd ?u))"
                have e: "try_candidates cs param act_removed j mvs cnt co_it w = ?rec"
                  using Cons ns nb nt av ng by (subst try_candidates.simps) (simp add: Let_def)
                have mu: "moved (fst (snd ?u)) w0 (snd (snd ?u))"
                  using undo_back_moved[of mvs extra w0 "snd ?rt" "fst ?a"] mr ex by simp
                show ?thesis
                  using "2.IH"(2)[OF Cons ns refl refl refl nb refl nt refl av ng refl] mu nf0
                  unfolding e by blast
              qed
            next
              case na: False
              let ?s = "try_siblings cs ?p1 (idx_m new_idx) (idx_t new_idx) ?ua (fst (snd ?a))
                          (moves_from_i (statistics_moves (snd ?rt)) (idx_i new_idx)) (snd ?rt)"
              show ?thesis
              proof (cases "fst ?s")
                case True
                have "fst (try_candidates cs param act_removed j mvs cnt co_it w)"
                  using True Cons ns nb nt na by (subst try_candidates.simps) (simp add: Let_def)
                then show ?thesis using nf0 by simp
              next
                case nf: False
                have fs: "same_frame (snd (snd ?s)) (snd ?rt)"
                  using "2.IH"(3)[OF Cons ns refl refl refl nb refl nt refl na] nf by blast
                have ms: "moved (fst (snd ?a)) w0 (snd (snd ?s))"
                  using mr fs by (rule moved_same_frame)
                let ?u = "undo_back (length mvs) (fst ?a) (fst (snd ?a)) (snd (snd ?s))"
                let ?rec = "try_candidates cs (param\<lparr> obj_gain_so_far := fst ?u \<rparr>) act_removed j
                              (fst (snd ?u)) (cnt + 1) rest (snd (snd ?u))"
                have e: "try_candidates cs param act_removed j mvs cnt co_it w = ?rec"
                  using Cons ns nb nt na nf by (subst try_candidates.simps) (simp add: Let_def)
                have mu: "moved (fst (snd ?u)) w0 (snd (snd ?u))"
                  using undo_back_moved[of mvs extra w0 "snd (snd ?s)" "fst ?a"] ms ex by simp
                show ?thesis
                  using "2.IH"(4)[OF Cons ns refl refl refl nb refl nt refl na refl nf refl] mu nf0
                  unfolding e by blast
              qed
            qed
          qed
        qed
      qed
    qed
  qed
next
  case (3 cs param new_m new_t ua mvs sibs w)
  show ?case
  proof (cases sibs)
    case Nil
    then show ?thesis by (subst (1 2) try_siblings.simps) (simp add: same_frame_refl)
  next
    case (Cons sib rest)
    show ?thesis
    proof (cases "idx_m sib = new_m \<and> idx_t sib = new_t")
      case False
      have e: "try_siblings cs param new_m new_t ua mvs sibs w
                = try_siblings cs param new_m new_t ua mvs rest w"
        using Cons False by (subst try_siblings.simps) auto
      show ?thesis using "3.IH"(3)[OF Cons False] unfolding e .
    next
      case True
      let ?r = "try_improve cs (next_ti_parameter param sib (- ua)) w"
      show ?thesis
      proof (cases "fst ?r")
        case s: True
        have "fst (try_siblings cs param new_m new_t ua mvs sibs w)"
          using s Cons True by (subst try_siblings.simps) (simp add: Let_def)
        then show ?thesis by simp
      next
        case f: False
        have e: "try_siblings cs param new_m new_t ua mvs sibs w
                  = try_siblings cs param new_m new_t ua mvs rest (snd (snd ?r))"
          using Cons True f by (subst try_siblings.simps) (simp add: Let_def)
        have f1: "same_frame (snd (snd ?r)) w" using "3.IH"(1)[OF Cons True] f by blast
        show ?thesis using "3.IH"(2)[OF Cons True refl f] f1 unfolding e
          by (blast intro: same_frame_trans)
      qed
    qed
  qed
qed

text \<open>
  An instance on which a call fails after trying a candidate: one user of type \<open>1\<close>
  (three activities, cost \<open>45\<close>) serves cell \<open>1\<close>; replacing that user needs three
  users of type \<open>0\<close> at cost \<open>16\<close> each, a gain of \<open>-3\<close>.
\<close>

definition undo_problem :: input_problem where
  "undo_problem =
     \<lparr> costs = (\<lambda>idx. if idx = (0, 1, 0, 0) then 16 else if idx = (0, 1, 1, 0) then 45 else 0),
       users_available = (\<lambda>b. if b = (0, 0, 0) then 3 else if b = (0, 1, 0) then 1 else 0),
       activities = (\<lambda>j. if j = 1 then 3 else 0),
       act_per_user = (\<lambda>m. if m = 0 then 1 else 3) \<rparr>"

definition undo_solver :: coiote_solver where
  "undo_solver = initialization_phase (new_coiote_solver 2 1 2 undo_problem)"

definition undo_solution :: "four_index \<Rightarrow> int" where
  "undo_solution = (\<lambda>idx. if idx = (0, 1, 1, 0) then 1 else 0)"

definition undo_state :: improve_state where
  "undo_state = \<lparr> i_solution = undo_solution,
                  statistics_moves = improving_setup undo_solver undo_solution, time_left = 100 \<rparr>"

definition undo_result :: "bool \<times> ti_parameter \<times> improve_state" where
  "undo_result = try_improve undo_solver (new_ti_parameter (0, 1, 1, 0) 1) undo_state"

lemma undo_result_fails:
  "\<not> fst undo_result \<and> time_left (snd (snd undo_result)) = 99"
  unfolding undo_result_def by code_simp

text \<open>
  Claim C3 (undo correctness): for every entry state, whenever \<open>try_improve\<close> returns
  false, the solution array, the residual supply table of the moves statistics and
  the per-cell activity counts \<open>done_in_j\<close> are equal to their values at entry to
  the call.
\<close>

theorem C3_undo_correctness:
  "try_improve cs param w = (False, param', w') \<Longrightarrow>
     i_solution w' = i_solution w \<and>
     ms_users_available (statistics_moves w') = ms_users_available (statistics_moves w) \<and>
     done_in_j (statistics_moves w') = done_in_j (statistics_moves w)"
  using try_improve_frame[of cs param w] by (simp add: same_frame_def)

theorem C3_undo_correctness_witness:
  "undo_result = (False, fst (snd undo_result), snd (snd undo_result)) \<and>
   i_solution (snd (snd undo_result)) = i_solution undo_state \<and>
   ms_users_available (statistics_moves (snd (snd undo_result)))
     = ms_users_available (statistics_moves undo_state) \<and>
   done_in_j (statistics_moves (snd (snd undo_result))) = done_in_j (statistics_moves undo_state)"
proof -
  have e: "undo_result = (False, fst (snd undo_result), snd (snd undo_result))"
    using undo_result_fails by (simp add: prod_eq_iff)
  then have "try_improve undo_solver (new_ti_parameter (0, 1, 1, 0) 1) undo_state
               = (False, fst (snd undo_result), snd (snd undo_result))"
    unfolding undo_result_def .
  from C3_undo_correctness[OF this] e show ?thesis by simp
qed

subsection \<open>Activities done in a cell and users moved from a group\<close>

text \<open>
  The sums of the feasibility conditions (they are the sums \<^verbatim>\<open>is_feasible\<close>
  computes): \<open>done_in cs sol j\<close> is the number of activities the solution \<open>sol\<close>
  performs in the destination cell \<open>j\<close>, \<open>moved_from cs sol (i, m, t)\<close> is the
  number of users of the group \<open>(i, m, t)\<close> it moves, and \<open>total_cost cs sol\<close> is
  the cost of all its moves.
\<close>

definition done_in :: "coiote_solver \<Rightarrow> (four_index \<Rightarrow> int) \<Rightarrow> nat \<Rightarrow> int" where
  "done_in cs sol j =
     (\<Sum>i<n_cells cs. \<Sum>m<n_cust_types cs. \<Sum>t<n_time_steps cs.
        act_per_user (problem cs) m * sol (i, j, m, t))"

definition moved_from :: "coiote_solver \<Rightarrow> (four_index \<Rightarrow> int) \<Rightarrow> three_index \<Rightarrow> int" where
  "moved_from cs sol b = (\<Sum>j<n_cells cs. sol (fst b, j, fst (snd b), snd (snd b)))"

definition total_cost :: "coiote_solver \<Rightarrow> (four_index \<Rightarrow> int) \<Rightarrow> int" where
  "total_cost cs sol =
     (\<Sum>i<n_cells cs. \<Sum>j<n_cells cs. \<Sum>m<n_cust_types cs. \<Sum>t<n_time_steps cs.
        costs (problem cs) (i, j, m, t) * sol (i, j, m, t))"

subsection \<open>\<^verbatim>\<open>improving_phase\<close>\<close>

text \<open>
  The three nested loops of \<^verbatim>\<open>improving_phase\<close>, innermost first. Every loop
  condition reads the flag \<^verbatim>\<open>time_finished\<close> (after the test of the loop index);
  the \<^verbatim>\<open>while\<close> loop repeats \<^verbatim>\<open>try_improve\<close> on the cleared parameter as long
  as it succeeds, and terminates because every iteration reads the flag. The list
  of moves the outer loop walks is not changed by the search.
\<close>

function improve_while :: "coiote_solver \<Rightarrow> ti_parameter \<Rightarrow> int \<Rightarrow> improve_state \<Rightarrow> int \<times> improve_state" where
  "improve_while cs param improvement w =
     (let rt = read_time_finished w
      in if fst rt then (improvement, snd rt)
         else
           (let r = try_improve cs param (snd rt)
            in if fst r
               then improve_while cs (clear (fst (snd r)))
                      (improvement + sum_list (map obj_gain (imp_moves (fst (snd r))))) (snd (snd r))
               else (improvement, snd (snd r))))"
  by pat_completeness auto
termination
proof (relation "measure (\<lambda>(cs, param, improvement, w). time_left w)")
  show "wf (measure (\<lambda>(cs, param, improvement, w). time_left w))" by simp
next
  fix cs :: coiote_solver and param :: ti_parameter and improvement :: int and w :: improve_state
    and rt r
  assume rt: "rt = read_time_finished w" and nf: "\<not> fst rt"
    and r: "r = try_improve cs param (snd rt)" and "fst r"
  have "time_left (snd (snd r)) \<le> time_left (snd rt)" unfolding r by (rule try_improve_time)
  moreover have "time_left (snd rt) < time_left w"
    using nf unfolding rt by (simp add: read_time_finished_def)
  ultimately show "((cs, clear (fst (snd r)),
           improvement + sum_list (map obj_gain (imp_moves (fst (snd r)))), snd (snd r)),
          cs, param, improvement, w) \<in> measure (\<lambda>(cs, param, improvement, w). time_left w)"
    by simp
qed

declare improve_while.simps [simp del]

fun improve_types :: "coiote_solver \<Rightarrow> four_index \<Rightarrow> nat \<Rightarrow> int \<Rightarrow> improve_state \<Rightarrow> int \<times> improve_state" where
  "improve_types cs idx 0 improvement w = (improvement, w)"
| "improve_types cs idx (Suc m) improvement w =
     (let rt = read_time_finished w
      in if fst rt then (improvement, snd rt)
         else
           (let r = improve_while cs (new_ti_parameter idx (int (Suc m))) improvement (snd rt)
            in improve_types cs idx m (fst r) (snd r)))"

fun improve_moves :: "coiote_solver \<Rightarrow> four_index list \<Rightarrow> int \<Rightarrow> improve_state \<Rightarrow> int \<times> improve_state" where
  "improve_moves cs [] improvement w = (improvement, w)"
| "improve_moves cs (idx # rest) improvement w =
     (let rt = read_time_finished w
      in if fst rt then (improvement, snd rt)
         else
           (let r = improve_types cs idx (nat (max_act_per_user (statistics cs))) improvement (snd rt)
            in improve_moves cs rest (fst r) (snd r)))"

text \<open>
  \<open>improving_phase cs sol n\<close> runs the phase on the solution \<open>sol\<close> when the flag
  is read as false \<open>n\<close> more times; it returns the improvement, the new solution
  and the number of such reads that remain.
\<close>

definition improving_phase :: "coiote_solver \<Rightarrow> (four_index \<Rightarrow> int) \<Rightarrow> nat \<Rightarrow> int \<times> (four_index \<Rightarrow> int) \<times> nat" where
  "improving_phase cs sol n =
     (let st = improving_setup cs sol;
          r = improve_moves cs (moves st) 0 \<lparr> i_solution = sol, statistics_moves = st, time_left = n \<rparr>
      in (fst r, i_solution (snd r), time_left (snd r)))"

lemma sum_delta_lessThan:
  "(\<Sum>k<(n::nat). if k = a \<and> P then (f k :: int) else 0) = (if a < n \<and> P then f a else 0)"
  using sum.delta[of "{..<n}" a f] by (cases P) simp_all

lemma done_in_add:
  assumes "valid4 cs idx"
  shows "done_in cs (sol(idx := sol idx + d)) j
           = done_in cs sol j + (if idx_j idx = j then act_per_user (problem cs) (idx_m idx) * d else 0)"
proof -
  obtain i0 j0 m0 t0 where idx: "idx = (i0, j0, m0, t0)" by (cases idx) auto
  have v: "i0 < n_cells cs" "m0 < n_cust_types cs" "t0 < n_time_steps cs"
    using assms by (simp_all add: idx valid4_def)
  let ?a = "act_per_user (problem cs)"
  have p: "?a m * (sol(idx := sol idx + d)) (i, j, m, t)
             = ?a m * sol (i, j, m, t)
               + (if t = t0 \<and> (m = m0 \<and> i = i0 \<and> j = j0) then ?a m * d else 0)"
    for i m t
    by (simp add: idx algebra_simps)
  have q: "(\<Sum>t<n_time_steps cs. ?a m * (sol(idx := sol idx + d)) (i, j, m, t))
             = (\<Sum>t<n_time_steps cs. ?a m * sol (i, j, m, t))
               + (if m = m0 \<and> (i = i0 \<and> j = j0) then ?a m * d else 0)"
    for i m
    unfolding p sum.distrib sum_delta_lessThan using v by simp
  have r: "(\<Sum>m<n_cust_types cs. \<Sum>t<n_time_steps cs. ?a m * (sol(idx := sol idx + d)) (i, j, m, t))
             = (\<Sum>m<n_cust_types cs. \<Sum>t<n_time_steps cs. ?a m * sol (i, j, m, t))
               + (if i = i0 \<and> j = j0 then ?a m0 * d else 0)"
    for i
    unfolding q sum.distrib sum_delta_lessThan using v by simp
  have "done_in cs (sol(idx := sol idx + d)) j = done_in cs sol j + (if j0 = j then ?a m0 * d else 0)"
    unfolding done_in_def r sum.distrib sum_delta_lessThan using v by auto
  then show ?thesis by (simp add: idx idx_j_def idx_m_def)
qed

lemma moved_from_add:
  assumes "valid4 cs idx"
  shows "moved_from cs (sol(idx := sol idx + d)) b
           = moved_from cs sol b + (if three_of idx = b then d else 0)"
proof -
  obtain i0 j0 m0 t0 where idx: "idx = (i0, j0, m0, t0)" by (cases idx) auto
  obtain i m t where b: "b = (i, m, t)" by (cases b) auto
  have v: "j0 < n_cells cs" using assms by (simp add: idx valid4_def)
  have p: "(sol(idx := sol idx + d)) (i, j, m, t)
             = sol (i, j, m, t) + (if j = j0 \<and> (i = i0 \<and> m = m0 \<and> t = t0) then d else 0)"
    for j
    by (simp add: idx)
  have "moved_from cs (sol(idx := sol idx + d)) (i, m, t)
          = moved_from cs sol (i, m, t) + (if i = i0 \<and> m = m0 \<and> t = t0 then d else 0)"
    unfolding moved_from_def fst_conv snd_conv p sum.distrib sum_delta_lessThan using v by simp
  then show ?thesis by (auto simp: idx b three_of_def)
qed

lemma total_cost_add:
  assumes "valid4 cs idx"
  shows "total_cost cs (sol(idx := sol idx + d)) = total_cost cs sol + costs (problem cs) idx * d"
proof -
  obtain i0 j0 m0 t0 where idx: "idx = (i0, j0, m0, t0)" by (cases idx) auto
  have v: "i0 < n_cells cs" "j0 < n_cells cs" "m0 < n_cust_types cs" "t0 < n_time_steps cs"
    using assms by (simp_all add: idx valid4_def)
  let ?c = "costs (problem cs)"
  have p: "?c (i, j, m, t) * (sol(idx := sol idx + d)) (i, j, m, t)
             = ?c (i, j, m, t) * sol (i, j, m, t)
               + (if t = t0 \<and> (m = m0 \<and> j = j0 \<and> i = i0) then ?c (i, j, m, t) * d else 0)"
    for i j m t
    by (simp add: idx algebra_simps)
  have q: "(\<Sum>t<n_time_steps cs. ?c (i, j, m, t) * (sol(idx := sol idx + d)) (i, j, m, t))
             = (\<Sum>t<n_time_steps cs. ?c (i, j, m, t) * sol (i, j, m, t))
               + (if m = m0 \<and> (j = j0 \<and> i = i0) then ?c (i, j, m, t0) * d else 0)"
    for i j m
    unfolding p sum.distrib sum_delta_lessThan using v by simp
  have r: "(\<Sum>m<n_cust_types cs. \<Sum>t<n_time_steps cs.
               ?c (i, j, m, t) * (sol(idx := sol idx + d)) (i, j, m, t))
             = (\<Sum>m<n_cust_types cs. \<Sum>t<n_time_steps cs. ?c (i, j, m, t) * sol (i, j, m, t))
               + (if j = j0 \<and> i = i0 then ?c (i, j, m0, t0) * d else 0)"
    for i j
    unfolding q sum.distrib sum_delta_lessThan using v by simp
  have u: "(\<Sum>j<n_cells cs. \<Sum>m<n_cust_types cs. \<Sum>t<n_time_steps cs.
               ?c (i, j, m, t) * (sol(idx := sol idx + d)) (i, j, m, t))
             = (\<Sum>j<n_cells cs. \<Sum>m<n_cust_types cs. \<Sum>t<n_time_steps cs.
                  ?c (i, j, m, t) * sol (i, j, m, t))
               + (if i = i0 \<and> True then ?c (i, j0, m0, t0) * d else 0)"
    for i
    unfolding r sum.distrib sum_delta_lessThan using v by simp
  show ?thesis
    unfolding total_cost_def u sum.distrib sum_delta_lessThan using v by (simp add: idx)
qed

lemma total_cost_zero: "total_cost cs (\<lambda>idx. 0) = 0"
  by (simp add: total_cost_def)

lemma done_in_cong:
  "(\<And>idx. valid4 cs idx \<Longrightarrow> sol idx = sol' idx) \<Longrightarrow> j < n_cells cs \<Longrightarrow>
     done_in cs sol j = done_in cs sol' j"
  unfolding done_in_def by (auto intro!: sum.cong simp: valid4_def)

lemma moved_from_cong:
  "(\<And>idx. valid4 cs idx \<Longrightarrow> sol idx = sol' idx) \<Longrightarrow> valid3 cs b \<Longrightarrow> moved_from cs sol b = moved_from cs sol' b"
  unfolding moved_from_def by (cases b) (auto intro!: sum.cong simp: valid4_def valid3_def)

lemma done_in_zero: "done_in cs (\<lambda>idx. 0) j = 0"
  by (simp add: done_in_def)

lemma moved_from_zero: "moved_from cs (\<lambda>idx. 0) b = 0"
  by (simp add: moved_from_def)

lemma done_in_nonneg:
  assumes "well_formed cs" and "\<And>idx. 0 \<le> sol idx"
  shows "0 \<le> done_in cs sol j"
  unfolding done_in_def using assms by (intro sum_nonneg mult_nonneg_nonneg) (auto simp: well_formed_def intro: less_imp_le)

subsection \<open>Supply and demand accounts of the greedy\<close>

text \<open>
  \<open>ledger\<close> states that the residual supply of the greedy is the supply of the
  problem minus the users the solution moves, that the solution moves no user
  from a cell to itself, and that the objective value is the cost of the solution. \<open>log_for j xs\<close> states that the indexes \<open>xs\<close> have the
  destination \<open>j\<close> and another source.
\<close>

definition ledger :: "coiote_solver \<Rightarrow> greedy_state \<Rightarrow> bool" where
  "ledger cs gs =
     ((\<forall>b. valid3 cs b \<longrightarrow>
           g_users_available gs b + moved_from cs (g_solution gs) b = users_available (problem cs) b) \<and>
      (\<forall>idx. idx_i idx = idx_j idx \<longrightarrow> g_solution gs idx = 0) \<and>
      g_obj_function gs = total_cost cs (g_solution gs))"

definition log_for :: "nat \<Rightarrow> four_index list \<Rightarrow> bool" where
  "log_for j xs = (\<forall>x\<in>set xs. idx_j x = j \<and> idx_i x \<noteq> j)"

lemma ledgerD:
  assumes "ledger cs gs"
  shows "valid3 cs b \<Longrightarrow>
           g_users_available gs b + moved_from cs (g_solution gs) b = users_available (problem cs) b"
    and "idx_i idx = idx_j idx \<Longrightarrow> g_solution gs idx = 0"
    and "g_obj_function gs = total_cost cs (g_solution gs)"
  using assms unfolding ledger_def by blast+

lemma ledgerI:
  assumes "\<And>b. valid3 cs b \<Longrightarrow>
           g_users_available gs b + moved_from cs (g_solution gs) b = users_available (problem cs) b"
    and "\<And>idx. idx_i idx = idx_j idx \<Longrightarrow> g_solution gs idx = 0"
    and "g_obj_function gs = total_cost cs (g_solution gs)"
  shows "ledger cs gs"
  using assms unfolding ledger_def by blast

lemma ledger_update:
  assumes l: "ledger cs gs" and v: "valid4 cs idx" and nd: "idx_i idx \<noteq> idx_j idx"
    and s: "g_solution gs' = (g_solution gs)(idx := g_solution gs idx + d)"
    and u: "g_users_available gs' =
              (g_users_available gs)(three_of idx := g_users_available gs (three_of idx) - d)"
    and o: "g_obj_function gs' = g_obj_function gs + costs (problem cs) idx * d"
  shows "ledger cs gs'"
proof (rule ledgerI)
  fix b assume "valid3 cs b"
  then show "g_users_available gs' b + moved_from cs (g_solution gs') b = users_available (problem cs) b"
    using ledgerD(1)[OF l, of b] by (auto simp: s u moved_from_add[OF v])
next
  fix x assume "idx_i x = idx_j x"
  then show "g_solution gs' x = 0" using ledgerD(2)[OF l, of x] nd by (auto simp: s)
next
  show "g_obj_function gs' = total_cost cs (g_solution gs')"
    using ledgerD(3)[OF l] by (simp add: s o total_cost_add[OF v])
qed

lemma ledger_greedy_start: "ledger cs (greedy_start cs usage)"
  by (rule ledgerI) (simp_all add: greedy_start_def moved_from_zero total_cost_zero)

lemma idx_simps:
  "idx_i (i, j, m, t) = i" "idx_j (i, j, m, t) = j" "idx_m (i, j, m, t) = m" "idx_t (i, j, m, t) = t"
  "three_of (i, j, m, t) = (i, m, t)"
  by (simp_all add: idx_i_def idx_j_def idx_m_def idx_t_def three_of_def)

lemma greedy_fill_ledger:
  assumes wf: "well_formed cs" and ok: "candidates_ok cs"
  shows "fill_inv cs gs \<Longrightarrow> ledger cs gs \<Longrightarrow> log_for j (g_inserted_indexes gs) \<Longrightarrow>
         greedy_fill fuel cs j gs = Some (Filled gs') \<Longrightarrow>
         ledger cs gs' \<and> log_for j (g_inserted_indexes gs') \<and>
         (\<forall>j'. done_in cs (g_solution gs') j' + (if j' = j then g_demand gs' else 0)
               = done_in cs (g_solution gs) j' + (if j' = j then g_demand gs else 0))"
proof (induction fuel arbitrary: gs)
  case 0
  then show ?case by simp
next
  case (Suc fuel)
  show ?case
  proof (cases "0 < g_demand gs")
    case False
    then show ?thesis using Suc.prems by auto
  next
    case True
    let ?best = "greedy_select cs j gs"
    show ?thesis
    proof (cases "min_cost ?best = None")
      case True
      then show ?thesis using Suc.prems \<open>0 < g_demand gs\<close> by (auto simp: Let_def)
    next
      case False
      note P = greedy_select_picked[OF ok False]
      let ?idx = "(min_i ?best, j, min_m ?best, min_t ?best)"
      let ?gs = "greedy_commit cs j ?best gs"
      have inv': "fill_inv cs ?gs"
        using fill_inv_commit[OF wf Suc.prems(1) True P(1) P(3)] .
      have l': "ledger cs ?gs"
        by (rule ledger_update[OF Suc.prems(2) P(1), where d = "greedy_nusers cs ?best gs"])
           (simp_all add: idx_simps P(2) greedy_commit_fields)
      have g': "log_for j (g_inserted_indexes ?gs)"
        using Suc.prems(3) P(2) by (simp add: log_for_def greedy_commit_fields idx_simps)
      have d': "done_in cs (g_solution ?gs) j' + (if j' = j then g_demand ?gs else 0)
                  = done_in cs (g_solution gs) j' + (if j' = j then g_demand gs else 0)" for j'
        by (simp add: greedy_commit_fields done_in_add[OF P(1)] idx_simps)
      have "greedy_fill fuel cs j ?gs = Some (Filled gs')"
        using Suc.prems(4) True False by (simp add: Let_def)
      from Suc.IH[OF inv' l' g' this] show ?thesis using d' by simp
    qed
  qed
qed

lemma greedy_rebalance_ledger:
  assumes wf: "well_formed cs"
  shows "rebalance_inv cs xs gs \<Longrightarrow> ledger cs gs \<Longrightarrow> log_for j xs \<Longrightarrow>
         greedy_rebalance fuel cs xs gs = Some gs' \<Longrightarrow>
         ledger cs gs' \<and>
         (\<forall>j'. done_in cs (g_solution gs') j' - (if j' = j then g_demand gs' else 0)
               = done_in cs (g_solution gs) j' - (if j' = j then g_demand gs else 0))"
proof (induction fuel arbitrary: xs gs)
  case 0
  then show ?case by simp
next
  case (Suc fuel)
  show ?case
  proof (cases "0 < g_demand gs")
    case False
    then show ?thesis using Suc.prems by auto
  next
    case pos: True
    show ?thesis
    proof (cases xs)
      case Nil
      then show ?thesis using Suc.prems pos by auto
    next
      case (Cons x rest)
      have vx: "valid4 cs x" using Suc.prems(1) Cons unfolding rebalance_inv_def by simp
      have lx: "idx_j x = j" "idx_i x \<noteq> j" using Suc.prems(3) Cons by (simp_all add: log_for_def)
      show ?thesis
      proof (cases "act_per_user (problem cs) (idx_m x) \<le> g_demand gs")
        case False
        have inv': "rebalance_inv cs rest gs"
          using rebalance_inv_skip Suc.prems(1) False unfolding Cons by blast
        have g': "log_for j rest" using Suc.prems(3) Cons by (simp add: log_for_def)
        have "greedy_rebalance fuel cs rest gs = Some gs'"
          using Suc.prems(4) pos Cons False by simp
        from Suc.IH[OF inv' Suc.prems(2) g' this] show ?thesis .
      next
        case True
        let ?xs = "if g_solution gs x - 1 = 0 then rest else x # rest"
        let ?gs = "remove_one cs x gs"
        have inv': "rebalance_inv cs ?xs ?gs"
          using rebalance_inv_remove(2)[OF wf _ True] Suc.prems(1) unfolding Cons by blast
        have l': "ledger cs ?gs"
          by (rule ledger_update[OF Suc.prems(2) vx, where d = "- 1"])
             (simp_all add: lx remove_one_fields)
        have g': "log_for j ?xs" using Suc.prems(3) Cons by (simp add: log_for_def)
        have d': "done_in cs (g_solution ?gs) j' - (if j' = j then g_demand ?gs else 0)
                  = done_in cs (g_solution gs) j' - (if j' = j then g_demand gs else 0)" for j'
          using done_in_add[OF vx, of "g_solution gs" "- 1" j'] by (simp add: remove_one_fields lx)
        have "greedy_rebalance fuel cs ?xs ?gs = Some gs'"
          using Suc.prems(4) pos Cons True by (simp add: Let_def)
        from Suc.IH[OF inv' l' g' this] show ?thesis using d' by simp
      qed
    qed
  qed
qed

lemma ledger_cell_start: "ledger cs (cell_start cs j gs) = ledger cs gs"
  by (simp add: ledger_def cell_start_def)

lemma ledger_rebalance_start: "ledger cs (rebalance_start cs gs) = ledger cs gs"
  by (simp add: ledger_def rebalance_start_fields)

lemma log_for_rebalance_start:
  "log_for j (g_inserted_indexes (rebalance_start cs gs)) = log_for j (g_inserted_indexes gs)"
  by (simp add: log_for_def rebalance_start_fields)

lemma greedy_cell_ledger:
  assumes wf: "well_formed cs" and ok: "candidates_ok cs" and ci: "cell_inv cs gs"
    and l: "ledger cs gs" and r: "greedy_cell fuel cs j gs = Some (Filled gs')"
  shows "cell_inv cs gs'" and "ledger cs gs'"
    and "done_in cs (g_solution gs) j + activities (problem cs) j \<le> done_in cs (g_solution gs') j"
    and "j' \<noteq> j \<Longrightarrow> done_in cs (g_solution gs') j' = done_in cs (g_solution gs) j'"
proof -
  show c': "cell_inv cs gs'" using greedy_cell_guarded_eq(2)[OF wf ok ci r] .
  let ?s = "cell_start cs j gs"
  obtain gs1 where f: "greedy_fill fuel cs j ?s = Some (Filled gs1)"
    using r unfolding greedy_cell_def by (auto split: option.splits fill_result.splits)
  have F: "fill_inv cs gs1" "g_demand gs1 \<le> 0"
    using greedy_fill_inv[OF wf ok cell_inv_start[OF ci] f] by simp_all
  have ls: "ledger cs ?s" using l by (simp add: ledger_cell_start)
  have lg: "log_for j (g_inserted_indexes ?s)" by (simp add: log_for_def cell_start_def)
  note L = greedy_fill_ledger[OF wf ok cell_inv_start[OF ci] ls lg f]
  have d1: "done_in cs (g_solution gs1) j' + (if j' = j then g_demand gs1 else 0)
              = done_in cs (g_solution gs) j' + (if j' = j then activities (problem cs) j else 0)" for j'
    using L by (simp add: cell_start_def)
  have all: "ledger cs gs' \<and>
      done_in cs (g_solution gs) j + activities (problem cs) j \<le> done_in cs (g_solution gs') j \<and>
      (\<forall>j'. j' \<noteq> j \<longrightarrow> done_in cs (g_solution gs') j' = done_in cs (g_solution gs) j')"
  proof (cases "g_demand gs1 < 0")
    case False
    then have e: "gs' = gs1" using r f by (simp add: greedy_cell_def)
    have "g_demand gs1 = 0" using False F(2) by simp
    then show ?thesis using L d1 unfolding e by (metis add.right_neutral order_refl)
  next
    case True
    let ?r = "rebalance_start cs gs1"
    have rr: "greedy_rebalance fuel cs (g_inserted_indexes ?r) ?r = Some gs'"
      using r f True by (auto simp: greedy_cell_def split: option.splits)
    have ri: "rebalance_inv cs (g_inserted_indexes ?r) ?r" using rebalance_start_inv[OF F(1) True] .
    have lr: "ledger cs ?r" using L by (simp add: ledger_rebalance_start)
    have gr: "log_for j (g_inserted_indexes ?r)" using L by (simp add: log_for_rebalance_start)
    note R = greedy_rebalance_ledger[OF wf ri lr gr rr]
    have nn: "0 \<le> g_demand gs'" using rebalance_guarded_eq[OF wf ri, of fuel] rr by simp
    have d2: "done_in cs (g_solution gs') j' - (if j' = j then g_demand gs' else 0)
              = done_in cs (g_solution gs1) j' + (if j' = j then g_demand gs1 else 0)" for j'
      using R by (simp add: rebalance_start_fields)
    have "done_in cs (g_solution gs) j + activities (problem cs) j \<le> done_in cs (g_solution gs') j"
      using d2[of j] d1[of j] nn by simp
    moreover have "done_in cs (g_solution gs') j' = done_in cs (g_solution gs) j'" if "j' \<noteq> j" for j'
      using d2[of j'] d1[of j'] that by simp
    ultimately show ?thesis using R by blast
  qed
  show "ledger cs gs'" using all by blast
  show "done_in cs (g_solution gs) j + activities (problem cs) j \<le> done_in cs (g_solution gs') j"
    using all by blast
  show "j' \<noteq> j \<Longrightarrow> done_in cs (g_solution gs') j' = done_in cs (g_solution gs) j'"
    using all by blast
qed

lemma greedy_cells_ledger:
  assumes wf: "well_formed cs" and ok: "candidates_ok cs"
  shows "cell_inv cs gs \<Longrightarrow> ledger cs gs \<Longrightarrow> \<forall>j\<in>set order. j < n_cells cs \<Longrightarrow>
         \<forall>j\<in>S. activities (problem cs) j \<le> done_in cs (g_solution gs) j \<Longrightarrow>
         greedy_cells fuel cs order gs = Some (Objective ob, gs') \<Longrightarrow>
         cell_inv cs gs' \<and> ledger cs gs' \<and>
         (\<forall>j\<in>S \<union> set order. activities (problem cs) j \<le> done_in cs (g_solution gs') j)"
proof (induction order arbitrary: gs S)
  case Nil
  then show ?case by simp
next
  case (Cons j order)
  obtain gs1 where c: "greedy_cell fuel cs j gs = Some (Filled gs1)"
    and rest: "greedy_cells fuel cs order gs1 = Some (Objective ob, gs')"
    using Cons.prems(5) by (auto split: option.splits fill_result.splits)
  note C = greedy_cell_ledger[OF wf ok Cons.prems(1,2) c]
  have j: "j < n_cells cs" using Cons.prems(3) by simp
  have a0: "0 \<le> activities (problem cs) j" using wf j by (simp add: well_formed_def)
  have d0: "0 \<le> done_in cs (g_solution gs) j"
    using done_in_nonneg[OF wf] cell_invD(2)[OF Cons.prems(1)] by blast
  have S': "\<forall>j'\<in>insert j S. activities (problem cs) j' \<le> done_in cs (g_solution gs1) j'"
  proof
    fix j' assume m: "j' \<in> insert j S"
    show "activities (problem cs) j' \<le> done_in cs (g_solution gs1) j'"
    proof (cases "j' = j")
      case True
      then show ?thesis using C(3) d0 by simp
    next
      case False
      then have "j' \<in> S" using m by simp
      then show ?thesis using Cons.prems(4) C(4)[OF False] by simp
    qed
  qed
  have o: "\<forall>j\<in>set order. j < n_cells cs" using Cons.prems(3) by simp
  from Cons.IH[OF C(1) C(2) o S' rest] show ?case by auto
qed

lemma supply_from_ledger:
  assumes "cell_inv cs gs" and "ledger cs gs" and "valid3 cs b"
  shows "moved_from cs (g_solution gs) b \<le> users_available (problem cs) b"
  using cell_invD(1)[OF assms(1,3)] ledgerD(1)[OF assms(2,3)] by linarith

lemma greedy_feasible:
  assumes wf: "well_formed cs" and ok: "candidates_ok cs"
    and o1: "\<forall>j\<in>set order. j < n_cells cs"
    and r: "greedy fuel cs order usage = Some (Objective ob, gs)"
  shows "cell_inv cs gs" and "ledger cs gs"
    and "\<forall>j<n_cells cs. 0 < activities (problem cs) j \<longrightarrow> j \<in> set order \<Longrightarrow> j < n_cells cs \<Longrightarrow>
           activities (problem cs) j \<le> done_in cs (g_solution gs) j"
proof -
  let ?S = "{j. activities (problem cs) j \<le> 0}"
  have s: "\<forall>j\<in>?S. activities (problem cs) j \<le> done_in cs (g_solution (greedy_start cs usage)) j"
    by (simp add: greedy_start_def done_in_zero)
  note G = greedy_cells_ledger[OF wf ok cell_inv_greedy_start[OF wf] ledger_greedy_start o1 s
      r[unfolded greedy_def]]
  show "cell_inv cs gs" "ledger cs gs" using G by simp_all
  show "activities (problem cs) j \<le> done_in cs (g_solution gs) j"
    if o2: "\<forall>j<n_cells cs. 0 < activities (problem cs) j \<longrightarrow> j \<in> set order" and "j < n_cells cs"
  proof -
    have "j \<in> ?S \<union> set order" using o2 that(2) by (cases "0 < activities (problem cs) j") auto
    then show ?thesis using G by blast
  qed
qed

lemma cell_inv_demand: "cell_inv cs (gs\<lparr> g_demand := d \<rparr>) = cell_inv cs gs"
  by (simp add: cell_inv_def)

lemma ledger_demand: "ledger cs (gs\<lparr> g_demand := d \<rparr>) = ledger cs gs"
  by (simp add: ledger_def)

lemma cell_inv_few_commit:
  assumes ci: "cell_inv cs gs" and v: "valid4 cs (min_i best, j, min_m best, min_t best)"
    and av: "g_users_available gs (min_i best, min_m best, min_t best) \<noteq> 0"
  shows "cell_inv cs (few_commit cs j best gs)"
proof (rule cell_invI)
  fix b assume b: "valid3 cs b"
  have "0 \<le> g_users_available gs (min_i best, min_m best, min_t best)"
    using cell_invD(1)[OF ci valid4_three[OF v]] .
  then have "1 \<le> g_users_available gs (min_i best, min_m best, min_t best)" using av by linarith
  then show "0 \<le> g_users_available (few_commit cs j best gs) b"
    using cell_invD(1)[OF ci b] by (simp add: few_commit_fields)
next
  fix idx
  show "0 \<le> g_solution (few_commit cs j best gs) idx"
    using cell_invD(2)[OF ci, of idx] cell_invD(2)[OF ci, of "(min_i best, j, min_m best, min_t best)"]
    by (simp add: few_commit_fields)
qed

lemma few_fill_ledger:
  assumes wf: "well_formed cs" and ok: "candidates_ok cs"
  shows "cell_inv cs gs \<Longrightarrow> ledger cs gs \<Longrightarrow>
         few_fill fuel cs slots ew j gs = Some (Filled gs') \<Longrightarrow>
         cell_inv cs gs' \<and> ledger cs gs' \<and> g_demand gs' \<le> g_demand gs \<and>
         (ew \<longrightarrow> g_demand gs' \<le> 0) \<and>
         (\<forall>j'. done_in cs (g_solution gs') j' + (if j' = j then g_demand gs' else 0)
               = done_in cs (g_solution gs) j' + (if j' = j then g_demand gs else 0))"
proof (induction fuel arbitrary: gs)
  case 0
  then show ?case by simp
next
  case (Suc fuel)
  show ?case
  proof (cases "0 < g_demand gs")
    case False
    then show ?thesis using Suc.prems by auto
  next
    case True
    let ?best = "few_select cs slots ew j gs"
    show ?thesis
    proof (cases "min_cost ?best = None")
      case True
      then show ?thesis using Suc.prems \<open>0 < g_demand gs\<close> by (auto simp: Let_def split: if_splits)
    next
      case False
      note P = few_select_picked[OF ok False]
      let ?gs = "few_commit cs j ?best gs"
      have m: "min_m ?best < n_cust_types cs" using P(1) by (simp add: valid4_def)
      have a: "0 < act_per_user (problem cs) (min_m ?best)" using wf m by (simp add: well_formed_def)
      have c': "cell_inv cs ?gs" using cell_inv_few_commit[OF Suc.prems(1) P(1) P(3)] .
      have l': "ledger cs ?gs"
        by (rule ledger_update[OF Suc.prems(2) P(1), where d = 1])
           (simp_all add: idx_simps P(2) few_commit_fields)
      have d': "done_in cs (g_solution ?gs) j' + (if j' = j then g_demand ?gs else 0)
                  = done_in cs (g_solution gs) j' + (if j' = j then g_demand gs else 0)" for j'
        by (simp add: few_commit_fields done_in_add[OF P(1)] idx_simps)
      have le: "g_demand ?gs \<le> g_demand gs" using a by (simp add: few_commit_fields)
      have "few_fill fuel cs slots ew j ?gs = Some (Filled gs')"
        using Suc.prems(3) True False by (simp add: Let_def)
      from Suc.IH[OF c' l' this] show ?thesis using d' le by simp
    qed
  qed
qed

text \<open>
  \<open>accounted cs rd gs\<close>: for every pair (cell, remaining demand) of the vector \<open>rd\<close>
  the solution performs in the cell at least its demand minus the remaining one.
\<close>

definition accounted :: "coiote_solver \<Rightarrow> (nat \<times> int) list \<Rightarrow> greedy_state \<Rightarrow> bool" where
  "accounted cs rd gs =
     (\<forall>jd\<in>set rd. activities (problem cs) (fst jd) - snd jd \<le> done_in cs (g_solution gs) (fst jd))"

lemma accounted_Cons:
  "accounted cs ((j, d) # rd) gs =
     (activities (problem cs) j - d \<le> done_in cs (g_solution gs) j \<and> accounted cs rd gs)"
  by (simp add: accounted_def)

lemma accounted_mono:
  "accounted cs rd gs \<Longrightarrow> (\<And>j. done_in cs (g_solution gs) j \<le> done_in cs (g_solution gs') j) \<Longrightarrow>
     accounted cs rd gs'"
  unfolding accounted_def by (meson order_trans)

lemma few_cells_ledger:
  assumes wf: "well_formed cs" and ok: "candidates_ok cs"
  shows "cell_inv cs gs \<Longrightarrow> ledger cs gs \<Longrightarrow> accounted cs rd gs \<Longrightarrow>
         few_cells fuel cs slots ew rd gs = Some (Few_done rd' gs') \<Longrightarrow>
         cell_inv cs gs' \<and> ledger cs gs' \<and> accounted cs rd' gs' \<and>
         (ew \<longrightarrow> (\<forall>jd\<in>set rd'. snd jd \<le> 0)) \<and> map fst rd' = map fst rd \<and>
         (\<forall>j'. done_in cs (g_solution gs) j' \<le> done_in cs (g_solution gs') j')"
proof (induction rd arbitrary: gs rd')
  case Nil
  then show ?case by auto
next
  case (Cons jd rd)
  obtain j d where jd: "jd = (j, d)" by (cases jd) auto
  have ac: "activities (problem cs) j - d \<le> done_in cs (g_solution gs) j" "accounted cs rd gs"
    using Cons.prems(3) by (simp_all add: jd accounted_Cons)
  show ?case
  proof (cases "\<not> ew \<and> should_skip slots d")
    case True
    then obtain rd1 where r': "few_cells fuel cs slots ew rd gs = Some (Few_done rd1 gs')"
      and e: "rd' = (j, d) # rd1"
      using Cons.prems(4) jd by (auto split: option.splits few_result.splits)
    note I = Cons.IH[OF Cons.prems(1,2) ac(2) r']
    have "activities (problem cs) j - d \<le> done_in cs (g_solution gs') j"
      using ac(1) I by (meson order_trans)
    then show ?thesis using I True by (simp add: e jd accounted_Cons)
  next
    case False
    let ?g = "gs\<lparr> g_demand := d \<rparr>"
    obtain gs1 rd1 where f: "few_fill fuel cs slots ew j ?g = Some (Filled gs1)"
      and r': "few_cells fuel cs slots ew rd gs1 = Some (Few_done rd1 gs')"
      and e: "rd' = (j, g_demand gs1) # rd1"
      using Cons.prems(4) jd False
      by (auto split: option.splits few_result.splits fill_result.splits)
    have F: "cell_inv cs gs1" "ledger cs gs1" "g_demand gs1 \<le> d" "ew \<longrightarrow> g_demand gs1 \<le> 0"
      "\<And>j'. done_in cs (g_solution gs1) j' + (if j' = j then g_demand gs1 else 0)
               = done_in cs (g_solution gs) j' + (if j' = j then d else 0)"
      using few_fill_ledger[OF wf ok _ _ f] Cons.prems(1,2)
      by (simp_all add: cell_inv_demand ledger_demand)
    have mono1: "done_in cs (g_solution gs) j' \<le> done_in cs (g_solution gs1) j'" for j'
      using F(5)[of j'] F(3) by (simp split: if_splits)
    have ac1: "accounted cs rd gs1" using accounted_mono[OF ac(2)] mono1 by blast
    note I = Cons.IH[OF F(1,2) ac1 r']
    have mono2: "done_in cs (g_solution gs1) j' \<le> done_in cs (g_solution gs') j'" for j'
      using I by blast
    have "activities (problem cs) j - g_demand gs1 \<le> done_in cs (g_solution gs1) j"
      using F(5)[of j] ac(1) by simp
    then have "activities (problem cs) j - g_demand gs1 \<le> done_in cs (g_solution gs') j"
      using mono2[of j] by linarith
    moreover have "done_in cs (g_solution gs) j' \<le> done_in cs (g_solution gs') j'" for j'
      using mono1[of j'] mono2[of j'] by linarith
    ultimately show ?thesis using I F(4) by (simp add: e jd accounted_Cons)
  qed
qed

lemma few_feasible:
  assumes wf: "well_formed cs" and ok: "candidates_ok cs"
    and r: "greedy_few_users fuel cs slots order usage = Some (Objective ob, gs)"
  shows "cell_inv cs gs" and "ledger cs gs"
    and "\<forall>j<n_cells cs. 0 < activities (problem cs) j \<longrightarrow> j \<in> set order \<Longrightarrow> j < n_cells cs \<Longrightarrow>
           activities (problem cs) j \<le> done_in cs (g_solution gs) j"
proof -
  let ?rd = "map (\<lambda>j. (j, activities (problem cs) j)) order"
  let ?g0 = "greedy_start cs usage"
  obtain rd1 gs1 rd2 where p1: "few_cells fuel cs slots False ?rd ?g0 = Some (Few_done rd1 gs1)"
    and p2: "few_cells fuel cs slots True rd1 gs1 = Some (Few_done rd2 gs)"
    using r unfolding greedy_few_users_def few_first_pass_def
    by (auto split: option.splits few_result.splits)
  have a0: "accounted cs ?rd ?g0"
    by (simp add: accounted_def greedy_start_def done_in_zero)
  note A = few_cells_ledger[OF wf ok cell_inv_greedy_start[OF wf] ledger_greedy_start a0 p1]
  have A1: "cell_inv cs gs1" "ledger cs gs1" "accounted cs rd1 gs1" using A by simp_all
  note B = few_cells_ledger[OF wf ok A1 p2]
  show ci: "cell_inv cs gs" and "ledger cs gs" using B by simp_all
  have m: "map fst rd2 = order" using A B by (simp add: comp_def)
  show "activities (problem cs) j \<le> done_in cs (g_solution gs) j"
    if o2: "\<forall>j<n_cells cs. 0 < activities (problem cs) j \<longrightarrow> j \<in> set order" and j: "j < n_cells cs"
  proof (cases "0 < activities (problem cs) j")
    case False
    have "0 \<le> done_in cs (g_solution gs) j"
      using done_in_nonneg[OF wf] cell_invD(2)[OF ci] by blast
    then show ?thesis using False by linarith
  next
    case True
    then have "j \<in> set (map fst rd2)" using o2 j m by simp
    then obtain d where jd: "(j, d) \<in> set rd2" by auto
    have "d \<le> 0" using B jd by auto
    moreover have "activities (problem cs) j - d \<le> done_in cs (g_solution gs) j"
      using B jd unfolding accounted_def by fastforce
    ultimately show ?thesis by linarith
  qed
qed

subsection \<open>The lists of moves are not changed by the search\<close>

text \<open>
  \<open>static w w'\<close>: the states have the same list of moves and the same lists of
  moves from every source cell, and the same set of moves towards every destination
  cell (\<^verbatim>\<open>get_removable\<close> sorts these lists).
\<close>

definition static :: "improve_state \<Rightarrow> improve_state \<Rightarrow> bool" where
  "static w w' =
     (moves_from_i (statistics_moves w') = moves_from_i (statistics_moves w) \<and>
      moves (statistics_moves w') = moves (statistics_moves w) \<and>
      (\<forall>j. set (moves_to_j (statistics_moves w') j) = set (moves_to_j (statistics_moves w) j)))"

lemma static_refl: "static w w"
  by (simp add: static_def)

lemma static_trans: "static w w' \<Longrightarrow> static w' w'' \<Longrightarrow> static w w''"
  by (simp add: static_def)

lemma static_add_remove_user: "static w (snd (add_remove_user ic undo w))"
  by (simp add: static_def add_remove_user_fields)

lemma static_read: "static w (snd (read_time_finished w))"
  by (simp add: static_def read_time_finished_fields)

lemma static_get_removable_loop:
  "static w (snd (snd (get_removable_loop cs redundancy it mvs gain w)))"
proof (induction cs redundancy it mvs gain w rule: get_removable_loop.induct)
  case (1 cs redundancy it mvs gain w)
  show ?case
  proof (cases "0 < redundancy")
    case False
    then show ?thesis by (subst get_removable_loop.simps) (simp add: static_refl)
  next
    case pos: True
    show ?thesis
    proof (cases it)
      case Nil
      then show ?thesis by (subst get_removable_loop.simps) (simp add: static_refl)
    next
      case (Cons idx rest)
      show ?thesis
      proof (cases "act_per_user (problem cs) (idx_m idx) \<le> redundancy \<and> i_solution w idx > 0")
        case True
        have "static w (snd (add_remove_user (remove_move cs idx) False w))"
          by (rule static_add_remove_user)
        from static_trans[OF this "1.IH"(1)[OF pos Cons True]] show ?thesis using pos Cons True
          by (subst get_removable_loop.simps) auto
      next
        case False
        then show ?thesis using "1.IH"(2)[OF pos Cons False] pos Cons
          by (subst get_removable_loop.simps) auto
      qed
    qed
  qed
qed

lemma static_get_removable: "static w (snd (snd (get_removable cs j mvs w)))"
proof -
  let ?w1 = "w\<lparr> statistics_moves := (statistics_moves w)
                 \<lparr> moves_to_j := (moves_to_j (statistics_moves w))
                      (j := sort_by (cmp_costs_desc (problem cs)) (moves_to_j (statistics_moves w) j)) \<rparr> \<rparr>"
  have "static w ?w1" by (simp add: static_def sort_by_desc)
  from static_trans[OF this static_get_removable_loop] show ?thesis
    by (simp add: get_removable_def Let_def static_refl)
qed

lemma static_try_add: "static w (snd (snd (try_add cs param j new_idx act_removed mvs w)))"
  unfolding try_add_def Let_def snd_conv
  by (rule static_trans[OF static_add_remove_user static_get_removable])

lemma static_undo_back: "static w (snd (snd (undo_back prev gain mvs w)))"
proof (induction prev gain mvs w rule: undo_back.induct)
  case (1 prev gain mvs w)
  show ?case
  proof (cases "length mvs > prev")
    case True
    from static_trans[OF static_add_remove_user "1"[OF True]] show ?thesis using True
      by (subst undo_back.simps) simp
  next
    case False
    then show ?thesis by (subst undo_back.simps) (simp add: static_refl)
  qed
qed

lemma static_undo_all: "static w (snd (undo_all mvs gain w))"
proof (induction mvs gain w rule: undo_all.induct)
  case (1 gain w)
  then show ?case by (simp add: static_refl)
next
  case (2 ic rest gain w)
  from static_trans[OF static_add_remove_user 2] show ?case by simp
qed

lemma static_try_fail: "static w (snd (snd (try_fail param mvs w)))"
  by (simp add: try_fail_def Let_def static_undo_all)

text \<open>
  \<open>stable param w r\<close>: the result \<open>r\<close> of a call on \<open>param\<close> and \<open>w\<close> has the lists
  of \<open>w\<close> and the cell and number of users of \<open>param\<close> (the \<^verbatim>\<open>const\<close> members of
  \<^verbatim>\<open>ti_parameter\<close>).
\<close>

definition stable :: "ti_parameter \<Rightarrow> improve_state \<Rightarrow> bool \<times> ti_parameter \<times> improve_state \<Rightarrow> bool" where
  "stable param w r =
     (static w (snd (snd r)) \<and> curr_idx (fst (snd r)) = curr_idx param \<and>
      users_to_remove (fst (snd r)) = users_to_remove param)"

lemma stable_step:
  "static w w1 \<Longrightarrow> curr_idx p1 = curr_idx p \<Longrightarrow> users_to_remove p1 = users_to_remove p \<Longrightarrow>
     stable p1 w1 r \<Longrightarrow> stable p w r"
  unfolding stable_def using static_trans by auto

lemma stable_result:
  "static w w1 \<Longrightarrow> curr_idx p1 = curr_idx p \<Longrightarrow> users_to_remove p1 = users_to_remove p \<Longrightarrow>
     stable p w (b, p1, w1)"
  unfolding stable_def by simp

lemma stable_try_fail:
  "static w w1 \<Longrightarrow> curr_idx p1 = curr_idx p \<Longrightarrow> users_to_remove p1 = users_to_remove p \<Longrightarrow>
     stable p w (try_fail p1 mvs w1)"
  unfolding stable_def using static_trans[OF _ static_try_fail] by (simp add: try_fail_def Let_def)

lemma try_improve_stable:
  "stable param w (try_improve cs param w)"
  and try_candidates_stable:
  "stable param w (try_candidates cs param act_removed j mvs cnt co_it w)"
  and try_siblings_stable:
  "stable param w (try_siblings cs param new_m new_t ua mvs sibs w)"
proof (induction cs param w and cs param act_removed j mvs cnt co_it w
         and cs param new_m new_t ua mvs sibs w
       rule: try_improve_try_candidates_try_siblings.induct)
  case (1 cs param w)
  show ?case
  proof (cases "i_solution w (curr_idx param) < users_to_remove param \<or> it_level param > max_level
         \<or> curr_idx param \<in> set (considered_cells param)")
    case True
    then have "try_improve cs param w = (False, param, w)" by (subst try_improve.simps) simp
    then show ?thesis by (simp add: stable_result static_refl)
  next
    case False
    let ?curr = "curr_idx param"
    let ?act = "act_per_user (problem cs) (idx_m ?curr) * users_to_remove param"
    let ?ic = "new_improved_move (idx_i ?curr) (idx_j ?curr) (idx_m ?curr) (idx_t ?curr)
                 (- users_to_remove param) (- ?act) (users_to_remove param * costs (problem cs) ?curr)"
    let ?w1 = "snd (add_remove_user ?ic False w)"
    let ?co = "costs_order (statistics cs) (get_costs_idx cs ?act) (idx_j ?curr)"
    let ?p = "param\<lparr> considered_cells := considered_cells param @ [?curr],
                      obj_gain_so_far := obj_gain_so_far param + fst (add_remove_user ?ic False w) \<rparr>"
    let ?rec = "try_candidates cs ?p ?act (idx_j ?curr) [?ic] 0 ?co ?w1"
    have e: "try_improve cs param w = ?rec"
      using False by (subst try_improve.simps) (simp add: Let_def)
    show ?thesis unfolding e
      by (rule stable_step[OF static_add_remove_user _ _ "1"[OF False refl refl refl refl]]) simp_all
  qed
next
  case (2 cs param act_removed j mvs cnt co_it w)
  show ?case
  proof (cases co_it)
    case Nil
    then have "try_candidates cs param act_removed j mvs cnt co_it w = try_fail param mvs w"
      by (subst try_candidates.simps) simp
    then show ?thesis by (simp add: stable_try_fail static_refl)
  next
    case (Cons new_idx rest)
    let ?skip = "new_idx \<in> set (considered_cells param)
             \<or> users_available (problem cs) (idx_i new_idx, idx_m new_idx, idx_t new_idx)
                 < users_to_add cs act_removed (idx_m new_idx)"
    show ?thesis
    proof (cases ?skip)
      case True
      have e: "try_candidates cs param act_removed j mvs cnt co_it w
                = try_candidates cs param act_removed j mvs cnt rest w"
        using True Cons by (subst try_candidates.simps) simp
      show ?thesis unfolding e using "2.IH"(1)[OF Cons True] .
    next
      case ns: False
      let ?a = "try_add cs param j new_idx act_removed mvs w"
      let ?p1 = "param\<lparr> obj_gain_so_far := fst ?a \<rparr>"
      let ?rt = "read_time_finished (snd (snd ?a))"
      let ?ua = "ms_users_available (statistics_moves (snd ?rt)) (idx_i new_idx, idx_m new_idx, idx_t new_idx)"
      have ta: "static w (snd (snd ?a))" by (rule static_try_add)
      have tr: "static w (snd ?rt)" by (rule static_trans[OF ta static_read])
      show ?thesis
      proof (cases "fst ?a < min_gain \<or> cnt + 1 > max_count")
        case True
        then have "try_candidates cs param act_removed j mvs cnt co_it w
                     = try_fail ?p1 (fst (snd ?a)) (snd (snd ?a))"
          using Cons ns by (subst try_candidates.simps) (simp add: Let_def)
        then show ?thesis by (simp add: stable_try_fail ta)
      next
        case nb: False
        show ?thesis
        proof (cases "fst ?rt")
          case True
          then have "try_candidates cs param act_removed j mvs cnt co_it w
                       = try_fail ?p1 (fst (snd ?a)) (snd ?rt)"
            using Cons ns nb by (subst try_candidates.simps) (simp add: Let_def)
          then show ?thesis by (simp add: stable_try_fail tr)
        next
          case nt: False
          show ?thesis
          proof (cases "0 \<le> ?ua")
            case av: True
            show ?thesis
            proof (cases "0 < fst ?a")
              case True
              have e: "try_candidates cs param act_removed j mvs cnt co_it w
                         = (True, ?p1\<lparr> imp_moves := fst (snd ?a) \<rparr>, snd ?rt)"
                using True Cons ns nb nt av by (subst try_candidates.simps) (simp add: Let_def)
              show ?thesis unfolding e by (rule stable_result[OF tr]) simp_all
            next
              case ng: False
              let ?u = "undo_back (length mvs) (fst ?a) (fst (snd ?a)) (snd ?rt)"
              let ?rec = "try_candidates cs (param\<lparr> obj_gain_so_far := fst ?u \<rparr>) act_removed j
                            (fst (snd ?u)) (cnt + 1) rest (snd (snd ?u))"
              have e: "try_candidates cs param act_removed j mvs cnt co_it w = ?rec"
                using Cons ns nb nt av ng by (subst try_candidates.simps) (simp add: Let_def)
              have su: "static w (snd (snd ?u))" by (rule static_trans[OF tr static_undo_back])
              show ?thesis unfolding e
                by (rule stable_step[OF su _ _
                      "2.IH"(2)[OF Cons ns refl refl refl nb refl nt refl av ng refl]]) simp_all
            qed
          next
            case na: False
            let ?s = "try_siblings cs ?p1 (idx_m new_idx) (idx_t new_idx) ?ua (fst (snd ?a))
                        (moves_from_i (statistics_moves (snd ?rt)) (idx_i new_idx)) (snd ?rt)"
            note S = "2.IH"(3)[OF Cons ns refl refl refl nb refl nt refl na]
            have ts: "static w (snd (snd ?s))"
              using static_trans[OF tr] S unfolding stable_def by blast
            show ?thesis
            proof (cases "fst ?s")
              case True
              have e: "try_candidates cs param act_removed j mvs cnt co_it w = ?s"
                using True Cons ns nb nt na by (subst try_candidates.simps) (simp add: Let_def)
              show ?thesis unfolding e by (rule stable_step[OF tr _ _ S]) simp_all
            next
              case nf: False
              let ?u = "undo_back (length mvs) (fst ?a) (fst (snd ?a)) (snd (snd ?s))"
              let ?rec = "try_candidates cs (param\<lparr> obj_gain_so_far := fst ?u \<rparr>) act_removed j
                            (fst (snd ?u)) (cnt + 1) rest (snd (snd ?u))"
              have e: "try_candidates cs param act_removed j mvs cnt co_it w = ?rec"
                using Cons ns nb nt na nf by (subst try_candidates.simps) (simp add: Let_def)
              have su: "static w (snd (snd ?u))" by (rule static_trans[OF ts static_undo_back])
              show ?thesis unfolding e
                by (rule stable_step[OF su _ _
                      "2.IH"(4)[OF Cons ns refl refl refl nb refl nt refl na refl nf refl]]) simp_all
            qed
          qed
        qed
      qed
    qed
  qed
next
  case (3 cs param new_m new_t ua mvs sibs w)
  show ?case
  proof (cases sibs)
    case Nil
    then have "try_siblings cs param new_m new_t ua mvs sibs w = (False, param, w)"
      by (subst try_siblings.simps) simp
    then show ?thesis by (simp add: stable_result static_refl)
  next
    case (Cons sib rest)
    show ?thesis
    proof (cases "idx_m sib = new_m \<and> idx_t sib = new_t")
      case False
      have e: "try_siblings cs param new_m new_t ua mvs sibs w
                = try_siblings cs param new_m new_t ua mvs rest w"
        using Cons False by (subst try_siblings.simps) auto
      show ?thesis unfolding e using "3.IH"(3)[OF Cons False] .
    next
      case True
      let ?r = "try_improve cs (next_ti_parameter param sib (- ua)) w"
      have tr: "static w (snd (snd ?r))" using "3.IH"(1)[OF Cons True] unfolding stable_def by blast
      show ?thesis
      proof (cases "fst ?r")
        case s: True
        have e: "try_siblings cs param new_m new_t ua mvs sibs w
                   = (True, param\<lparr> imp_moves := mvs @ imp_moves (fst (snd ?r)) \<rparr>, snd (snd ?r))"
          using s Cons True by (subst try_siblings.simps) (simp add: Let_def)
        show ?thesis unfolding e by (rule stable_result[OF tr]) simp_all
      next
        case f: False
        have e: "try_siblings cs param new_m new_t ua mvs sibs w
                  = try_siblings cs param new_m new_t ua mvs rest (snd (snd ?r))"
          using Cons True f by (subst try_siblings.simps) (simp add: Let_def)
        show ?thesis unfolding e
          by (rule stable_step[OF tr _ _ "3.IH"(2)[OF Cons True refl f]]) simp_all
      qed
    qed
  qed
qed

lemma try_improve_static: "static w (snd (snd (try_improve cs param w)))"
  using try_improve_stable unfolding stable_def by blast

lemma try_siblings_static:
  "static w (snd (snd (try_siblings cs param new_m new_t ua mvs sibs w)))"
  using try_siblings_stable unfolding stable_def by blast

subsection \<open>Invariants of the improving phase\<close>

text \<open>
  \<open>lists_ok\<close>: the recorded moves are indexes inside the arrays, filed under their
  source and destination cells. \<open>track\<close>: the residual supply and the activity
  counts of the moves statistics agree with the solution. \<open>demand_upto cs j d\<close>:
  every cell has its demand covered, cell \<open>j\<close> up to \<open>d\<close> missing activities.
  \<open>supply_upto cs b d\<close>: no residual supply is negative, the one of group \<open>b\<close> after
  adding \<open>d\<close> users. \<open>proper\<close>: a move whose three recorded quantities are
  consistent.
\<close>

definition lists_ok :: "coiote_solver \<Rightarrow> improve_state \<Rightarrow> bool" where
  "lists_ok cs w =
     ((\<forall>i. \<forall>x\<in>set (moves_from_i (statistics_moves w) i). idx_i x = i \<and> valid4 cs x) \<and>
      (\<forall>j. \<forall>x\<in>set (moves_to_j (statistics_moves w) j). idx_j x = j \<and> valid4 cs x) \<and>
      (\<forall>x\<in>set (moves (statistics_moves w)). valid4 cs x))"

definition track :: "coiote_solver \<Rightarrow> improve_state \<Rightarrow> bool" where
  "track cs w =
     ((\<forall>b. valid3 cs b \<longrightarrow>
           ms_users_available (statistics_moves w) b + moved_from cs (i_solution w) b
             = users_available (problem cs) b) \<and>
      (\<forall>j<n_cells cs. done_in_j (statistics_moves w) j = done_in cs (i_solution w) j))"

definition demand_upto :: "coiote_solver \<Rightarrow> nat \<Rightarrow> int \<Rightarrow> improve_state \<Rightarrow> bool" where
  "demand_upto cs j d w =
     (\<forall>j'<n_cells cs. activities (problem cs) j'
                        \<le> done_in_j (statistics_moves w) j' + (if j' = j then d else 0))"

definition demand_ok :: "coiote_solver \<Rightarrow> improve_state \<Rightarrow> bool" where
  "demand_ok cs w = (\<forall>j<n_cells cs. activities (problem cs) j \<le> done_in_j (statistics_moves w) j)"

definition supply_upto :: "coiote_solver \<Rightarrow> three_index \<Rightarrow> int \<Rightarrow> improve_state \<Rightarrow> bool" where
  "supply_upto cs b d w =
     (\<forall>b'. valid3 cs b' \<longrightarrow> 0 \<le> ms_users_available (statistics_moves w) b' + (if b' = b then d else 0))"

definition supply_ok :: "coiote_solver \<Rightarrow> improve_state \<Rightarrow> bool" where
  "supply_ok cs w = (\<forall>b. valid3 cs b \<longrightarrow> 0 \<le> ms_users_available (statistics_moves w) b)"

definition proper :: "coiote_solver \<Rightarrow> improved_move \<Rightarrow> bool" where
  "proper cs ic =
     (valid4 cs (f_idx ic) \<and> t_idx ic = three_of (f_idx ic) \<and>
      activities_added ic = act_per_user (problem cs) (idx_m (f_idx ic)) * user_added ic)"

lemma lists_ok_static: "lists_ok cs w \<Longrightarrow> static w w' \<Longrightarrow> lists_ok cs w'"
  by (simp add: lists_ok_def static_def)

lemma lists_okD:
  assumes "lists_ok cs w"
  shows "x \<in> set (moves_from_i (statistics_moves w) i) \<Longrightarrow> idx_i x = i \<and> valid4 cs x"
    and "x \<in> set (moves_to_j (statistics_moves w) j) \<Longrightarrow> idx_j x = j \<and> valid4 cs x"
    and "x \<in> set (moves (statistics_moves w)) \<Longrightarrow> valid4 cs x"
  using assms unfolding lists_ok_def by blast+

lemma trackD:
  assumes "track cs w"
  shows "valid3 cs b \<Longrightarrow> ms_users_available (statistics_moves w) b + moved_from cs (i_solution w) b
             = users_available (problem cs) b"
    and "j < n_cells cs \<Longrightarrow> done_in_j (statistics_moves w) j = done_in cs (i_solution w) j"
  using assms unfolding track_def by blast+

lemma trackI:
  assumes "\<And>b. valid3 cs b \<Longrightarrow> ms_users_available (statistics_moves w) b + moved_from cs (i_solution w) b
             = users_available (problem cs) b"
    and "\<And>j. j < n_cells cs \<Longrightarrow> done_in_j (statistics_moves w) j = done_in cs (i_solution w) j"
  shows "track cs w"
  using assms unfolding track_def by blast

lemma demand_uptoD:
  "demand_upto cs j d w \<Longrightarrow> j' < n_cells cs \<Longrightarrow>
     activities (problem cs) j' \<le> done_in_j (statistics_moves w) j' + (if j' = j then d else 0)"
  unfolding demand_upto_def by blast

lemma demand_uptoI:
  "(\<And>j'. j' < n_cells cs \<Longrightarrow>
     activities (problem cs) j' \<le> done_in_j (statistics_moves w) j' + (if j' = j then d else 0))
   \<Longrightarrow> demand_upto cs j d w"
  unfolding demand_upto_def by blast

lemma demand_okD:
  "demand_ok cs w \<Longrightarrow> j < n_cells cs \<Longrightarrow> activities (problem cs) j \<le> done_in_j (statistics_moves w) j"
  unfolding demand_ok_def by blast

lemma demand_okI:
  "(\<And>j. j < n_cells cs \<Longrightarrow> activities (problem cs) j \<le> done_in_j (statistics_moves w) j)
   \<Longrightarrow> demand_ok cs w"
  unfolding demand_ok_def by blast

lemma supply_uptoD:
  "supply_upto cs b d w \<Longrightarrow> valid3 cs b' \<Longrightarrow>
     0 \<le> ms_users_available (statistics_moves w) b' + (if b' = b then d else 0)"
  unfolding supply_upto_def by blast

lemma supply_uptoI:
  "(\<And>b'. valid3 cs b' \<Longrightarrow> 0 \<le> ms_users_available (statistics_moves w) b' + (if b' = b then d else 0))
   \<Longrightarrow> supply_upto cs b d w"
  unfolding supply_upto_def by blast

lemma supply_okD:
  "supply_ok cs w \<Longrightarrow> valid3 cs b \<Longrightarrow> 0 \<le> ms_users_available (statistics_moves w) b"
  unfolding supply_ok_def by blast

lemma supply_okI:
  "(\<And>b. valid3 cs b \<Longrightarrow> 0 \<le> ms_users_available (statistics_moves w) b) \<Longrightarrow> supply_ok cs w"
  unfolding supply_ok_def by blast

lemma frame_transfer:
  assumes "same_frame w' w"
  shows "track cs w \<Longrightarrow> track cs w'"
    and "demand_upto cs j d w \<Longrightarrow> demand_upto cs j d w'"
    and "demand_ok cs w \<Longrightarrow> demand_ok cs w'"
    and "supply_upto cs b e w \<Longrightarrow> supply_upto cs b e w'"
    and "supply_ok cs w \<Longrightarrow> supply_ok cs w'"
  using assms
  by (simp_all add: same_frame_def track_def demand_upto_def demand_ok_def supply_upto_def supply_ok_def)

lemma idx_collapse:
  "(idx_i x, idx_j x, idx_m x, idx_t x) = x" "(idx_i x, idx_m x, idx_t x) = three_of x"
  by (cases x; simp add: idx_simps)+

lemma track_add_remove_user:
  assumes p: "proper cs ic" and t: "track cs w"
  shows "track cs (snd (add_remove_user ic undo w))"
proof (rule trackI)
  let ?d = "user_added ic * (if undo then - 1 else 1)"
  have v: "valid4 cs (f_idx ic)" and e: "t_idx ic = three_of (f_idx ic)"
    and a: "activities_added ic = act_per_user (problem cs) (idx_m (f_idx ic)) * user_added ic"
    using p by (simp_all add: proper_def)
  fix b assume b: "valid3 cs b"
  show "ms_users_available (statistics_moves (snd (add_remove_user ic undo w))) b
          + moved_from cs (i_solution (snd (add_remove_user ic undo w))) b
        = users_available (problem cs) b"
    using trackD(1)[OF t b] moved_from_add[OF v, of "i_solution w" ?d b]
    by (auto simp: add_remove_user_fields e)
next
  let ?d = "user_added ic * (if undo then - 1 else 1)"
  have v: "valid4 cs (f_idx ic)"
    and a: "activities_added ic = act_per_user (problem cs) (idx_m (f_idx ic)) * user_added ic"
    using p by (simp_all add: proper_def)
  fix j assume j: "j < n_cells cs"
  show "done_in_j (statistics_moves (snd (add_remove_user ic undo w))) j
          = done_in cs (i_solution (snd (add_remove_user ic undo w))) j"
    using trackD(2)[OF t j] done_in_add[OF v, of "i_solution w" ?d j]
    by (auto simp: add_remove_user_fields a)
qed

lemma proper_remove_move: "valid4 cs idx \<Longrightarrow> proper cs (remove_move cs idx)"
  by (simp add: proper_def remove_move_def new_improved_move_def idx_collapse idx_simps)

lemma moved_exists: "\<exists>w0. moved mvs w0 w"
proof
  show "moved mvs (snd (undo_all mvs 0 w)) w"
    by (rule movedI) (simp_all add: undo_all_fields)
qed

lemma moved_unique: "moved mvs w0 w \<Longrightarrow> moved mvs w0 w' \<Longrightarrow> same_frame w' w"
  unfolding same_frame_def by (intro conjI ext) (simp_all add: movedD)

lemma undo_after_add_frame:
  assumes x: "same_frame X (snd (snd (try_add cs param j new_idx act_removed mvs w)))"
  shows "fst (snd (undo_back (length mvs) g
            (fst (snd (try_add cs param j new_idx act_removed mvs w))) X)) = mvs"
    and "same_frame (snd (snd (undo_back (length mvs) g
            (fst (snd (try_add cs param j new_idx act_removed mvs w))) X))) w"
proof -
  let ?a = "try_add cs param j new_idx act_removed mvs w"
  obtain w0 where m: "moved mvs w0 w" using moved_exists by blast
  have ma: "moved (fst (snd ?a)) w0 (snd (snd ?a))" using m by (rule try_add_moved(1))
  obtain extra where ex: "fst (snd ?a) = mvs @ extra" using try_add_moved(2)[OF m] by blast
  have mx: "moved (mvs @ extra) w0 X" using moved_same_frame[OF ma x] ex by simp
  note U = undo_back_moved[OF mx, of g]
  show "fst (snd (undo_back (length mvs) g (fst (snd ?a)) X)) = mvs" using U ex by simp
  have "moved mvs w0 (snd (snd (undo_back (length mvs) g (fst (snd ?a)) X)))" using U ex by simp
  then show "same_frame (snd (snd (undo_back (length mvs) g (fst (snd ?a)) X))) w"
    using m moved_unique by blast
qed

lemma get_removable_loop_track:
  "\<forall>x\<in>set it. valid4 cs x \<Longrightarrow> track cs w \<Longrightarrow>
     track cs (snd (snd (get_removable_loop cs redundancy it mvs gain w)))"
proof (induction cs redundancy it mvs gain w rule: get_removable_loop.induct)
  case (1 cs redundancy it mvs gain w)
  show ?case
  proof (cases "0 < redundancy")
    case False
    then show ?thesis using "1.prems" by (subst get_removable_loop.simps) simp
  next
    case pos: True
    show ?thesis
    proof (cases it)
      case Nil
      then show ?thesis using "1.prems" by (subst get_removable_loop.simps) simp
    next
      case (Cons idx rest)
      show ?thesis
      proof (cases "act_per_user (problem cs) (idx_m idx) \<le> redundancy \<and> i_solution w idx > 0")
        case True
        have "valid4 cs idx" using "1.prems"(1) Cons by simp
        then have "track cs (snd (add_remove_user (remove_move cs idx) False w))"
          using "1.prems"(2) by (intro track_add_remove_user proper_remove_move)
        from "1.IH"(1)[OF pos Cons True "1.prems"(1) this] show ?thesis using pos Cons True
          by (subst get_removable_loop.simps) auto
      next
        case False
        have "\<forall>x\<in>set rest. valid4 cs x" using "1.prems"(1) Cons by simp
        from "1.IH"(2)[OF pos Cons False this "1.prems"(2)] show ?thesis using pos Cons False
          by (subst get_removable_loop.simps) auto
      qed
    qed
  qed
qed

lemma get_removable_loop_demand:
  "\<forall>x\<in>set it. idx_j x = j \<Longrightarrow> demand_ok cs w \<Longrightarrow>
     redundancy \<le> done_in_j (statistics_moves w) j - activities (problem cs) j \<Longrightarrow>
     demand_ok cs (snd (snd (get_removable_loop cs redundancy it mvs gain w)))"
proof (induction cs redundancy it mvs gain w rule: get_removable_loop.induct)
  case (1 cs redundancy it mvs gain w)
  show ?case
  proof (cases "0 < redundancy")
    case False
    then show ?thesis using "1.prems" by (subst get_removable_loop.simps) simp
  next
    case pos: True
    show ?thesis
    proof (cases it)
      case Nil
      then show ?thesis using "1.prems" by (subst get_removable_loop.simps) simp
    next
      case (Cons idx rest)
      show ?thesis
      proof (cases "act_per_user (problem cs) (idx_m idx) \<le> redundancy \<and> i_solution w idx > 0")
        case True
        let ?a = "act_per_user (problem cs) (idx_m idx)"
        let ?w = "snd (add_remove_user (remove_move cs idx) False w)"
        have ij: "idx_j idx = j" using "1.prems"(1) Cons by simp
        have dn: "done_in_j (statistics_moves ?w) j' =
                    done_in_j (statistics_moves w) j' - (if j' = j then ?a else 0)" for j'
          by (simp add: add_remove_user_fields remove_move_def new_improved_move_def idx_simps ij)
        have d': "demand_ok cs ?w"
        proof (rule demand_okI)
          fix j' assume "j' < n_cells cs"
          then show "activities (problem cs) j' \<le> done_in_j (statistics_moves ?w) j'"
            using demand_okD[OF "1.prems"(2), of j'] "1.prems"(3) True by (simp add: dn)
        qed
        have r': "redundancy - ?a \<le> done_in_j (statistics_moves ?w) j - activities (problem cs) j"
          using "1.prems"(3) by (simp add: dn)
        from "1.IH"(1)[OF pos Cons True "1.prems"(1) d' r'] show ?thesis using pos Cons True
          by (subst get_removable_loop.simps) auto
      next
        case False
        have "\<forall>x\<in>set rest. idx_j x = j" using "1.prems"(1) Cons by simp
        from "1.IH"(2)[OF pos Cons False this "1.prems"(2,3)] show ?thesis using pos Cons False
          by (subst get_removable_loop.simps) auto
      qed
    qed
  qed
qed

lemma get_removable_loop_supply:
  "ms_users_available (statistics_moves w) b
     \<le> ms_users_available (statistics_moves (snd (snd (get_removable_loop cs redundancy it mvs gain w)))) b"
proof (induction cs redundancy it mvs gain w rule: get_removable_loop.induct)
  case (1 cs redundancy it mvs gain w)
  show ?case
  proof (cases "0 < redundancy")
    case False
    then show ?thesis by (subst get_removable_loop.simps) simp
  next
    case pos: True
    show ?thesis
    proof (cases it)
      case Nil
      then show ?thesis by (subst get_removable_loop.simps) simp
    next
      case (Cons idx rest)
      show ?thesis
      proof (cases "act_per_user (problem cs) (idx_m idx) \<le> redundancy \<and> i_solution w idx > 0")
        case True
        let ?w = "snd (add_remove_user (remove_move cs idx) False w)"
        have "ms_users_available (statistics_moves w) b \<le> ms_users_available (statistics_moves ?w) b"
          by (simp add: add_remove_user_fields remove_move_def new_improved_move_def)
        from order_trans[OF this "1.IH"(1)[OF pos Cons True]] show ?thesis using pos Cons True
          by (subst get_removable_loop.simps) auto
      next
        case False
        from "1.IH"(2)[OF pos Cons False] show ?thesis using pos Cons False
          by (subst get_removable_loop.simps) auto
      qed
    qed
  qed
qed

lemma get_removable_steps:
  assumes l: "lists_ok cs w"
  shows "track cs w \<Longrightarrow> track cs (snd (snd (get_removable cs j mvs w)))"
    and "demand_ok cs w \<Longrightarrow> demand_ok cs (snd (snd (get_removable cs j mvs w)))"
    and "ms_users_available (statistics_moves w) b
           \<le> ms_users_available (statistics_moves (snd (snd (get_removable cs j mvs w)))) b"
proof -
  let ?sorted = "sort_by (cmp_costs_desc (problem cs)) (moves_to_j (statistics_moves w) j)"
  let ?w1 = "w\<lparr> statistics_moves := (statistics_moves w)
                 \<lparr> moves_to_j := (moves_to_j (statistics_moves w))(j := ?sorted) \<rparr> \<rparr>"
  let ?red = "done_in_j (statistics_moves w) j - activities (problem cs) j"
  have sf: "same_frame ?w1 w" by (simp add: same_frame_def)
  have s: "\<forall>x\<in>set ?sorted. valid4 cs x" "\<forall>x\<in>set ?sorted. idx_j x = j"
    using lists_okD(2)[OF l] by (simp_all add: sort_by_desc)
  have e: "get_removable cs j mvs w
             = (if ?red > 0 then get_removable_loop cs ?red ?sorted mvs 0 ?w1 else (0, mvs, w))"
    by (simp add: get_removable_def Let_def)
  show "track cs (snd (snd (get_removable cs j mvs w)))" if t: "track cs w"
    unfolding e using get_removable_loop_track[OF s(1) frame_transfer(1)[OF sf t]] t by simp
  show "demand_ok cs (snd (snd (get_removable cs j mvs w)))" if d: "demand_ok cs w"
  proof -
    have "?red \<le> done_in_j (statistics_moves ?w1) j - activities (problem cs) j" by simp
    from get_removable_loop_demand[OF s(2) frame_transfer(3)[OF sf d] this] show ?thesis
      unfolding e using d by simp
  qed
  have "ms_users_available (statistics_moves w) b = ms_users_available (statistics_moves ?w1) b"
    by simp
  then show "ms_users_available (statistics_moves w) b
           \<le> ms_users_available (statistics_moves (snd (snd (get_removable cs j mvs w)))) b"
    unfolding e using get_removable_loop_supply[of ?w1 b cs ?red ?sorted mvs 0] by simp
qed

lemma users_to_add_covers:
  assumes "0 < act_per_user (problem cs) m"
  shows "act_removed \<le> users_to_add cs act_removed m * act_per_user (problem cs) m"
proof -
  let ?a = "act_per_user (problem cs) m"
  have "(of_int act_removed :: rat) / of_int ?a \<le> of_int (users_to_add cs act_removed m)"
    unfolding users_to_add_def by (rule le_of_int_ceiling)
  then have "(of_int act_removed :: rat) \<le> of_int (users_to_add cs act_removed m) * of_int ?a"
    using assms by (simp add: pos_divide_le_eq)
  then have "(of_int act_removed :: rat) \<le> of_int (users_to_add cs act_removed m * ?a)" by simp
  then show ?thesis by (simp only: of_int_le_iff)
qed

lemma try_add_steps:
  assumes l: "lists_ok cs w" and v: "valid4 cs new_idx" and j: "idx_j new_idx = j"
  shows "track cs w \<Longrightarrow> track cs (snd (snd (try_add cs param j new_idx act_removed mvs w)))"
    and "well_formed cs \<Longrightarrow> demand_upto cs j act_removed w \<Longrightarrow>
           demand_ok cs (snd (snd (try_add cs param j new_idx act_removed mvs w)))"
    and "supply_ok cs w \<Longrightarrow>
           supply_upto cs (three_of new_idx)
             (- ms_users_available (statistics_moves
                   (snd (snd (try_add cs param j new_idx act_removed mvs w)))) (three_of new_idx))
             (snd (snd (try_add cs param j new_idx act_removed mvs w)))"
proof -
  let ?n = "users_to_add cs act_removed (idx_m new_idx)"
  let ?a = "act_per_user (problem cs) (idx_m new_idx)"
  let ?ic = "new_improved_move (idx_i new_idx) j (idx_m new_idx) (idx_t new_idx) ?n
                         (?n * ?a) (- (costs (problem cs) new_idx * ?n))"
  let ?w1 = "snd (add_remove_user ?ic False w)"
  let ?r = "get_removable cs j (mvs @ [?ic]) ?w1"
  have e: "snd (snd (try_add cs param j new_idx act_removed mvs w)) = snd (snd ?r)"
    by (simp add: try_add_def Let_def)
  have f: "f_idx ?ic = new_idx" "t_idx ?ic = three_of new_idx"
    using j idx_collapse[of new_idx] by (auto simp: new_improved_move_def)
  have p: "proper cs ?ic"
    unfolding proper_def f using v by (simp add: new_improved_move_def mult.commute)
  have l1: "lists_ok cs ?w1" using lists_ok_static[OF l static_add_remove_user] .
  show "track cs (snd (snd (try_add cs param j new_idx act_removed mvs w)))" if t: "track cs w"
    unfolding e by (rule get_removable_steps(1)[OF l1 track_add_remove_user[OF p t]])
  show "demand_ok cs (snd (snd (try_add cs param j new_idx act_removed mvs w)))"
    if wf: "well_formed cs" and d: "demand_upto cs j act_removed w"
  proof -
    have "idx_m new_idx < n_cust_types cs" using v by (cases new_idx) (simp add: valid4_def idx_simps)
    then have a: "0 < ?a" using wf by (simp add: well_formed_def)
    have c: "act_removed \<le> ?n * ?a" using users_to_add_covers[OF a] .
    have fj: "idx_j (f_idx ?ic) = j" "activities_added ?ic = ?n * ?a"
      by (simp_all add: new_improved_move_def idx_simps)
    have dn: "done_in_j (statistics_moves ?w1) j'
                = done_in_j (statistics_moves w) j' + (if j' = j then ?n * ?a else 0)" for j'
      by (simp add: add_remove_user_fields fj)
    have "demand_ok cs ?w1"
    proof (rule demand_okI)
      fix j' assume "j' < n_cells cs"
      then show "activities (problem cs) j' \<le> done_in_j (statistics_moves ?w1) j'"
        using demand_uptoD[OF d, of j'] c unfolding dn by (simp split: if_splits)
    qed
    then show ?thesis unfolding e by (rule get_removable_steps(2)[OF l1])
  qed
  show "supply_upto cs (three_of new_idx)
             (- ms_users_available (statistics_moves
                   (snd (snd (try_add cs param j new_idx act_removed mvs w)))) (three_of new_idx))
             (snd (snd (try_add cs param j new_idx act_removed mvs w)))"
    if s: "supply_ok cs w"
    unfolding e
  proof (rule supply_uptoI)
    fix b' assume b': "valid3 cs b'"
    show "0 \<le> ms_users_available (statistics_moves (snd (snd ?r))) b'
              + (if b' = three_of new_idx
                 then - ms_users_available (statistics_moves (snd (snd ?r))) (three_of new_idx) else 0)"
    proof (cases "b' = three_of new_idx")
      case True
      then show ?thesis by simp
    next
      case False
      have "ms_users_available (statistics_moves ?w1) b' = ms_users_available (statistics_moves w) b'"
        using False by (simp add: add_remove_user_fields f)
      then have "0 \<le> ms_users_available (statistics_moves ?w1) b'" using supply_okD[OF s b'] by simp
      then show ?thesis using get_removable_steps(3)[OF l1, of b' j "mvs @ [?ic]"] False by simp
    qed
  qed
qed

text \<open>
  \<open>kept cs D S w'\<close> is the conclusion about the state after a successful call:
  the accounts agree, the demands are covered if \<open>D\<close> held at entry, and no residual
  supply is negative if \<open>S\<close> held at entry.
\<close>

definition kept :: "coiote_solver \<Rightarrow> bool \<Rightarrow> bool \<Rightarrow> improve_state \<Rightarrow> bool" where
  "kept cs D S w' = (track cs w' \<and> (D \<longrightarrow> demand_ok cs w') \<and> (S \<longrightarrow> supply_ok cs w'))"

lemma kept_mono: "kept cs D S w' \<Longrightarrow> (D' \<Longrightarrow> D) \<Longrightarrow> (S' \<Longrightarrow> S) \<Longrightarrow> kept cs D' S' w'"
  unfolding kept_def by blast

lemma keptI:
  "track cs w' \<Longrightarrow> (D \<Longrightarrow> demand_ok cs w') \<Longrightarrow> (S \<Longrightarrow> supply_ok cs w') \<Longrightarrow> kept cs D S w'"
  unfolding kept_def by blast

lemma supply_upto_ok:
  assumes "supply_upto cs b (- ms_users_available (statistics_moves w) b) w"
    and "0 \<le> ms_users_available (statistics_moves w) b"
  shows "supply_ok cs w"
proof (rule supply_okI)
  fix b' assume "valid3 cs b'"
  from supply_uptoD[OF assms(1) this] assms(2)
  show "0 \<le> ms_users_available (statistics_moves w) b'" by (cases "b' = b") simp_all
qed

lemma remove_step:
  fixes n :: int and cx :: four_index and cs :: coiote_solver
  assumes v: "valid4 cs cx"
  defines "ic \<equiv> new_improved_move (idx_i cx) (idx_j cx) (idx_m cx) (idx_t cx)
                  (- n) (- (act_per_user (problem cs) (idx_m cx) * n)) (n * costs (problem cs) cx)"
  shows "track cs w \<Longrightarrow> track cs (snd (add_remove_user ic False w))"
    and "demand_ok cs w \<Longrightarrow>
           demand_upto cs (idx_j cx) (act_per_user (problem cs) (idx_m cx) * n)
             (snd (add_remove_user ic False w))"
    and "supply_upto cs (three_of cx) n w \<Longrightarrow> supply_ok cs (snd (add_remove_user ic False w))"
proof -
  have f: "f_idx ic = cx" "t_idx ic = three_of cx" "user_added ic = - n"
    "activities_added ic = - (act_per_user (problem cs) (idx_m cx) * n)"
    by (simp_all add: ic_def new_improved_move_def idx_collapse)
  have p: "proper cs ic" unfolding proper_def f using v by simp
  show "track cs (snd (add_remove_user ic False w))" if "track cs w"
    using track_add_remove_user[OF p that] .
  show "demand_upto cs (idx_j cx) (act_per_user (problem cs) (idx_m cx) * n)
             (snd (add_remove_user ic False w))" if d: "demand_ok cs w"
  proof (rule demand_uptoI)
    fix j' assume "j' < n_cells cs"
    from demand_okD[OF d this]
    show "activities (problem cs) j' \<le> done_in_j (statistics_moves (snd (add_remove_user ic False w))) j'
            + (if j' = idx_j cx then act_per_user (problem cs) (idx_m cx) * n else 0)"
      by (auto simp: add_remove_user_fields f)
  qed
  show "supply_ok cs (snd (add_remove_user ic False w))" if s: "supply_upto cs (three_of cx) n w"
  proof (rule supply_okI)
    fix b assume "valid3 cs b"
    from supply_uptoD[OF s this]
    show "0 \<le> ms_users_available (statistics_moves (snd (add_remove_user ic False w))) b"
      by (auto simp: add_remove_user_fields f split: if_splits)
  qed
qed

lemma try_improve_kept:
  "well_formed cs \<longrightarrow> candidates_ok cs \<longrightarrow> lists_ok cs w \<longrightarrow> valid4 cs (curr_idx param) \<longrightarrow>
     track cs w \<longrightarrow> fst (try_improve cs param w) \<longrightarrow>
     kept cs (demand_ok cs w) (supply_upto cs (three_of (curr_idx param)) (users_to_remove param) w)
       (snd (snd (try_improve cs param w)))"
  and try_candidates_kept:
  "well_formed cs \<longrightarrow> candidates_ok cs \<longrightarrow> lists_ok cs w \<longrightarrow>
     (\<forall>x\<in>set co_it. valid4 cs x \<and> idx_j x = j) \<longrightarrow> track cs w \<longrightarrow>
     fst (try_candidates cs param act_removed j mvs cnt co_it w) \<longrightarrow>
     kept cs (demand_upto cs j act_removed w) (supply_ok cs w)
       (snd (snd (try_candidates cs param act_removed j mvs cnt co_it w)))"
  and try_siblings_kept:
  "\<forall>new_i. well_formed cs \<longrightarrow> candidates_ok cs \<longrightarrow> lists_ok cs w \<longrightarrow>
     (\<forall>x\<in>set sibs. idx_i x = new_i \<and> valid4 cs x) \<longrightarrow> track cs w \<longrightarrow>
     fst (try_siblings cs param new_m new_t ua mvs sibs w) \<longrightarrow>
     kept cs (demand_ok cs w) (supply_upto cs (new_i, new_m, new_t) (- ua) w)
       (snd (snd (try_siblings cs param new_m new_t ua mvs sibs w)))"
proof (induction cs param w and cs param act_removed j mvs cnt co_it w
         and cs param new_m new_t ua mvs sibs w
       rule: try_improve_try_candidates_try_siblings.induct)
  case (1 cs param w)
  show ?case
  proof (intro impI)
    assume wf: "well_formed cs" and ok: "candidates_ok cs" and l: "lists_ok cs w"
      and v: "valid4 cs (curr_idx param)" and t: "track cs w"
      and s0: "fst (try_improve cs param w)"
    let ?g = "i_solution w (curr_idx param) < users_to_remove param \<or> it_level param > max_level
         \<or> curr_idx param \<in> set (considered_cells param)"
    have ng: "\<not> ?g"
    proof
      assume ?g
      then have "try_improve cs param w = (False, param, w)" by (subst try_improve.simps) simp
      then show False using s0 by simp
    qed
    let ?curr = "curr_idx param"
    let ?act = "act_per_user (problem cs) (idx_m ?curr) * users_to_remove param"
    let ?ic = "new_improved_move (idx_i ?curr) (idx_j ?curr) (idx_m ?curr) (idx_t ?curr)
                 (- users_to_remove param) (- ?act) (users_to_remove param * costs (problem cs) ?curr)"
    let ?w1 = "snd (add_remove_user ?ic False w)"
    let ?co = "costs_order (statistics cs) (get_costs_idx cs ?act) (idx_j ?curr)"
    let ?p = "param\<lparr> considered_cells := considered_cells param @ [?curr],
                      obj_gain_so_far := obj_gain_so_far param + fst (add_remove_user ?ic False w) \<rparr>"
    let ?rec = "try_candidates cs ?p ?act (idx_j ?curr) [?ic] 0 ?co ?w1"
    have e: "try_improve cs param w = ?rec"
      using ng by (subst try_improve.simps) (simp add: Let_def)
    have l1: "lists_ok cs ?w1" using lists_ok_static[OF l static_add_remove_user] .
    have c: "\<forall>x\<in>set ?co. valid4 cs x \<and> idx_j x = idx_j ?curr"
      using ok unfolding candidates_ok_def by blast
    note R = remove_step[OF v, where w = w and n = "users_to_remove param"]
    have s1: "fst ?rec" using s0 unfolding e .
    have k: "kept cs (demand_upto cs (idx_j ?curr) ?act ?w1) (supply_ok cs ?w1) (snd (snd ?rec))"
      using "1"[OF ng refl refl refl refl] wf ok l1 c R(1)[OF t] s1 by blast
    show "kept cs (demand_ok cs w) (supply_upto cs (three_of ?curr) (users_to_remove param) w)
            (snd (snd (try_improve cs param w)))"
      unfolding e using k R(2) R(3) by (rule kept_mono)
  qed
next
  case (2 cs param act_removed j mvs cnt co_it w)
  show ?case
  proof (intro impI)
    assume wf: "well_formed cs" and ok: "candidates_ok cs" and l: "lists_ok cs w"
      and c: "\<forall>x\<in>set co_it. valid4 cs x \<and> idx_j x = j" and t: "track cs w"
      and s0: "fst (try_candidates cs param act_removed j mvs cnt co_it w)"
    let ?goal = "kept cs (demand_upto cs j act_removed w) (supply_ok cs w)
                   (snd (snd (try_candidates cs param act_removed j mvs cnt co_it w)))"
    show ?goal
    proof (cases co_it)
      case Nil
      then have "try_candidates cs param act_removed j mvs cnt co_it w = try_fail param mvs w"
        by (subst try_candidates.simps) simp
      then show ?thesis using s0 try_fail_fails by simp
    next
      case (Cons new_idx rest)
      have cv: "valid4 cs new_idx" "idx_j new_idx = j" using c Cons by simp_all
      have cr: "\<forall>x\<in>set rest. valid4 cs x \<and> idx_j x = j" using c Cons by simp
      let ?skip = "new_idx \<in> set (considered_cells param)
               \<or> users_available (problem cs) (idx_i new_idx, idx_m new_idx, idx_t new_idx)
                   < users_to_add cs act_removed (idx_m new_idx)"
      show ?thesis
      proof (cases ?skip)
        case True
        have e: "try_candidates cs param act_removed j mvs cnt co_it w
                  = try_candidates cs param act_removed j mvs cnt rest w"
          using True Cons by (subst try_candidates.simps) simp
        show ?thesis using "2.IH"(1)[OF Cons True] wf ok l cr t s0 unfolding e by blast
      next
        case ns: False
        let ?a = "try_add cs param j new_idx act_removed mvs w"
        let ?p1 = "param\<lparr> obj_gain_so_far := fst ?a \<rparr>"
        let ?rt = "read_time_finished (snd (snd ?a))"
        let ?nb = "(idx_i new_idx, idx_m new_idx, idx_t new_idx)"
        let ?ua = "ms_users_available (statistics_moves (snd ?rt)) ?nb"
        have nb: "?nb = three_of new_idx" by (rule idx_collapse(2))
        have sr: "same_frame (snd ?rt) (snd (snd ?a))" by (rule same_frame_read)
        have st: "static w (snd ?rt)" by (rule static_trans[OF static_try_add static_read])
        have lr: "lists_ok cs (snd ?rt)" using lists_ok_static[OF l st] .
        note A = try_add_steps[OF l cv, where param = param and act_removed = act_removed and mvs = mvs]
        have tr: "track cs (snd ?rt)" using frame_transfer(1)[OF sr A(1)[OF t]] .
        have dr: "demand_ok cs (snd ?rt)" if "demand_upto cs j act_removed w"
          using frame_transfer(3)[OF sr A(2)[OF wf that]] .
        have ur: "supply_upto cs ?nb (- ?ua) (snd ?rt)" if "supply_ok cs w"
          using frame_transfer(4)[OF sr A(3)[OF that]] unfolding nb
          by (simp add: read_time_finished_fields)
        show ?thesis
        proof (cases "fst ?a < min_gain \<or> cnt + 1 > max_count")
          case True
          then have "try_candidates cs param act_removed j mvs cnt co_it w
                       = try_fail ?p1 (fst (snd ?a)) (snd (snd ?a))"
            using Cons ns by (subst try_candidates.simps) (simp add: Let_def)
          then show ?thesis using s0 try_fail_fails by simp
        next
          case nb': False
          show ?thesis
          proof (cases "fst ?rt")
            case True
            then have "try_candidates cs param act_removed j mvs cnt co_it w
                         = try_fail ?p1 (fst (snd ?a)) (snd ?rt)"
              using Cons ns nb' by (subst try_candidates.simps) (simp add: Let_def)
            then show ?thesis using s0 try_fail_fails by simp
          next
            case nt: False
            show ?thesis
            proof (cases "0 \<le> ?ua")
              case av: True
              show ?thesis
              proof (cases "0 < fst ?a")
                case True
                have e: "try_candidates cs param act_removed j mvs cnt co_it w
                           = (True, ?p1\<lparr> imp_moves := fst (snd ?a) \<rparr>, snd ?rt)"
                  using True Cons ns nb' nt av by (subst try_candidates.simps) (simp add: Let_def)
                have "supply_ok cs (snd ?rt)" if "supply_ok cs w"
                  using supply_upto_ok[OF ur[OF that] av] .
                then show ?thesis unfolding e using tr dr by (intro keptI) simp_all
              next
                case ng: False
                let ?u = "undo_back (length mvs) (fst ?a) (fst (snd ?a)) (snd ?rt)"
                let ?rec = "try_candidates cs (param\<lparr> obj_gain_so_far := fst ?u \<rparr>) act_removed j
                              (fst (snd ?u)) (cnt + 1) rest (snd (snd ?u))"
                have e: "try_candidates cs param act_removed j mvs cnt co_it w = ?rec"
                  using Cons ns nb' nt av ng by (subst try_candidates.simps) (simp add: Let_def)
                note U = undo_after_add_frame[OF sr, where g = "fst ?a"]
                have lu: "lists_ok cs (snd (snd ?u))"
                  using lists_ok_static[OF lr static_undo_back] .
                have k: "kept cs (demand_upto cs j act_removed (snd (snd ?u))) (supply_ok cs (snd (snd ?u)))
                           (snd (snd ?rec))"
                  using "2.IH"(2)[OF Cons ns refl refl refl nb' refl nt refl av ng refl]
                    wf ok lu cr frame_transfer(1)[OF U(2) t] s0 unfolding e by blast
                show ?thesis unfolding e using k frame_transfer(2)[OF U(2)] frame_transfer(5)[OF U(2)]
                  by (rule kept_mono)
              qed
            next
              case na: False
              let ?sibs = "moves_from_i (statistics_moves (snd ?rt)) (idx_i new_idx)"
              let ?s = "try_siblings cs ?p1 (idx_m new_idx) (idx_t new_idx) ?ua (fst (snd ?a))
                          ?sibs (snd ?rt)"
              have sv: "\<forall>x\<in>set ?sibs. idx_i x = idx_i new_idx \<and> valid4 cs x"
                using lists_okD(1)[OF lr] by blast
              show ?thesis
              proof (cases "fst ?s")
                case True
                have e: "try_candidates cs param act_removed j mvs cnt co_it w = ?s"
                  using True Cons ns nb' nt na by (subst try_candidates.simps) (simp add: Let_def)
                have k: "kept cs (demand_ok cs (snd ?rt)) (supply_upto cs ?nb (- ?ua) (snd ?rt))
                           (snd (snd ?s))"
                  using "2.IH"(3)[OF Cons ns refl refl refl nb' refl nt refl na]
                    wf ok lr sv tr True by blast
                show ?thesis unfolding e using k dr ur by (rule kept_mono)
              next
                case nf: False
                have fs: "same_frame (snd (snd ?s)) (snd ?rt)"
                  using try_siblings_frame nf by blast
                have fa: "same_frame (snd (snd ?s)) (snd (snd ?a))"
                  using same_frame_trans[OF fs sr] .
                let ?u = "undo_back (length mvs) (fst ?a) (fst (snd ?a)) (snd (snd ?s))"
                let ?rec = "try_candidates cs (param\<lparr> obj_gain_so_far := fst ?u \<rparr>) act_removed j
                              (fst (snd ?u)) (cnt + 1) rest (snd (snd ?u))"
                have e: "try_candidates cs param act_removed j mvs cnt co_it w = ?rec"
                  using Cons ns nb' nt na nf by (subst try_candidates.simps) (simp add: Let_def)
                note U = undo_after_add_frame[OF fa, where g = "fst ?a"]
                have ls: "lists_ok cs (snd (snd ?s))"
                  using lists_ok_static[OF lr try_siblings_static] .
                have lu: "lists_ok cs (snd (snd ?u))"
                  using lists_ok_static[OF ls static_undo_back] .
                have k: "kept cs (demand_upto cs j act_removed (snd (snd ?u))) (supply_ok cs (snd (snd ?u)))
                           (snd (snd ?rec))"
                  using "2.IH"(4)[OF Cons ns refl refl refl nb' refl nt refl na refl nf refl]
                    wf ok lu cr frame_transfer(1)[OF U(2) t] s0 unfolding e by blast
                show ?thesis unfolding e using k frame_transfer(2)[OF U(2)] frame_transfer(5)[OF U(2)]
                  by (rule kept_mono)
              qed
            qed
          qed
        qed
      qed
    qed
  qed
next
  case (3 cs param new_m new_t ua mvs sibs w)
  show ?case
  proof (intro allI impI)
    fix new_i
    assume wf: "well_formed cs" and ok: "candidates_ok cs" and l: "lists_ok cs w"
      and sv: "\<forall>x\<in>set sibs. idx_i x = new_i \<and> valid4 cs x" and t: "track cs w"
      and s0: "fst (try_siblings cs param new_m new_t ua mvs sibs w)"
    let ?goal = "kept cs (demand_ok cs w) (supply_upto cs (new_i, new_m, new_t) (- ua) w)
                   (snd (snd (try_siblings cs param new_m new_t ua mvs sibs w)))"
    show ?goal
    proof (cases sibs)
      case Nil
      then have "try_siblings cs param new_m new_t ua mvs sibs w = (False, param, w)"
        by (subst try_siblings.simps) simp
      then show ?thesis using s0 by simp
    next
      case (Cons sib rest)
      have sb: "idx_i sib = new_i" "valid4 cs sib" using sv Cons by simp_all
      have sr: "\<forall>x\<in>set rest. idx_i x = new_i \<and> valid4 cs x" using sv Cons by simp
      show ?thesis
      proof (cases "idx_m sib = new_m \<and> idx_t sib = new_t")
        case False
        have e: "try_siblings cs param new_m new_t ua mvs sibs w
                  = try_siblings cs param new_m new_t ua mvs rest w"
          using Cons False by (subst try_siblings.simps) auto
        show ?thesis using "3.IH"(3)[OF Cons False] wf ok l sr t s0 unfolding e by blast
      next
        case True
        let ?np = "next_ti_parameter param sib (- ua)"
        let ?r = "try_improve cs ?np w"
        have np: "curr_idx ?np = sib" "users_to_remove ?np = - ua"
          by (simp_all add: next_ti_parameter_def)
        have b: "three_of sib = (new_i, new_m, new_t)"
          using idx_collapse(2)[of sib] sb(1) True by simp
        show ?thesis
        proof (cases "fst ?r")
          case s: True
          have e: "try_siblings cs param new_m new_t ua mvs sibs w
                     = (True, param\<lparr> imp_moves := mvs @ imp_moves (fst (snd ?r)) \<rparr>, snd (snd ?r))"
            using s Cons True by (subst try_siblings.simps) (simp add: Let_def)
          have "kept cs (demand_ok cs w) (supply_upto cs (three_of (curr_idx ?np)) (users_to_remove ?np) w)
                  (snd (snd ?r))"
            using "3.IH"(1)[OF Cons True] wf ok l sb(2) t s np(1) by simp
          then show ?thesis unfolding e np b by simp
        next
          case f: False
          have e: "try_siblings cs param new_m new_t ua mvs sibs w
                    = try_siblings cs param new_m new_t ua mvs rest (snd (snd ?r))"
            using Cons True f by (subst try_siblings.simps) (simp add: Let_def)
          have fr: "same_frame (snd (snd ?r)) w" using try_improve_frame f by blast
          have lr: "lists_ok cs (snd (snd ?r))" using lists_ok_static[OF l try_improve_static] .
          have k: "kept cs (demand_ok cs (snd (snd ?r)))
                     (supply_upto cs (new_i, new_m, new_t) (- ua) (snd (snd ?r)))
                     (snd (snd (try_siblings cs param new_m new_t ua mvs rest (snd (snd ?r)))))"
            using "3.IH"(2)[OF Cons True refl f] wf ok lr sr frame_transfer(1)[OF fr t] s0
            unfolding e by blast
          show ?thesis unfolding e using k frame_transfer(3)[OF fr] frame_transfer(4)[OF fr]
            by (rule kept_mono)
        qed
      qed
    qed
  qed
qed

subsection \<open>The state after \<^verbatim>\<open>improving_setup\<close>\<close>

text \<open>
  \<open>seen xs sol\<close> is the solution restricted to the indexes \<open>xs\<close> the loops have
  visited; \<open>setup_state\<close> pairs a solution with the statistics of its moves.
\<close>

definition seen :: "four_index list \<Rightarrow> (four_index \<Rightarrow> int) \<Rightarrow> four_index \<Rightarrow> int" where
  "seen xs sol = (\<lambda>idx. if idx \<in> set xs then sol idx else 0)"

definition setup_state :: "(four_index \<Rightarrow> int) \<Rightarrow> moves_statistics \<Rightarrow> nat \<Rightarrow> improve_state" where
  "setup_state sol ms n = \<lparr> i_solution = sol, statistics_moves = ms, time_left = n \<rparr>"

lemma setup_state_fields:
  "i_solution (setup_state sol ms n) = sol" "statistics_moves (setup_state sol ms n) = ms"
  "time_left (setup_state sol ms n) = n"
  by (simp_all add: setup_state_def)

lemma setup_step_fields:
  "sol x \<noteq> 0 \<Longrightarrow> ms_users_available (setup_step cs sol ms x) =
     (ms_users_available ms)(three_of x := ms_users_available ms (three_of x) - sol x)"
  "sol x \<noteq> 0 \<Longrightarrow> done_in_j (setup_step cs sol ms x) =
     (done_in_j ms)(idx_j x := done_in_j ms (idx_j x) + sol x * act_per_user (problem cs) (idx_m x))"
  "sol x \<noteq> 0 \<Longrightarrow> moves_from_i (setup_step cs sol ms x) =
     (moves_from_i ms)(idx_i x := moves_from_i ms (idx_i x) @ [x])"
  "sol x \<noteq> 0 \<Longrightarrow> moves_to_j (setup_step cs sol ms x) =
     (moves_to_j ms)(idx_j x := moves_to_j ms (idx_j x) @ [x])"
  "sol x \<noteq> 0 \<Longrightarrow> moves (setup_step cs sol ms x) = moves ms @ [x]"
  "sol x = 0 \<Longrightarrow> setup_step cs sol ms x = ms"
  by (simp_all add: setup_step_def Let_def)

lemma seen_snoc: "x \<notin> set xs \<Longrightarrow> seen (xs @ [x]) sol = (seen xs sol)(x := seen xs sol x + sol x)"
  by (rule ext) (simp add: seen_def)

lemma setup_step_ok:
  assumes v: "valid4 cs x" and nx: "x \<notin> set xs"
    and t: "track cs (setup_state (seen xs sol) ms n)"
    and l: "lists_ok cs (setup_state (seen xs sol) ms n)"
  shows "track cs (setup_state (seen (xs @ [x]) sol) (setup_step cs sol ms x) n)"
    and "lists_ok cs (setup_state (seen (xs @ [x]) sol) (setup_step cs sol ms x) n)"
proof -
  show "track cs (setup_state (seen (xs @ [x]) sol) (setup_step cs sol ms x) n)"
  proof (cases "sol x = 0")
    case True
    have "seen (xs @ [x]) sol = seen xs sol" using True by (intro ext) (simp add: seen_def)
    then show ?thesis using t True by (simp add: setup_step_fields)
  next
    case False
    show ?thesis
    proof (rule trackI)
      fix b assume b: "valid3 cs b"
      show "ms_users_available (statistics_moves (setup_state (seen (xs @ [x]) sol) (setup_step cs sol ms x) n)) b
              + moved_from cs (i_solution (setup_state (seen (xs @ [x]) sol) (setup_step cs sol ms x) n)) b
            = users_available (problem cs) b"
        using trackD(1)[OF t b] moved_from_add[OF v, of "seen xs sol" "sol x" b]
        by (auto simp: setup_state_fields setup_step_fields False seen_snoc[OF nx])
    next
      fix j assume j: "j < n_cells cs"
      show "done_in_j (statistics_moves (setup_state (seen (xs @ [x]) sol) (setup_step cs sol ms x) n)) j
              = done_in cs (i_solution (setup_state (seen (xs @ [x]) sol) (setup_step cs sol ms x) n)) j"
        using trackD(2)[OF t j] done_in_add[OF v, of "seen xs sol" "sol x" j]
        by (auto simp: setup_state_fields setup_step_fields False seen_snoc[OF nx] mult.commute)
    qed
  qed
  show "lists_ok cs (setup_state (seen (xs @ [x]) sol) (setup_step cs sol ms x) n)"
  proof (cases "sol x = 0")
    case True
    then show ?thesis using l by (simp add: lists_ok_def setup_state_fields setup_step_fields)
  next
    case False
    then show ?thesis using l v
      by (auto simp: lists_ok_def setup_state_fields setup_step_fields)
  qed
qed

lemma setup_fold_ok:
  "distinct (xs @ ys) \<Longrightarrow> \<forall>x\<in>set ys. valid4 cs x \<Longrightarrow>
   track cs (setup_state (seen xs sol) ms n) \<Longrightarrow> lists_ok cs (setup_state (seen xs sol) ms n) \<Longrightarrow>
   track cs (setup_state (seen (xs @ ys) sol) (foldl (setup_step cs sol) ms ys) n) \<and>
   lists_ok cs (setup_state (seen (xs @ ys) sol) (foldl (setup_step cs sol) ms ys) n)"
proof (induction ys arbitrary: xs ms)
  case Nil
  then show ?case by simp
next
  case (Cons y ys)
  have ny: "y \<notin> set xs" and d: "distinct ((xs @ [y]) @ ys)" using Cons.prems(1) by auto
  have vy: "valid4 cs y" and vs: "\<forall>x\<in>set ys. valid4 cs x" using Cons.prems(2) by simp_all
  note S = setup_step_ok[OF vy ny Cons.prems(3,4)]
  from Cons.IH[OF d vs S] show ?case by simp
qed

lemma set_setup_indexes:
  "set (setup_indexes cs) = {idx. valid4 cs idx \<and> idx_i idx \<noteq> idx_j idx}"
  unfolding setup_indexes_def by (auto simp: valid4_def idx_simps image_iff)

lemma distinct_setup_indexes: "distinct (setup_indexes cs)"
  unfolding setup_indexes_def
  by (auto intro!: distinct_concat_map simp: distinct_map inj_on_def)

lemma track_cong:
  assumes "\<And>idx. valid4 cs idx \<Longrightarrow> sol idx = sol' idx"
    and "track cs (setup_state sol' ms n)"
  shows "track cs (setup_state sol ms n)"
proof (rule trackI)
  fix b assume b: "valid3 cs b"
  show "ms_users_available (statistics_moves (setup_state sol ms n)) b
          + moved_from cs (i_solution (setup_state sol ms n)) b = users_available (problem cs) b"
    using trackD(1)[OF assms(2) b] moved_from_cong[of cs sol sol' b, OF assms(1) b]
    by (simp add: setup_state_fields)
next
  fix j assume j: "j < n_cells cs"
  show "done_in_j (statistics_moves (setup_state sol ms n)) j
          = done_in cs (i_solution (setup_state sol ms n)) j"
    using trackD(2)[OF assms(2) j] done_in_cong[of cs sol sol' j, OF assms(1) j]
    by (simp add: setup_state_fields)
qed

lemma improving_setup_ok:
  assumes zd: "\<forall>idx. idx_i idx = idx_j idx \<longrightarrow> sol idx = 0"
  shows "track cs (setup_state sol (improving_setup cs sol) n)"
    and "lists_ok cs (setup_state sol (improving_setup cs sol) n)"
proof -
  let ?ms0 = "new_moves_statistics cs"
  have z: "seen [] sol = (\<lambda>idx. 0)" by (simp add: seen_def)
  have t0: "track cs (setup_state (seen [] sol) ?ms0 n)"
    unfolding z by (rule trackI)
      (simp_all add: setup_state_fields new_moves_statistics_def moved_from_zero done_in_zero)
  have l0: "lists_ok cs (setup_state (seen [] sol) ?ms0 n)"
    by (simp add: lists_ok_def setup_state_fields new_moves_statistics_def)
  have v: "\<forall>x\<in>set (setup_indexes cs). valid4 cs x" by (simp add: set_setup_indexes)
  have d: "distinct ([] @ setup_indexes cs)" using distinct_setup_indexes by simp
  note F = setup_fold_ok[OF d v t0 l0]
  have T: "track cs (setup_state (seen (setup_indexes cs) sol) (improving_setup cs sol) n)"
    and L: "lists_ok cs (setup_state (seen (setup_indexes cs) sol) (improving_setup cs sol) n)"
    using F by (simp_all add: improving_setup_def)
  have a: "sol idx = seen (setup_indexes cs) sol idx" if "valid4 cs idx" for idx
  proof (cases "idx_i idx = idx_j idx")
    case True
    then have "sol idx = 0" using zd by blast
    then show ?thesis by (simp add: seen_def)
  next
    case False
    then show ?thesis using that by (simp add: seen_def set_setup_indexes)
  qed
  show "track cs (setup_state sol (improving_setup cs sol) n)" using track_cong[OF a T] .
  show "lists_ok cs (setup_state sol (improving_setup cs sol) n)"
    using L by (simp add: lists_ok_def setup_state_fields)
qed

subsection \<open>The invariants through \<^verbatim>\<open>improving_phase\<close>\<close>

text \<open>
  \<open>phase_inv cs D S w\<close>: the lists and the accounts are in order, the demands are
  covered if \<open>D\<close>, and no residual supply is negative if \<open>S\<close>.
\<close>

definition phase_inv :: "coiote_solver \<Rightarrow> bool \<Rightarrow> bool \<Rightarrow> improve_state \<Rightarrow> bool" where
  "phase_inv cs D S w =
     (lists_ok cs w \<and> track cs w \<and> (D \<longrightarrow> demand_ok cs w) \<and> (S \<longrightarrow> supply_ok cs w))"

lemma phase_inv_frame:
  "phase_inv cs D S w \<Longrightarrow> static w w' \<Longrightarrow> same_frame w' w \<Longrightarrow> phase_inv cs D S w'"
  unfolding phase_inv_def using lists_ok_static frame_transfer(1,3,5) by blast

lemma phase_inv_read: "phase_inv cs D S w \<Longrightarrow> phase_inv cs D S (snd (read_time_finished w))"
  by (rule phase_inv_frame[OF _ static_read]) (simp_all add: same_frame_def read_time_finished_fields)

lemma supply_ok_upto: "supply_ok cs w \<Longrightarrow> 0 \<le> d \<Longrightarrow> supply_upto cs b d w"
  by (rule supply_uptoI) (simp add: supply_okD)

lemma try_improve_phase_inv:
  assumes wf: "well_formed cs" and ok: "candidates_ok cs" and v: "valid4 cs (curr_idx param)"
    and n: "0 \<le> users_to_remove param" and i: "phase_inv cs D S w"
  shows "phase_inv cs D S (snd (snd (try_improve cs param w)))"
proof (cases "fst (try_improve cs param w)")
  case False
  have "same_frame (snd (snd (try_improve cs param w))) w" using try_improve_frame False by blast
  then show ?thesis using phase_inv_frame[OF i try_improve_static] by blast
next
  case True
  have l: "lists_ok cs w" and t: "track cs w" using i by (simp_all add: phase_inv_def)
  have k: "kept cs (demand_ok cs w) (supply_upto cs (three_of (curr_idx param)) (users_to_remove param) w)
             (snd (snd (try_improve cs param w)))"
    using try_improve_kept wf ok l v t True by blast
  have "lists_ok cs (snd (snd (try_improve cs param w)))"
    using lists_ok_static[OF l try_improve_static] .
  moreover have "S \<longrightarrow> supply_upto cs (three_of (curr_idx param)) (users_to_remove param) w"
    using i supply_ok_upto[OF _ n] by (simp add: phase_inv_def)
  moreover have "D \<longrightarrow> demand_ok cs w" using i by (simp add: phase_inv_def)
  ultimately show ?thesis using k unfolding phase_inv_def kept_def by blast
qed

lemma improve_while_phase_inv:
  "well_formed cs \<Longrightarrow> candidates_ok cs \<Longrightarrow> valid4 cs (curr_idx param) \<Longrightarrow>
   0 \<le> users_to_remove param \<Longrightarrow> phase_inv cs D S w \<Longrightarrow>
   phase_inv cs D S (snd (improve_while cs param improvement w))"
proof (induction cs param improvement w rule: improve_while.induct)
  case (1 cs param improvement w)
  let ?rt = "read_time_finished w"
  let ?r = "try_improve cs param (snd ?rt)"
  have ir: "phase_inv cs D S (snd ?rt)" using phase_inv_read[OF "1.prems"(5)] .
  show ?case
  proof (cases "fst ?rt")
    case True
    then show ?thesis using ir by (subst improve_while.simps) (simp add: Let_def)
  next
    case nt: False
    have it: "phase_inv cs D S (snd (snd ?r))"
      using try_improve_phase_inv[OF "1.prems"(1-4) ir] .
    show ?thesis
    proof (cases "fst ?r")
      case False
      then show ?thesis using nt it by (subst improve_while.simps) (simp add: Let_def)
    next
      case True
      have st: "curr_idx (fst (snd ?r)) = curr_idx param"
        "users_to_remove (fst (snd ?r)) = users_to_remove param"
        using try_improve_stable[of param "snd ?rt" cs] unfolding stable_def by simp_all
      have v: "valid4 cs (curr_idx (clear (fst (snd ?r))))"
        and n: "0 \<le> users_to_remove (clear (fst (snd ?r)))"
        using "1.prems"(3,4) st by (simp_all add: clear_def)
      from "1.IH"[OF refl nt refl True "1.prems"(1,2) v n it]
      show ?thesis using nt True by (subst improve_while.simps) (simp add: Let_def)
    qed
  qed
qed

lemma improve_types_phase_inv:
  "well_formed cs \<Longrightarrow> candidates_ok cs \<Longrightarrow> valid4 cs idx \<Longrightarrow> phase_inv cs D S w \<Longrightarrow>
   phase_inv cs D S (snd (improve_types cs idx m improvement w))"
proof (induction m arbitrary: improvement w)
  case 0
  then show ?case by simp
next
  case (Suc m)
  let ?rt = "read_time_finished w"
  let ?r = "improve_while cs (new_ti_parameter idx (int (Suc m))) improvement (snd ?rt)"
  have ir: "phase_inv cs D S (snd ?rt)" using phase_inv_read[OF Suc.prems(4)] .
  have "phase_inv cs D S (snd ?r)"
    by (rule improve_while_phase_inv[OF Suc.prems(1,2) _ _ ir])
       (simp_all add: new_ti_parameter_def Suc.prems(3))
  from Suc.IH[OF Suc.prems(1-3) this] show ?case using ir by (simp add: Let_def)
qed

lemma improve_moves_phase_inv:
  "well_formed cs \<Longrightarrow> candidates_ok cs \<Longrightarrow> \<forall>x\<in>set xs. valid4 cs x \<Longrightarrow> phase_inv cs D S w \<Longrightarrow>
   phase_inv cs D S (snd (improve_moves cs xs improvement w))"
proof (induction xs arbitrary: improvement w)
  case Nil
  then show ?case by simp
next
  case (Cons idx rest)
  let ?rt = "read_time_finished w"
  let ?r = "improve_types cs idx (nat (max_act_per_user (statistics cs))) improvement (snd ?rt)"
  have ir: "phase_inv cs D S (snd ?rt)" using phase_inv_read[OF Cons.prems(4)] .
  have v: "valid4 cs idx" and vr: "\<forall>x\<in>set rest. valid4 cs x" using Cons.prems(3) by simp_all
  have "phase_inv cs D S (snd ?r)" using improve_types_phase_inv[OF Cons.prems(1,2) v ir] .
  from Cons.IH[OF Cons.prems(1,2) vr this] show ?case using ir by (simp add: Let_def)
qed

lemma improving_phase_feasible:
  assumes wf: "well_formed cs" and ok: "candidates_ok cs"
    and zd: "\<forall>idx. idx_i idx = idx_j idx \<longrightarrow> sol idx = 0"
  shows "(\<forall>j<n_cells cs. activities (problem cs) j \<le> done_in cs sol j) \<Longrightarrow>
           j < n_cells cs \<Longrightarrow>
           activities (problem cs) j \<le> done_in cs (fst (snd (improving_phase cs sol n))) j"
    and "(\<forall>b. valid3 cs b \<longrightarrow> moved_from cs sol b \<le> users_available (problem cs) b) \<Longrightarrow>
           valid3 cs b \<Longrightarrow>
           moved_from cs (fst (snd (improving_phase cs sol n))) b \<le> users_available (problem cs) b"
proof -
  let ?st = "improving_setup cs sol"
  let ?w = "setup_state sol ?st n"
  let ?r = "improve_moves cs (moves ?st) 0 ?w"
  note I = improving_setup_ok[OF zd, of cs n]
  have e: "fst (snd (improving_phase cs sol n)) = i_solution (snd ?r)"
    by (simp add: improving_phase_def Let_def setup_state_def)
  have mv: "\<forall>x\<in>set (moves ?st). valid4 cs x"
    using lists_okD(3)[OF I(2)] by (simp add: setup_state_fields)
  have inv: "phase_inv cs D S (snd ?r)" if "phase_inv cs D S ?w" for D S
    using improve_moves_phase_inv[OF wf ok mv that] .
  show "activities (problem cs) j \<le> done_in cs (fst (snd (improving_phase cs sol n))) j"
    if d: "\<forall>j<n_cells cs. activities (problem cs) j \<le> done_in cs sol j" and j: "j < n_cells cs"
  proof -
    have "demand_ok cs ?w"
    proof (rule demand_okI)
      fix j' assume j': "j' < n_cells cs"
      show "activities (problem cs) j' \<le> done_in_j (statistics_moves ?w) j'"
        using trackD(2)[OF I(1) j'] d j' by (simp add: setup_state_fields)
    qed
    then have "phase_inv cs True False ?w" using I by (simp add: phase_inv_def)
    from inv[OF this] have t: "track cs (snd ?r)" and dd: "demand_ok cs (snd ?r)"
      by (simp_all add: phase_inv_def)
    show ?thesis unfolding e using trackD(2)[OF t j] demand_okD[OF dd j] by simp
  qed
  show "moved_from cs (fst (snd (improving_phase cs sol n))) b \<le> users_available (problem cs) b"
    if s: "\<forall>b. valid3 cs b \<longrightarrow> moved_from cs sol b \<le> users_available (problem cs) b"
      and b: "valid3 cs b"
  proof -
    have "supply_ok cs ?w"
    proof (rule supply_okI)
      fix b' assume b': "valid3 cs b'"
      have "moved_from cs sol b' \<le> users_available (problem cs) b'" using s b' by blast
      then show "0 \<le> ms_users_available (statistics_moves ?w) b'"
        using trackD(1)[OF I(1) b'] by (simp add: setup_state_fields)
    qed
    then have "phase_inv cs False True ?w" using I by (simp add: phase_inv_def)
    from inv[OF this] have t: "track cs (snd ?r)" and ss: "supply_ok cs (snd ?r)"
      by (simp_all add: phase_inv_def)
    show ?thesis unfolding e using trackD(1)[OF t b] supply_okD[OF ss b] by linarith
  qed
qed

subsection \<open>Feasibility of the solutions\<close>

text \<open>
  The solutions of the two greedy functions on the instance of claim C4 and on the
  instance of the scarce-user greedy, and the state \<^verbatim>\<open>improving_setup\<close> builds for
  the first. On the first instance the greedy assigns the users \<open>(0,1,0,0)\<close> and
  \<open>(2,1,0,0)\<close> at a cost of \<open>22\<close>; the call of \<^verbatim>\<open>try_improve\<close> on the first move
  replaces both, through one level of recursion, by the user \<open>(0,1,1,0)\<close> of cost
  \<open>15\<close>.
\<close>

definition c4_greedy_solution :: "four_index \<Rightarrow> int" where
  "c4_greedy_solution =
     (case greedy 10 c4_solver [1] no_usage of Some (ob, gs) \<Rightarrow> g_solution gs | None \<Rightarrow> (\<lambda>idx. 0))"

definition few_greedy_solution :: "four_index \<Rightarrow> int" where
  "few_greedy_solution =
     (case greedy_few_users 10 few_solver (solver_slots few_solver) [2, 1] no_usage of
        Some (ob, gs) \<Rightarrow> g_solution gs | None \<Rightarrow> (\<lambda>idx. 0))"

definition c4_improve_state :: improve_state where
  "c4_improve_state =
     setup_state c4_greedy_solution (improving_setup c4_solver c4_greedy_solution) 50"

definition c4_improve_result :: "bool \<times> ti_parameter \<times> improve_state" where
  "c4_improve_result = try_improve c4_solver (new_ti_parameter (0, 1, 0, 0) 1) c4_improve_state"

lemma c4_greedy_finite:
  "(case greedy 10 c4_solver [1] no_usage of
      Some (Objective ob, gs) \<Rightarrow>
        ob = 22 \<and> g_solution gs (0, 1, 0, 0) = 1 \<and> g_solution gs (2, 1, 0, 0) = 1
        \<and> g_solution gs (0, 1, 1, 0) = 0
    | _ \<Rightarrow> False)"
  by code_simp

lemma few_greedy_finite:
  "(case greedy_few_users 10 few_solver (solver_slots few_solver) [2, 1] no_usage of
      Some (Objective ob, gs) \<Rightarrow> ob = 25
    | _ \<Rightarrow> False)"
  by code_simp

lemma c4_improving_phase_result:
  "fst (improving_phase c4_solver c4_greedy_solution 50) = 7 \<and>
   fst (snd (improving_phase c4_solver c4_greedy_solution 50)) (0, 1, 0, 0) = 0 \<and>
   fst (snd (improving_phase c4_solver c4_greedy_solution 50)) (2, 1, 0, 0) = 0 \<and>
   fst (snd (improving_phase c4_solver c4_greedy_solution 50)) (0, 1, 1, 0) = 1"
  by code_simp

lemma c4_improve_result_succeeds:
  "fst c4_improve_result \<and>
   i_solution (snd (snd c4_improve_result)) (0, 1, 0, 0) = 0 \<and>
   i_solution (snd (snd c4_improve_result)) (2, 1, 0, 0) = 0 \<and>
   i_solution (snd (snd c4_improve_result)) (0, 1, 1, 0) = 1"
  unfolding c4_improve_result_def by code_simp

lemma c4_well_formed: "well_formed c4_solver"
proof -
  have "well_formed (new_coiote_solver 3 1 2 c4_problem)"
    by (simp add: well_formed_def new_coiote_solver_def c4_problem_def valid3_def)
  then show ?thesis unfolding c4_solver_def by (simp only: well_formed_initialization)
qed

lemma few_solver_well_formed: "well_formed few_solver"
  using few_well_formed unfolding few_solver_def by (simp only: well_formed_initialization)

lemma c4_dims: "n_cells c4_solver = 3" "n_cust_types c4_solver = 2" "n_time_steps c4_solver = 1"
  by (simp_all add: c4_solver_def initialization_phase_simps new_coiote_solver_def)

lemma few_dims: "n_cells few_solver = 3" "n_cust_types few_solver = 2" "n_time_steps few_solver = 1"
  by (simp_all add: few_solver_def initialization_phase_simps new_coiote_solver_def)

lemma c4_activities: "activities (problem c4_solver) j = (if j = 1 then 2 else 0)"
  by (simp add: c4_solver_def initialization_phase_simps new_coiote_solver_def c4_problem_def)

lemma few_activities: "activities (problem few_solver) j = (if j = 1 then 4 else if j = 2 then 3 else 0)"
  by (simp add: few_solver_def initialization_phase_simps new_coiote_solver_def few_problem_def)

text \<open>
  Claim C1 (demand satisfaction): whenever a solution-construction phase returns a
  finite objective (the standard greedy, the scarce-user greedy, or a greedy followed
  by \<^verbatim>\<open>improving_phase\<close>), the returned solution satisfies, for every destination cell
  \<open>j\<close>, \<open>\<Sum>\<^sub>i\<^sub>,\<^sub>m\<^sub>,\<^sub>t act_per_user[m] * solution[i,j,m,t] \<ge> activities[j]\<close>. The theorem is
  stated for a solver prepared by the constructor and the initialization phase on a
  well-formed problem, and for a visiting order that holds cells of the instance,
  among them every cell with a positive demand (\<^verbatim>\<open>thread_body\<close> builds the order
  from exactly these cells and shuffles it). \<open>n\<close> is the number of times the
  improving phase reads the time flag as false.
\<close>

theorem C1_demand_satisfaction:
  assumes "cs = initialization_phase (new_coiote_solver c t m p)" and "well_formed cs"
    and "\<forall>j\<in>set order. j < n_cells cs"
    and "\<forall>j<n_cells cs. 0 < activities (problem cs) j \<longrightarrow> j \<in> set order"
    and "j < n_cells cs"
  shows "(greedy fuel cs order usage = Some (Objective ob, gs) \<longrightarrow>
            activities (problem cs) j \<le> done_in cs (g_solution gs) j \<and>
            activities (problem cs) j
              \<le> done_in cs (fst (snd (improving_phase cs (g_solution gs) n))) j) \<and>
         (greedy_few_users fuel cs slots order usage = Some (Objective ob, gs) \<longrightarrow>
            activities (problem cs) j \<le> done_in cs (g_solution gs) j \<and>
            activities (problem cs) j
              \<le> done_in cs (fst (snd (improving_phase cs (g_solution gs) n))) j)"
proof -
  have ok: "candidates_ok cs" using candidates_ok_initialization assms(1) by simp
  have imp: "activities (problem cs) j \<le> done_in cs (fst (snd (improving_phase cs (g_solution gs) n))) j"
    if l: "ledger cs gs" and d: "\<And>j. j < n_cells cs \<Longrightarrow> activities (problem cs) j \<le> done_in cs (g_solution gs) j"
  proof -
    have zd: "\<forall>idx. idx_i idx = idx_j idx \<longrightarrow> g_solution gs idx = 0" using ledgerD(2)[OF l] by blast
    show ?thesis using improving_phase_feasible(1)[OF assms(2) ok zd _ assms(5)] d by blast
  qed
  have g: "activities (problem cs) j \<le> done_in cs (g_solution gs) j \<and>
           activities (problem cs) j \<le> done_in cs (fst (snd (improving_phase cs (g_solution gs) n))) j"
    if r: "greedy fuel cs order usage = Some (Objective ob, gs)"
    using greedy_feasible(3)[OF assms(2) ok assms(3) r assms(4)] assms(5)
      imp[OF greedy_feasible(2)[OF assms(2) ok assms(3) r]] by blast
  have f: "activities (problem cs) j \<le> done_in cs (g_solution gs) j \<and>
           activities (problem cs) j \<le> done_in cs (fst (snd (improving_phase cs (g_solution gs) n))) j"
    if r: "greedy_few_users fuel cs slots order usage = Some (Objective ob, gs)"
    using few_feasible(3)[OF assms(2) ok r assms(4)] assms(5)
      imp[OF few_feasible(2)[OF assms(2) ok r]] by blast
  show ?thesis using g f by blast
qed

theorem C1_demand_satisfaction_witness:
  "activities (problem c4_solver) 1 = 2 \<and>
   activities (problem c4_solver) 1 \<le> done_in c4_solver c4_greedy_solution 1 \<and>
   activities (problem c4_solver) 1
     \<le> done_in c4_solver (fst (snd (improving_phase c4_solver c4_greedy_solution 50))) 1 \<and>
   fst (improving_phase c4_solver c4_greedy_solution 50) = 7 \<and>
   activities (problem few_solver) 2 = 3 \<and>
   activities (problem few_solver) 2 \<le> done_in few_solver few_greedy_solution 2 \<and>
   activities (problem few_solver) 2
     \<le> done_in few_solver (fst (snd (improving_phase few_solver few_greedy_solution 50))) 2"
proof -
  obtain ob gs where g: "greedy 10 c4_solver [1] no_usage = Some (Objective ob, gs)"
    using c4_greedy_finite by (auto split: option.splits prod.splits objective.splits)
  have gs: "c4_greedy_solution = g_solution gs" unfolding c4_greedy_solution_def g by simp
  obtain ob' gs' where f:
    "greedy_few_users 10 few_solver (solver_slots few_solver) [2, 1] no_usage = Some (Objective ob', gs')"
    using few_greedy_finite by (auto split: option.splits prod.splits objective.splits)
  have fs: "few_greedy_solution = g_solution gs'" unfolding few_greedy_solution_def f by simp
  have o1: "\<forall>j\<in>set [1]. j < n_cells c4_solver" by (simp add: c4_dims)
  have o2: "\<forall>j<n_cells c4_solver. 0 < activities (problem c4_solver) j \<longrightarrow> j \<in> set [1]"
    by (simp add: c4_activities)
  have j1: "1 < n_cells c4_solver" by (simp add: c4_dims)
  have p1: "\<forall>j\<in>set [2, 1]. j < n_cells few_solver" by (simp add: few_dims)
  have p2: "\<forall>j<n_cells few_solver. 0 < activities (problem few_solver) j \<longrightarrow> j \<in> set [2, 1]"
    by (simp add: few_activities)
  have j2: "2 < n_cells few_solver" by (simp add: few_dims)
  note A = C1_demand_satisfaction[OF c4_solver_def c4_well_formed o1 o2 j1,
      where fuel = 10 and usage = no_usage and ob = ob and gs = gs and n = 50]
  note B = C1_demand_satisfaction[OF few_solver_def few_solver_well_formed p1 p2 j2,
      where fuel = 10 and usage = no_usage and ob = ob' and gs = gs' and n = 50
        and slots = "solver_slots few_solver"]
  show ?thesis using A B g f c4_improving_phase_result unfolding gs fs
    by (simp add: c4_activities few_activities)
qed

text \<open>
  Claim C2 (supply invariant): for every solution returned with a finite objective by
  the greedy constructors, and for every group \<open>(i, m, t)\<close>,
  \<open>\<Sum>\<^sub>j solution[i,j,m,t] \<le> users_available[i,m,t]\<close>; the invariant is preserved by every
  committed chain of \<^verbatim>\<open>try_improve\<close>, that is by every call that returns true, and so
  by \<^verbatim>\<open>improving_phase\<close>. The third conjunct is about a call of \<^verbatim>\<open>try_improve\<close> on
  any state whose lists and accounts are in order (\<open>lists_ok\<close>, \<open>track\<close>: the state
  \<^verbatim>\<open>improving_setup\<close> builds, and every state the search reaches from it), for a
  recorded cell and a number of users to remove that is not negative.
\<close>

theorem C2_supply_invariant:
  assumes "cs = initialization_phase (new_coiote_solver c t m p)" and "well_formed cs"
    and "\<forall>j\<in>set order. j < n_cells cs" and "valid3 cs b"
  shows "(greedy fuel cs order usage = Some (Objective ob, gs) \<longrightarrow>
            moved_from cs (g_solution gs) b \<le> users_available (problem cs) b \<and>
            moved_from cs (fst (snd (improving_phase cs (g_solution gs) n))) b
              \<le> users_available (problem cs) b) \<and>
         (greedy_few_users fuel cs slots order usage = Some (Objective ob, gs) \<longrightarrow>
            moved_from cs (g_solution gs) b \<le> users_available (problem cs) b \<and>
            moved_from cs (fst (snd (improving_phase cs (g_solution gs) n))) b
              \<le> users_available (problem cs) b) \<and>
         (lists_ok cs w \<and> track cs w \<and> valid4 cs (curr_idx param) \<and> 0 \<le> users_to_remove param \<and>
          (\<forall>b'. valid3 cs b' \<longrightarrow> moved_from cs (i_solution w) b' \<le> users_available (problem cs) b') \<and>
          try_improve cs param w = (True, param', w') \<longrightarrow>
            moved_from cs (i_solution w') b \<le> users_available (problem cs) b)"
proof -
  have ok: "candidates_ok cs" using candidates_ok_initialization assms(1) by simp
  have both: "moved_from cs (g_solution gs) b \<le> users_available (problem cs) b \<and>
            moved_from cs (fst (snd (improving_phase cs (g_solution gs) n))) b
              \<le> users_available (problem cs) b"
    if ci: "cell_inv cs gs" and l: "ledger cs gs"
  proof -
    have zd: "\<forall>idx. idx_i idx = idx_j idx \<longrightarrow> g_solution gs idx = 0" using ledgerD(2)[OF l] by blast
    have s: "\<forall>b. valid3 cs b \<longrightarrow> moved_from cs (g_solution gs) b \<le> users_available (problem cs) b"
      using supply_from_ledger[OF ci l] by blast
    show ?thesis using improving_phase_feasible(2)[OF assms(2) ok zd s assms(4)] s assms(4) by blast
  qed
  have g: "greedy fuel cs order usage = Some (Objective ob, gs) \<longrightarrow>
            moved_from cs (g_solution gs) b \<le> users_available (problem cs) b \<and>
            moved_from cs (fst (snd (improving_phase cs (g_solution gs) n))) b
              \<le> users_available (problem cs) b"
    using both greedy_feasible(1,2)[OF assms(2) ok assms(3)] by blast
  have f: "greedy_few_users fuel cs slots order usage = Some (Objective ob, gs) \<longrightarrow>
            moved_from cs (g_solution gs) b \<le> users_available (problem cs) b \<and>
            moved_from cs (fst (snd (improving_phase cs (g_solution gs) n))) b
              \<le> users_available (problem cs) b"
    using both few_feasible(1,2)[OF assms(2) ok] by blast
  have ti: "moved_from cs (i_solution w') b \<le> users_available (problem cs) b"
    if l: "lists_ok cs w" and t: "track cs w" and v: "valid4 cs (curr_idx param)"
      and n: "0 \<le> users_to_remove param"
      and s: "\<forall>b'. valid3 cs b' \<longrightarrow> moved_from cs (i_solution w) b' \<le> users_available (problem cs) b'"
      and r: "try_improve cs param w = (True, param', w')"
  proof -
    have so: "supply_ok cs w"
    proof (rule supply_okI)
      fix b' assume b': "valid3 cs b'"
      have "moved_from cs (i_solution w) b' \<le> users_available (problem cs) b'" using s b' by blast
      then show "0 \<le> ms_users_available (statistics_moves w) b'" using trackD(1)[OF t b'] by simp
    qed
    have "phase_inv cs False True w" using l t so by (simp add: phase_inv_def)
    from try_improve_phase_inv[OF assms(2) ok v n this]
    have "track cs w'" "supply_ok cs w'" by (simp_all add: phase_inv_def r)
    then show ?thesis using trackD(1)[OF _ assms(4)] supply_okD[OF _ assms(4)] by fastforce
  qed
  show ?thesis using g f ti by blast
qed

theorem C2_supply_invariant_witness:
  "moved_from c4_solver c4_greedy_solution (2, 0, 0) \<le> users_available (problem c4_solver) (2, 0, 0) \<and>
   moved_from c4_solver (fst (snd (improving_phase c4_solver c4_greedy_solution 50))) (0, 1, 0)
     \<le> users_available (problem c4_solver) (0, 1, 0) \<and>
   moved_from few_solver few_greedy_solution (0, 0, 0) \<le> users_available (problem few_solver) (0, 0, 0) \<and>
   c4_improve_result = (True, fst (snd c4_improve_result), snd (snd c4_improve_result)) \<and>
   i_solution (snd (snd c4_improve_result)) (0, 1, 1, 0) = 1 \<and>
   moved_from c4_solver (i_solution (snd (snd c4_improve_result))) (0, 1, 0)
     \<le> users_available (problem c4_solver) (0, 1, 0)"
proof -
  obtain ob gs where g: "greedy 10 c4_solver [1] no_usage = Some (Objective ob, gs)"
    using c4_greedy_finite by (auto split: option.splits prod.splits objective.splits)
  have gs: "c4_greedy_solution = g_solution gs" unfolding c4_greedy_solution_def g by simp
  obtain ob' gs' where f:
    "greedy_few_users 10 few_solver (solver_slots few_solver) [2, 1] no_usage = Some (Objective ob', gs')"
    using few_greedy_finite by (auto split: option.splits prod.splits objective.splits)
  have fs: "few_greedy_solution = g_solution gs'" unfolding few_greedy_solution_def f by simp
  have ok: "candidates_ok c4_solver" unfolding c4_solver_def by (rule candidates_ok_initialization)
  have o1: "\<forall>j\<in>set [1]. j < n_cells c4_solver" by (simp add: c4_dims)
  have p1: "\<forall>j\<in>set [2, 1]. j < n_cells few_solver" by (simp add: few_dims)
  have v1: "valid3 c4_solver (2, 0, 0)" "valid3 c4_solver (0, 1, 0)"
    by (simp_all add: valid3_def c4_dims)
  have v2: "valid3 few_solver (0, 0, 0)" by (simp add: valid3_def few_dims)
  have l: "ledger c4_solver gs" and ci: "cell_inv c4_solver gs"
    using greedy_feasible(1,2)[OF c4_well_formed ok o1 g] by simp_all
  have zd: "\<forall>idx. idx_i idx = idx_j idx \<longrightarrow> c4_greedy_solution idx = 0"
    unfolding gs using ledgerD(2)[OF l] by blast
  have lo: "lists_ok c4_solver c4_improve_state" and tr: "track c4_solver c4_improve_state"
    unfolding c4_improve_state_def using improving_setup_ok[OF zd] by simp_all
  have su: "\<forall>b'. valid3 c4_solver b' \<longrightarrow>
      moved_from c4_solver (i_solution c4_improve_state) b' \<le> users_available (problem c4_solver) b'"
    unfolding c4_improve_state_def setup_state_fields gs using supply_from_ledger[OF ci l] by blast
  have vp: "valid4 c4_solver (curr_idx (new_ti_parameter (0, 1, 0, 0) 1))"
    "0 \<le> users_to_remove (new_ti_parameter (0, 1, 0, 0) 1)"
    by (simp_all add: new_ti_parameter_def valid4_def c4_dims)
  have e: "c4_improve_result = (True, fst (snd c4_improve_result), snd (snd c4_improve_result))"
    using c4_improve_result_succeeds by (simp add: prod_eq_iff)
  then have r: "try_improve c4_solver (new_ti_parameter (0, 1, 0, 0) 1) c4_improve_state
                  = (True, fst (snd c4_improve_result), snd (snd c4_improve_result))"
    unfolding c4_improve_result_def .
  note A = C2_supply_invariant[OF c4_solver_def c4_well_formed o1 v1(1),
      where fuel = 10 and usage = no_usage and ob = ob and gs = gs and n = 50]
  note A' = C2_supply_invariant[OF c4_solver_def c4_well_formed o1 v1(2),
      where fuel = 10 and usage = no_usage and ob = ob and gs = gs and n = 50
        and w = c4_improve_state and param = "new_ti_parameter (0, 1, 0, 0) 1"
        and param' = "fst (snd c4_improve_result)" and w' = "snd (snd c4_improve_result)"]
  note B = C2_supply_invariant[OF few_solver_def few_solver_well_formed p1 v2,
      where fuel = 10 and usage = no_usage and ob = ob' and gs = gs'
        and slots = "solver_slots few_solver"]
  have 1: "moved_from c4_solver c4_greedy_solution (2, 0, 0) \<le> users_available (problem c4_solver) (2, 0, 0)"
    using A g unfolding gs by blast
  have 2: "moved_from c4_solver (fst (snd (improving_phase c4_solver c4_greedy_solution 50))) (0, 1, 0)
     \<le> users_available (problem c4_solver) (0, 1, 0)"
    using A' g unfolding gs by blast
  have 3: "moved_from few_solver few_greedy_solution (0, 0, 0) \<le> users_available (problem few_solver) (0, 0, 0)"
    using B f unfolding fs by blast
  have 4: "moved_from c4_solver (i_solution (snd (snd c4_improve_result))) (0, 1, 0)
     \<le> users_available (problem c4_solver) (0, 1, 0)"
    using A' lo tr vp su r by blast
  show ?thesis using 1 2 3 4 e c4_improve_result_succeeds by blast
qed

subsection \<open>The rebalance after an overshoot\<close>

text \<open>
  \<open>logged gs0 gs\<close>: relative to the state \<open>gs0\<close> at the start of the cell, the
  solution of \<open>gs\<close> has only grown, and the insert log of \<open>gs\<close> holds exactly the
  indexes at which it has grown.
\<close>

definition logged :: "greedy_state \<Rightarrow> greedy_state \<Rightarrow> bool" where
  "logged gs0 gs =
     ((\<forall>idx. g_solution gs0 idx \<le> g_solution gs idx) \<and>
      (\<forall>idx. idx \<in> set (g_inserted_indexes gs) \<longleftrightarrow> g_solution gs0 idx < g_solution gs idx))"

lemma loggedD:
  assumes "logged gs0 gs"
  shows "g_solution gs0 idx \<le> g_solution gs idx"
    and "idx \<in> set (g_inserted_indexes gs) \<longleftrightarrow> g_solution gs0 idx < g_solution gs idx"
  using assms unfolding logged_def by blast+

lemma loggedI:
  assumes "\<And>idx. g_solution gs0 idx \<le> g_solution gs idx"
    and "\<And>idx. idx \<in> set (g_inserted_indexes gs) \<longleftrightarrow> g_solution gs0 idx < g_solution gs idx"
  shows "logged gs0 gs"
  using assms unfolding logged_def by blast

lemma logged_cell_start: "logged gs0 (cell_start cs j gs0)"
  by (rule loggedI) (simp_all add: cell_start_def)

lemma greedy_fill_logged:
  assumes wf: "well_formed cs" and ok: "candidates_ok cs"
  shows "fill_inv cs gs \<Longrightarrow> logged gs0 gs \<Longrightarrow> greedy_fill fuel cs j gs = Some (Filled gs') \<Longrightarrow>
         logged gs0 gs'"
proof (induction fuel arbitrary: gs)
  case 0
  then show ?case by simp
next
  case (Suc fuel)
  show ?case
  proof (cases "0 < g_demand gs")
    case False
    then show ?thesis using Suc.prems by auto
  next
    case True
    let ?best = "greedy_select cs j gs"
    show ?thesis
    proof (cases "min_cost ?best = None")
      case True
      then show ?thesis using Suc.prems \<open>0 < g_demand gs\<close> by (auto simp: Let_def)
    next
      case False
      note P = greedy_select_picked[OF ok False]
      let ?idx = "(min_i ?best, j, min_m ?best, min_t ?best)"
      let ?gs = "greedy_commit cs j ?best gs"
      have inv': "fill_inv cs ?gs"
        using fill_inv_commit[OF wf Suc.prems(1) True P(1) P(3)] .
      have m: "min_m ?best < n_cust_types cs" using P(1) by (simp add: valid4_def)
      have a: "0 < act_per_user (problem cs) (min_m ?best)" using wf m by (simp add: well_formed_def)
      have "0 \<le> g_users_available gs (min_i ?best, min_m ?best, min_t ?best)"
        using fill_invD(1)[OF Suc.prems(1)] valid4_three[OF P(1)] by blast
      then have u: "0 < g_users_available gs (min_i ?best, min_m ?best, min_t ?best)"
        using P(3) by linarith
      have n: "1 \<le> greedy_nusers cs ?best gs" using greedy_nusers_bounds(1)[OF a True u] .
      have l': "logged gs0 ?gs"
      proof (rule loggedI)
        fix idx
        show "g_solution gs0 idx \<le> g_solution ?gs idx"
          using loggedD(1)[OF Suc.prems(2), of idx] loggedD(1)[OF Suc.prems(2), of ?idx] n
          by (simp add: greedy_commit_fields)
        show "idx \<in> set (g_inserted_indexes ?gs) \<longleftrightarrow> g_solution gs0 idx < g_solution ?gs idx"
          using loggedD(2)[OF Suc.prems(2), of idx] loggedD(1)[OF Suc.prems(2), of ?idx] n
          by (auto simp: greedy_commit_fields)
      qed
      have "greedy_fill fuel cs j ?gs = Some (Filled gs')"
        using Suc.prems(3) True False by (simp add: Let_def)
      from Suc.IH[OF inv' l' this] show ?thesis .
    qed
  qed
qed

lemma rebalance_inv_facts:
  assumes wf: "well_formed cs" and inv: "rebalance_inv cs (x # rest) gs"
  shows "valid4 cs x" and "0 < act_per_user (problem cs) (idx_m x)"
    and "act_per_user (problem cs) (idx_m x) \<le> g_demand gs \<Longrightarrow> x \<notin> set rest"
proof -
  show v: "valid4 cs x" using inv unfolding rebalance_inv_def by simp
  have "idx_m x < n_cust_types cs" using v by (cases x) (simp add: valid4_def idx_m_def)
  then show "0 < act_per_user (problem cs) (idx_m x)" using wf by (simp add: well_formed_def)
  show "x \<notin> set rest" if "act_per_user (problem cs) (idx_m x) \<le> g_demand gs"
  proof -
    have "count (mset (x # rest)) x \<le> 1" using inv that unfolding rebalance_inv_def by simp
    then have "count (mset rest) x = 0" by simp
    then show ?thesis by (simp add: count_eq_zero_iff)
  qed
qed

lemma rebalance_inv_positive:
  assumes wf: "well_formed cs" and inv: "rebalance_inv cs xs gs" and x: "x \<in> set xs"
  shows "0 < act_per_user (problem cs) (idx_m x)"
proof -
  have "valid4 cs x" using inv x unfolding rebalance_inv_def by blast
  then have "idx_m x < n_cust_types cs" by (cases x) (simp add: valid4_def idx_m_def)
  then show ?thesis using wf by (simp add: well_formed_def)
qed

lemma greedy_rebalance_walk:
  assumes wf: "well_formed cs"
  shows "rebalance_inv cs xs gs \<Longrightarrow> greedy_rebalance fuel cs xs gs = Some gs' \<Longrightarrow>
         g_demand gs' \<le> g_demand gs \<and>
         (\<forall>y. g_solution gs' y \<le> g_solution gs y) \<and>
         (\<forall>y. y \<notin> set xs \<longrightarrow> g_solution gs' y = g_solution gs y) \<and>
         (\<forall>x\<in>set xs. g_demand gs' < act_per_user (problem cs) (idx_m x) \<or> g_solution gs' x = 0)"
proof (induction fuel arbitrary: xs gs)
  case 0
  then show ?case by simp
next
  case (Suc fuel)
  show ?case
  proof (cases "0 < g_demand gs")
    case False
    then have e: "gs' = gs" using Suc.prems(2) by simp
    show ?thesis unfolding e using False rebalance_inv_positive[OF wf Suc.prems(1)] by fastforce
  next
    case pos: True
    show ?thesis
    proof (cases xs)
      case Nil
      then show ?thesis using Suc.prems pos by auto
    next
      case (Cons x rest)
      note F = rebalance_inv_facts[OF wf Suc.prems(1)[unfolded Cons]]
      show ?thesis
      proof (cases "act_per_user (problem cs) (idx_m x) \<le> g_demand gs")
        case False
        have inv': "rebalance_inv cs rest gs"
          using rebalance_inv_skip Suc.prems(1) False unfolding Cons by blast
        have "greedy_rebalance fuel cs rest gs = Some gs'"
          using Suc.prems(2) pos Cons False by simp
        note I = Suc.IH[OF inv' this]
        have "g_demand gs' < act_per_user (problem cs) (idx_m x)" using I False by linarith
        then show ?thesis using I unfolding Cons by auto
      next
        case True
        let ?xs = "if g_solution gs x - 1 = 0 then rest else x # rest"
        let ?gs = "remove_one cs x gs"
        have inv': "rebalance_inv cs ?xs ?gs"
          using rebalance_inv_remove(2)[OF wf _ True] Suc.prems(1) unfolding Cons by blast
        have "greedy_rebalance fuel cs ?xs ?gs = Some gs'"
          using Suc.prems(2) pos Cons True by (simp add: Let_def)
        note I = Suc.IH[OF inv' this]
        have d: "g_demand gs' \<le> g_demand gs" using I F(2) by (simp add: remove_one_fields)
        have s: "g_solution gs' y \<le> g_solution gs y" for y
        proof -
          have "g_solution gs' y \<le> g_solution ?gs y" using I by blast
          also have "\<dots> \<le> g_solution gs y" by (simp add: remove_one_fields)
          finally show ?thesis .
        qed
        have o: "g_solution gs' y = g_solution gs y" if "y \<notin> set (x # rest)" for y
        proof -
          have "y \<notin> set ?xs" using that by (simp split: if_splits)
          then have "g_solution gs' y = g_solution ?gs y" using I by blast
          then show ?thesis using that by (simp add: remove_one_fields)
        qed
        have m: "g_demand gs' < act_per_user (problem cs) (idx_m z) \<or> g_solution gs' z = 0"
          if z: "z \<in> set (x # rest)" for z
        proof (cases "z \<in> set ?xs")
          case True
          then show ?thesis using I by blast
        next
          case False
          then have zx: "z = x" and e: "g_solution gs x - 1 = 0" using z by (auto split: if_splits)
          have "x \<notin> set ?xs" using F(3)[OF True] e by simp
          then have "g_solution gs' x = g_solution ?gs x" using I by blast
          then show ?thesis using e zx by (simp add: remove_one_fields)
        qed
        show ?thesis unfolding Cons using d s o m by blast
      qed
    qed
  qed
qed

lemma greedy_rebalance_returns:
  assumes wf: "well_formed cs"
  shows "rebalance_inv cs xs gs \<Longrightarrow> int (length xs) + g_demand gs < int fuel \<Longrightarrow>
         greedy_rebalance fuel cs xs gs \<noteq> None"
proof (induction fuel arbitrary: xs gs)
  case 0
  have "0 \<le> g_demand gs" using "0.prems"(1) unfolding rebalance_inv_def by simp
  then show ?case using "0.prems"(2) by simp
next
  case (Suc fuel)
  show ?case
  proof (cases "0 < g_demand gs")
    case False
    then show ?thesis by simp
  next
    case pos: True
    show ?thesis
    proof (cases xs)
      case Nil
      then show ?thesis using pos by simp
    next
      case (Cons x rest)
      note F = rebalance_inv_facts[OF wf Suc.prems(1)[unfolded Cons]]
      show ?thesis
      proof (cases "act_per_user (problem cs) (idx_m x) \<le> g_demand gs")
        case False
        have inv': "rebalance_inv cs rest gs"
          using rebalance_inv_skip Suc.prems(1) False unfolding Cons by blast
        have "int (length rest) + g_demand gs < int fuel" using Suc.prems(2) Cons by simp
        from Suc.IH[OF inv' this] show ?thesis using pos Cons False by simp
      next
        case True
        let ?xs = "if g_solution gs x - 1 = 0 then rest else x # rest"
        let ?gs = "remove_one cs x gs"
        have inv': "rebalance_inv cs ?xs ?gs"
          using rebalance_inv_remove(2)[OF wf _ True] Suc.prems(1) unfolding Cons by blast
        have "int (length ?xs) + g_demand ?gs < int fuel"
          using Suc.prems(2) Cons F(2) by (simp add: remove_one_fields)
        from Suc.IH[OF inv' this] show ?thesis using pos Cons True by (simp add: Let_def)
      qed
    qed
  qed
qed

lemma rb_solver_well_formed: "well_formed rb_solver"
  using rb_well_formed unfolding rb_solver_def by (simp only: well_formed_initialization)

definition rb_start :: greedy_state where
  "rb_start = greedy_start rb_solver no_usage"

definition rb_filled :: greedy_state where
  "rb_filled =
     (case greedy_fill 10 rb_solver 1 (cell_start rb_solver 1 rb_start) of
        Some (Filled g) \<Rightarrow> g | _ \<Rightarrow> rb_start)"

definition rb_served :: greedy_state where
  "rb_served =
     (case greedy_cell 10 rb_solver 1 rb_start of Some (Filled g) \<Rightarrow> g | _ \<Rightarrow> rb_start)"

lemma rb_fill_result:
  "(case greedy_fill 10 rb_solver 1 (cell_start rb_solver 1 rb_start) of
      Some (Filled g) \<Rightarrow>
        g_demand g = - 2 \<and> g_inserted_indexes g = [(0, 1, 0, 0), (0, 1, 1, 0)]
        \<and> g_inserted_indexes (rebalance_start rb_solver g) = [(0, 1, 1, 0), (0, 1, 0, 0)]
        \<and> g_solution g (0, 1, 0, 0) = 2 \<and> g_solution g (0, 1, 1, 0) = 1 \<and> g_obj_function g = 65
    | _ \<Rightarrow> False)"
  by code_simp

lemma rb_cell_result:
  "(case greedy_cell 10 rb_solver 1 rb_start of
      Some (Filled g) \<Rightarrow>
        g_demand g = 0 \<and> g_solution g (0, 1, 0, 0) = 0 \<and> g_solution g (0, 1, 1, 0) = 1
        \<and> g_obj_function g = 45 \<and> g_users_available g (0, 0, 0) = 2
    | _ \<Rightarrow> False)"
  by code_simp

text \<open>
  Claim C5 (overshoot rebalance): after the destination \<open>j\<close> has been served with a
  negative demand, the rebalance walks the insert log of the cell sorted by
  non-increasing raw cost; for each log entry it removes one user only when both
  \<open>act_per_user[m]\<close> is at most the excess and \<open>solution[i,j,m,t] > 0\<close>; a removal
  gives the user back to the supply, subtracts its cost from the objective and lowers
  the excess by \<open>act_per_user[m]\<close>; the walk stops as soon as no excess remains or
  the log is exhausted.

  The theorem is about the cell \<open>j\<close> served by the greedy of a solver prepared by the
  constructor and the initialization phase on a well-formed problem, after the
  cells \<open>pre\<close>: \<open>gs_start\<close> is the state before the cell, \<open>gs_fill\<close> the state after its fill
  loop, with a negative demand, and \<open>xs\<close> the list the rebalance walks. It states:
  that \<open>xs\<close> is a permutation of the insert log, sorted by non-increasing cost, and
  that the log holds exactly the indexes at which the fill loop has added users, all
  with destination \<open>j\<close>; the excess the walk starts with; the steps of the walk (a
  removal of one user exactly when the capacity of the entry is at most the excess,
  the iterator advancing when the entry is emptied or cannot be removed), and what
  a removal does to the solution, the supply, the objective and the excess; that
  the walk is the same with the test \<open>solution[idx] > 0\<close> in front of every removal
  (the source does not write this test), also in the whole greedy; that the walk
  returns when the bound on the iterations exceeds the length of the log plus the
  excess; and about the state \<open>gs_end\<close> it returns, which is the state the greedy leaves
  the cell with: the excess is not negative, no entry of the log could still be
  removed (its capacity exceeds the excess or its users are all removed), the
  solution is not negative and has changed only at log entries, the activities done
  in \<open>j\<close> are those before the cell plus the demand plus the excess, the residual
  supply is the supply minus the users moved, and the objective is the cost of the
  solution.
\<close>

theorem C5_rebalance:
  assumes "cs = initialization_phase (new_coiote_solver c t m p)" and "well_formed cs"
    and "\<forall>j'\<in>set pre. j' < n_cells cs"
    and "greedy_cells fuel cs pre (greedy_start cs usage) = Some (Objective ob, gs_start)"
    and "greedy_fill fuel cs j (cell_start cs j gs_start) = Some (Filled gs_fill)" and "g_demand gs_fill < 0"
    and "xs = g_inserted_indexes (rebalance_start cs gs_fill)"
  shows "mset xs = mset (g_inserted_indexes gs_fill) \<and>
     sorted (map (\<lambda>idx. - costs (problem cs) idx) xs) \<and>
     (\<forall>idx. idx \<in> set xs \<longleftrightarrow> g_solution gs_start idx < g_solution gs_fill idx) \<and>
     (\<forall>idx\<in>set xs. idx_j idx = j) \<and>
     g_demand (rebalance_start cs gs_fill) = - g_demand gs_fill \<and>
     (0 < g_demand g \<longrightarrow>
        greedy_rebalance (Suc k) cs (x # rest) g =
          (if act_per_user (problem cs) (idx_m x) \<le> g_demand g
           then greedy_rebalance k cs (if g_solution g x - 1 = 0 then rest else x # rest)
                  (remove_one cs x g)
           else greedy_rebalance k cs rest g)) \<and>
     (g_demand g \<le> 0 \<or> ys = [] \<longrightarrow> greedy_rebalance (Suc k) cs ys g = Some g) \<and>
     g_solution (remove_one cs x g) = (g_solution g)(x := g_solution g x - 1) \<and>
     g_users_available (remove_one cs x g) =
       (g_users_available g)(three_of x := g_users_available g (three_of x) + 1) \<and>
     g_obj_function (remove_one cs x g) = g_obj_function g - costs (problem cs) x \<and>
     g_demand (remove_one cs x g) = g_demand g - act_per_user (problem cs) (idx_m x) \<and>
     greedy_rebalance fuel cs xs (rebalance_start cs gs_fill)
       = greedy_rebalance_guarded fuel cs xs (rebalance_start cs gs_fill) \<and>
     greedy fuel cs order usage = greedy_guarded fuel cs order usage \<and>
     (int (length xs) - g_demand gs_fill < int fuel \<longrightarrow>
        greedy_rebalance fuel cs xs (rebalance_start cs gs_fill) \<noteq> None) \<and>
     (greedy_rebalance fuel cs xs (rebalance_start cs gs_fill) = Some gs_end \<longrightarrow>
        greedy_cell fuel cs j gs_start = Some (Filled gs_end) \<and>
        0 \<le> g_demand gs_end \<and>
        (\<forall>x\<in>set xs. g_demand gs_end < act_per_user (problem cs) (idx_m x) \<or> g_solution gs_end x = 0) \<and>
        (\<forall>idx. 0 \<le> g_solution gs_end idx \<and> g_solution gs_end idx \<le> g_solution gs_fill idx \<and>
               (idx \<notin> set xs \<longrightarrow> g_solution gs_end idx = g_solution gs_fill idx)) \<and>
        done_in cs (g_solution gs_end) j
          = done_in cs (g_solution gs_start) j + activities (problem cs) j + g_demand gs_end \<and>
        (\<forall>b. valid3 cs b \<longrightarrow>
           g_users_available gs_end b = users_available (problem cs) b - moved_from cs (g_solution gs_end) b) \<and>
        g_obj_function gs_end = total_cost cs (g_solution gs_end))"
proof -
  let ?rs = "rebalance_start cs gs_fill"
  have wf: "well_formed cs" by (rule assms(2))
  have ok: "candidates_ok cs" using candidates_ok_initialization assms(1) by simp
  have e0: "\<forall>j\<in>{}. activities (problem cs) j \<le> done_in cs (g_solution (greedy_start cs usage)) j"
    by simp
  note R0 = greedy_cells_ledger[OF wf ok cell_inv_greedy_start[OF wf] ledger_greedy_start assms(3) e0
      assms(4)]
  have ci0: "cell_inv cs gs_start" and l0: "ledger cs gs_start" using R0 by simp_all
  note fi = cell_inv_start[OF ci0, of j]
  have F: "fill_inv cs gs_fill" using greedy_fill_inv[OF wf ok fi assms(5)] by simp
  have ls: "ledger cs (cell_start cs j gs_start)" using l0 by (simp add: ledger_cell_start)
  have lg: "log_for j (g_inserted_indexes (cell_start cs j gs_start))" by (simp add: log_for_def cell_start_def)
  note L = greedy_fill_ledger[OF wf ok fi ls lg assms(5)]
  note LG = greedy_fill_logged[OF wf ok fi logged_cell_start assms(5)]
  have ri: "rebalance_inv cs xs ?rs" unfolding assms(7) using rebalance_start_inv[OF F assms(6)] .
  have sx: "set xs = set (g_inserted_indexes gs_fill)" unfolding assms(7) by (simp add: rebalance_start_fields)
  have 1: "mset xs = mset (g_inserted_indexes gs_fill)" unfolding assms(7) by (simp add: rebalance_start_fields)
  have 2: "sorted (map (\<lambda>idx. - costs (problem cs) idx) xs)"
    unfolding assms(7) by (simp add: rebalance_start_fields)
  have 3: "\<forall>idx. idx \<in> set xs \<longleftrightarrow> g_solution gs_start idx < g_solution gs_fill idx"
    unfolding sx using loggedD(2)[OF LG] by blast
  have 4: "\<forall>idx\<in>set xs. idx_j idx = j" unfolding sx using L unfolding log_for_def by blast
  have 5: "g_demand ?rs = - g_demand gs_fill" by (simp add: rebalance_start_fields)
  have 6: "0 < g_demand g \<longrightarrow>
        greedy_rebalance (Suc k) cs (x # rest) g =
          (if act_per_user (problem cs) (idx_m x) \<le> g_demand g
           then greedy_rebalance k cs (if g_solution g x - 1 = 0 then rest else x # rest)
                  (remove_one cs x g)
           else greedy_rebalance k cs rest g)"
    by (simp add: Let_def)
  have 7: "g_demand g \<le> 0 \<or> ys = [] \<longrightarrow> greedy_rebalance (Suc k) cs ys g = Some g" by auto
  note G = rebalance_guarded_eq[OF wf ri, of fuel]
  have 8: "greedy_rebalance fuel cs xs ?rs = greedy_rebalance_guarded fuel cs xs ?rs" using G by blast
  have 9: "greedy fuel cs order usage = greedy_guarded fuel cs order usage"
    unfolding greedy_def greedy_guarded_def
    by (rule greedy_cells_guarded_eq[OF wf ok cell_inv_greedy_start[OF wf]])
  have 10: "int (length xs) - g_demand gs_fill < int fuel \<longrightarrow> greedy_rebalance fuel cs xs ?rs \<noteq> None"
    using greedy_rebalance_returns[OF wf ri, of fuel] by (simp add: 5)
  have 11: "greedy_cell fuel cs j gs_start = Some (Filled gs_end) \<and>
        0 \<le> g_demand gs_end \<and>
        (\<forall>x\<in>set xs. g_demand gs_end < act_per_user (problem cs) (idx_m x) \<or> g_solution gs_end x = 0) \<and>
        (\<forall>idx. 0 \<le> g_solution gs_end idx \<and> g_solution gs_end idx \<le> g_solution gs_fill idx \<and>
               (idx \<notin> set xs \<longrightarrow> g_solution gs_end idx = g_solution gs_fill idx)) \<and>
        done_in cs (g_solution gs_end) j
          = done_in cs (g_solution gs_start) j + activities (problem cs) j + g_demand gs_end \<and>
        (\<forall>b. valid3 cs b \<longrightarrow>
           g_users_available gs_end b = users_available (problem cs) b - moved_from cs (g_solution gs_end) b) \<and>
        g_obj_function gs_end = total_cost cs (g_solution gs_end)"
    if rr: "greedy_rebalance fuel cs xs ?rs = Some gs_end"
  proof -
    have a: "greedy_cell fuel cs j gs_start = Some (Filled gs_end)"
      using assms(5,6) rr unfolding greedy_cell_def assms(7) by simp
    have ci2: "cell_inv cs gs_end" and nn: "0 \<le> g_demand gs_end" using G rr by simp_all
    note W = greedy_rebalance_walk[OF wf ri rr]
    have lr: "ledger cs ?rs" using L by (simp add: ledger_rebalance_start)
    have gr: "log_for j xs" unfolding assms(7) using L by (simp add: log_for_rebalance_start)
    note RL = greedy_rebalance_ledger[OF wf ri lr gr rr]
    have l2: "ledger cs gs_end" using RL by blast
    have b: "\<forall>idx. 0 \<le> g_solution gs_end idx \<and> g_solution gs_end idx \<le> g_solution gs_fill idx \<and>
               (idx \<notin> set xs \<longrightarrow> g_solution gs_end idx = g_solution gs_fill idx)"
      using W cell_invD(2)[OF ci2] by (simp add: rebalance_start_fields)
    have "done_in cs (g_solution gs_end) j - g_demand gs_end
            = done_in cs (g_solution ?rs) j - g_demand ?rs"
      using conjunct2[OF RL, rule_format, of j] by simp
    then have "done_in cs (g_solution gs_end) j - g_demand gs_end
                 = done_in cs (g_solution gs_fill) j + g_demand gs_fill"
      by (simp add: rebalance_start_fields)
    moreover have "done_in cs (g_solution gs_fill) j + g_demand gs_fill
                     = done_in cs (g_solution (cell_start cs j gs_start)) j + g_demand (cell_start cs j gs_start)"
      using conjunct2[OF conjunct2[OF L], rule_format, of j] by simp
    then have "done_in cs (g_solution gs_fill) j + g_demand gs_fill
                     = done_in cs (g_solution gs_start) j + activities (problem cs) j"
      by (simp add: cell_start_def)
    ultimately have d: "done_in cs (g_solution gs_end) j
          = done_in cs (g_solution gs_start) j + activities (problem cs) j + g_demand gs_end" by linarith
    have s: "\<forall>b. valid3 cs b \<longrightarrow>
           g_users_available gs_end b = users_available (problem cs) b - moved_from cs (g_solution gs_end) b"
      using ledgerD(1)[OF l2] by fastforce
    show ?thesis using a nn W b d s ledgerD(3)[OF l2] by blast
  qed
  have r: "g_solution (remove_one cs x g) = (g_solution g)(x := g_solution g x - 1)"
    "g_users_available (remove_one cs x g) =
       (g_users_available g)(three_of x := g_users_available g (three_of x) + 1)"
    "g_obj_function (remove_one cs x g) = g_obj_function g - costs (problem cs) x"
    "g_demand (remove_one cs x g) = g_demand g - act_per_user (problem cs) (idx_m x)"
    by (simp_all add: remove_one_fields)
  show ?thesis
    apply (intro conjI)
    subgoal by (fact 1)
    subgoal by (fact 2)
    subgoal by (fact 3)
    subgoal by (fact 4)
    subgoal by (fact 5)
    subgoal by (fact 6)
    subgoal by (fact 7)
    subgoal by (fact r(1))
    subgoal by (fact r(2))
    subgoal by (fact r(3))
    subgoal by (fact r(4))
    subgoal by (fact 8)
    subgoal by (fact 9)
    subgoal by (fact 10)
    subgoal using 11 by (rule impI)
    done
qed

theorem C5_rebalance_witness:
  "greedy_fill 10 rb_solver 1 (cell_start rb_solver 1 rb_start) = Some (Filled rb_filled) \<and>
   g_demand rb_filled = - 2 \<and>
   g_inserted_indexes rb_filled = [(0, 1, 0, 0), (0, 1, 1, 0)] \<and>
   g_inserted_indexes (rebalance_start rb_solver rb_filled) = [(0, 1, 1, 0), (0, 1, 0, 0)] \<and>
   g_solution rb_filled (0, 1, 0, 0) = 2 \<and> g_solution rb_filled (0, 1, 1, 0) = 1 \<and>
   g_obj_function rb_filled = 65 \<and>
   greedy_rebalance 10 rb_solver (g_inserted_indexes (rebalance_start rb_solver rb_filled))
      (rebalance_start rb_solver rb_filled) = Some rb_served \<and>
   greedy_cell 10 rb_solver 1 rb_start = Some (Filled rb_served) \<and>
   g_demand rb_served = 0 \<and>
   g_solution rb_served (0, 1, 0, 0) = 0 \<and> g_solution rb_served (0, 1, 1, 0) = 1 \<and>
   g_obj_function rb_served = 45 \<and>
   total_cost rb_solver (g_solution rb_served) = 45 \<and>
   done_in rb_solver (g_solution rb_served) 1 = 3"
proof -
  let ?f = "greedy_fill 10 rb_solver 1 (cell_start rb_solver 1 rb_start)"
  obtain g1 where f: "?f = Some (Filled g1)"
    using rb_fill_result by (auto split: option.splits fill_result.splits)
  have e1: "rb_filled = g1" unfolding rb_filled_def f by simp
  have v1: "g_demand g1 = - 2" "g_inserted_indexes g1 = [(0, 1, 0, 0), (0, 1, 1, 0)]"
    "g_inserted_indexes (rebalance_start rb_solver g1) = [(0, 1, 1, 0), (0, 1, 0, 0)]"
    "g_solution g1 (0, 1, 0, 0) = 2" "g_solution g1 (0, 1, 1, 0) = 1" "g_obj_function g1 = 65"
    using rb_fill_result unfolding f by simp_all
  have pre: "\<forall>j'\<in>set []. j' < n_cells rb_solver" by simp
  have c0: "greedy_cells 10 rb_solver [] (greedy_start rb_solver no_usage) = Some (Objective 0, rb_start)"
    by (simp add: rb_start_def greedy_start_def)
  have f': "greedy_fill 10 rb_solver 1 (cell_start rb_solver 1 rb_start) = Some (Filled g1)" by (rule f)
  have neg: "g_demand g1 < 0" using v1(1) by simp
  note T = C5_rebalance[OF rb_solver_def rb_solver_well_formed pre c0 f' neg refl]
  let ?xs = "g_inserted_indexes (rebalance_start rb_solver g1)"
  let ?r = "greedy_rebalance 10 rb_solver ?xs (rebalance_start rb_solver g1)"
  have "int (length ?xs) - g_demand g1 < int 10" by (simp add: v1)
  then have "?r \<noteq> None" using T by blast
  then obtain g2 where r: "?r = Some g2" by blast
  note T2 = C5_rebalance[where gs_end = g2, OF rb_solver_def rb_solver_well_formed pre c0 f' neg refl]
  have c: "greedy_cell 10 rb_solver 1 rb_start = Some (Filled g2)"
    and o: "g_obj_function g2 = total_cost rb_solver (g_solution g2)"
    and d: "done_in rb_solver (g_solution g2) 1
              = done_in rb_solver (g_solution rb_start) 1 + activities (problem rb_solver) 1 + g_demand g2"
    using T2 r by blast+
  have e2: "rb_served = g2" unfolding rb_served_def c by simp
  have v2: "g_demand g2 = 0" "g_solution g2 (0, 1, 0, 0) = 0" "g_solution g2 (0, 1, 1, 0) = 1"
    "g_obj_function g2 = 45"
    using rb_cell_result unfolding c by simp_all
  have a: "activities (problem rb_solver) 1 = 3"
    by (simp add: rb_solver_def initialization_phase_simps new_coiote_solver_def rb_problem_def)
  have z: "done_in rb_solver (g_solution rb_start) 1 = 0"
    by (simp add: rb_start_def greedy_start_def done_in_zero)
  show ?thesis unfolding e1 e2 using f r c v1 v2 o d a z by simp
qed

end
